(* ===== verification/OS_Prelude.thy ===== *)
theory OS_Prelude
  imports Main "HOL-Library.Word"
begin

text \<open>
  Shared vocabulary of the development: C values (\<open>char\<close>, \<open>int\<close>), the outcome of one
  atomic step of a C program, counting over thread tables, reachability in a step
  relation, and the generic locales for invariants and for refinement that the
  concurrent components interpret.
\<close>

named_theorems semop_simps \<open>evaluation of semop on concrete operation arrays\<close>
named_theorems ring_simps \<open>ring buffers seen as queues\<close>

section \<open>C values\<close>

text \<open>C \<open>char\<close> is one byte (signed on the platform of the Makefiles); C \<open>int\<close> is 32 bits.\<close>

type_synonym c_char = "8 word"
type_synonym c_int = "32 word"
type_synonym u64 = "64 word"

abbreviation ch :: "char \<Rightarrow> c_char" where
  "ch \<equiv> of_char"

text \<open>C's \<open>%\<close> on \<open>int\<close>: the remainder takes the sign of the dividend.\<close>

definition c_rem :: "int \<Rightarrow> int \<Rightarrow> int" where
  "c_rem a b = (if a < 0 then - ((- a) mod b) else a mod b)"

lemma c_rem_nonneg [simp]: "0 \<le> a \<Longrightarrow> c_rem a b = a mod b"
  by (simp add: c_rem_def)

lemma c_rem_bounds:
  assumes b: "0 < b"
  shows "- b < c_rem a b \<and> c_rem a b < b"
proof -
  have "0 \<le> (- a) mod b" "(- a) mod b < b" "0 \<le> a mod b" "a mod b < b"
    using b by simp_all
  then show ?thesis unfolding c_rem_def by (intro conjI; cases "a < 0"; simp only: if_True if_False; linarith)
qed

text \<open>
  One atomic step of a C thread: it goes on in a new state, it cannot run now (a blocking
  call), it ends the whole process with an exit status, or it has undefined behaviour (an
  access outside an array, a null dereference).
\<close>

datatype 's outcome = Cont 's | Blocked | Exit int | UB

definition is_Cont :: "'s outcome \<Rightarrow> bool" where
  "is_Cont r = (case r of Cont s \<Rightarrow> True | _ \<Rightarrow> False)"

lemma is_Cont_iff: "is_Cont r \<longleftrightarrow> (\<exists>s. r = Cont s)"
  by (cases r) (simp_all add: is_Cont_def)

abbreviation (input) EXIT_FAILURE :: int where "EXIT_FAILURE \<equiv> 1"

text \<open>\<open>recv\<close> into a buffer: the bytes delivered overwrite its beginning.\<close>

definition recv_into :: "c_char list \<Rightarrow> c_char list \<Rightarrow> c_char list" where
  "recv_into bytes buf = take (length buf) bytes @ drop (length bytes) buf"

lemma recv_into_length [simp]: "length (recv_into bs buf) = length buf"
  by (auto simp: recv_into_def)

section \<open>Counting entries of a table\<close>

definition cnt :: "('a \<Rightarrow> bool) \<Rightarrow> 'a list \<Rightarrow> int" where
  "cnt P xs = int (length (filter P xs))"

lemma cnt_Nil [simp]: "cnt P [] = 0"
  by (simp add: cnt_def)

lemma cnt_Cons [simp]: "cnt P (x # xs) = of_bool (P x) + cnt P xs"
  by (simp add: cnt_def)

lemma cnt_append [simp]: "cnt P (xs @ ys) = cnt P xs + cnt P ys"
  by (simp add: cnt_def)

lemma cnt_nonneg [simp, intro]: "0 \<le> cnt P xs"
  by (simp add: cnt_def)

lemma cnt_update:
  "i < length xs \<Longrightarrow> cnt P (xs[i := y]) = cnt P xs - of_bool (P (xs ! i)) + of_bool (P y)"
proof (induction xs arbitrary: i)
  case (Cons x xs)
  then show ?case by (cases i) auto
qed simp

lemma cnt_ge_1: "i < length xs \<Longrightarrow> P (xs ! i) \<Longrightarrow> 1 \<le> cnt P xs"
proof (induction xs arbitrary: i)
  case (Cons x xs)
  then show ?case by (cases i) (fastforce simp: add.commute)+
qed simp

lemma cnt_ge_2:
  "i < length xs \<Longrightarrow> j < length xs \<Longrightarrow> i \<noteq> j \<Longrightarrow> P (xs ! i) \<Longrightarrow> P (xs ! j) \<Longrightarrow> 2 \<le> cnt P xs"
proof (induction xs arbitrary: i j)
  case (Cons x xs)
  show ?case
  proof (cases i)
    case 0
    then obtain k where "j = Suc k" using Cons.prems by (cases j) auto
    then have "1 \<le> cnt P xs" using Cons.prems 0 by (auto intro: cnt_ge_1)
    then show ?thesis using 0 Cons.prems by simp
  next
    case (Suc k)
    then show ?thesis
      using Cons.prems Cons.IH [of k "j - 1"] cnt_ge_1 [of k xs P] by (cases j) auto
  qed
qed simp

lemma cnt_0_iff: "cnt P xs = 0 \<longleftrightarrow> (\<forall>x \<in> set xs. \<not> P x)"
  by (simp add: cnt_def filter_empty_conv)

lemma cnt_mono: "(\<And>x. P x \<Longrightarrow> Q x) \<Longrightarrow> cnt P xs \<le> cnt Q xs"
  by (induction xs) (auto simp: of_bool_def)

lemma cnt_disj:
  "(\<And>x. P x \<Longrightarrow> \<not> Q x) \<Longrightarrow> cnt (\<lambda>x. P x \<or> Q x) xs = cnt P xs + cnt Q xs"
  by (induction xs) auto

lemma cnt_map: "cnt P (map f xs) = cnt (\<lambda>x. P (f x)) xs"
  by (induction xs) auto

text \<open>If exactly one entry satisfies \<open>P\<close>, every selection inside \<open>P\<close> sees that entry only.\<close>

lemma filter_none: "cnt P xs = 0 \<Longrightarrow> (\<And>x. Q x \<Longrightarrow> P x) \<Longrightarrow> filter Q xs = []"
  by (auto simp: cnt_0_iff filter_empty_conv)

lemma filter_sole:
  assumes "cnt P xs = 1" "i < length xs" "P (xs ! i)" "\<And>x. Q x \<Longrightarrow> P x"
  shows "filter Q (xs[i := y]) = (if Q y then [y] else [])"
proof -
  have split: "xs[i := y] = take i xs @ y # drop (Suc i) xs"
    using assms(2) by (rule upd_conv_take_nth_drop)
  have "cnt P (take i xs @ xs ! i # drop (Suc i) xs) = 1"
    using assms(1,2) by (simp add: id_take_nth_drop [symmetric])
  then have "cnt P (take i xs) + cnt P (drop (Suc i) xs) = 0"
    using assms(3) by simp
  then have "cnt P (take i xs) = 0" "cnt P (drop (Suc i) xs) = 0"
    using cnt_nonneg [of P "take i xs"] cnt_nonneg [of P "drop (Suc i) xs"] by linarith+
  then show ?thesis
    using assms(4) by (simp add: split filter_none)
qed

lemma filter_sole_self:
  assumes "cnt P xs = 1" "i < length xs" "P (xs ! i)" "\<And>x. Q x \<Longrightarrow> P x"
  shows "filter Q xs = (if Q (xs ! i) then [xs ! i] else [])"
  using filter_sole [OF assms, where y = "xs ! i"] by simp

lemma filter_update_off:
  "i < length xs \<Longrightarrow> \<not> P (xs ! i) \<Longrightarrow> \<not> P y \<Longrightarrow> filter P (xs[i := y]) = filter P xs"
  by (induction xs arbitrary: i) (auto simp: nth_Cons' split: nat.splits)

lemma filter_enter:
  assumes "cnt P xs = 0" "i < length xs" "P y"
  shows "filter P (xs[i := y]) = [y]"
proof -
  have "cnt P (take i xs) + cnt P (drop i xs) = 0"
    using assms(1) by (simp flip: cnt_append)
  then have "cnt P (take i xs) = 0" "cnt P (drop i xs) = 0"
    using cnt_nonneg [of P "take i xs"] cnt_nonneg [of P "drop i xs"] by linarith+
  moreover have "set (drop (Suc i) xs) \<subseteq> set (drop i xs)"
    by (simp add: set_drop_subset_set_drop)
  ultimately show ?thesis
    using assms(2,3) by (auto simp: upd_conv_take_nth_drop cnt_0_iff filter_empty_conv)
qed

section \<open>Reachability, invariants and refinement\<close>

inductive reach :: "('s \<Rightarrow> bool) \<Rightarrow> ('s \<Rightarrow> 's \<Rightarrow> bool) \<Rightarrow> 's \<Rightarrow> bool"
  for init step where
  reach_init: "init s \<Longrightarrow> reach init step s"
| reach_step: "reach init step s \<Longrightarrow> step s t \<Longrightarrow> reach init step t"

text \<open>An invariant of a step system: it holds at the start and every step keeps it.\<close>

locale invariant_system =
  fixes init :: "'s \<Rightarrow> bool" and step :: "'s \<Rightarrow> 's \<Rightarrow> bool" and Inv :: "'s \<Rightarrow> bool"
  assumes init_inv: "init s \<Longrightarrow> Inv s"
    and step_inv: "Inv s \<Longrightarrow> step s t \<Longrightarrow> Inv t"
begin

lemma reach_inv: "reach init step s \<Longrightarrow> Inv s"
  by (induction rule: reach.induct) (auto intro: init_inv step_inv)

end

text \<open>
  A refinement: under the invariant, every concrete step is an abstract step or leaves the
  abstract state as it is.
\<close>

locale refinement = invariant_system init step Inv
  for init :: "'s \<Rightarrow> bool" and step :: "'s \<Rightarrow> 's \<Rightarrow> bool" and Inv :: "'s \<Rightarrow> bool" +
  fixes ainit :: "'a \<Rightarrow> bool" and astep :: "'a \<Rightarrow> 'a \<Rightarrow> bool" and abs :: "'s \<Rightarrow> 'a"
  assumes abs_init: "init s \<Longrightarrow> ainit (abs s)"
    and abs_step: "Inv s \<Longrightarrow> step s t \<Longrightarrow> astep (abs s) (abs t) \<or> abs t = abs s"
begin

lemma abs_reach: "reach init step s \<Longrightarrow> reach ainit astep (abs s)"
proof (induction rule: reach.induct)
  case (reach_init s)
  then show ?case by (auto intro: reach.reach_init abs_init)
next
  case (reach_step s t)
  from reach_step.hyps have "Inv s" by (auto intro: reach_inv)
  with reach_step show ?case
    using abs_step [of s t] by (auto intro: reach.reach_step)
qed

end

text \<open>Running a schedule: every action is a step, so what a schedule leads to is reachable.\<close>

fun run_actions :: "('a \<Rightarrow> 's \<Rightarrow> 's option) \<Rightarrow> 'a list \<Rightarrow> 's \<Rightarrow> 's option" where
  "run_actions act [] s = Some s"
| "run_actions act (a # as) s = (case act a s of None \<Rightarrow> None | Some s' \<Rightarrow> run_actions act as s')"

locale scheduler =
  fixes act :: "'a \<Rightarrow> 's \<Rightarrow> 's option" and step :: "'s \<Rightarrow> 's \<Rightarrow> bool" and boot :: 's
  assumes act_step: "act a s = Some t \<Longrightarrow> step s t"
begin

lemma run_reach_from:
  "reach (\<lambda>s. s = boot) step s \<Longrightarrow> run_actions act as s = Some t \<Longrightarrow> reach (\<lambda>s. s = boot) step t"
  by (induction as arbitrary: s)
    (auto split: option.splits intro: reach.reach_step dest: act_step)

lemma run_reach: "run_actions act as boot = Some t \<Longrightarrow> reach (\<lambda>s. s = boot) step t"
  by (rule run_reach_from) (rule reach.reach_init, rule refl)

end

end
