(* ===== verification/SysV_Sem.thy ===== *)
theory SysV_Sem
  imports OS_Prelude
begin

text \<open>
  System V semaphore sets as the programs use them through \<open>semop\<close>: an array of
  operations is applied in order and atomically; if one of them cannot proceed the set is
  left as it was and the caller blocks, or fails with \<open>EAGAIN\<close> under \<open>IPC_NOWAIT\<close>.
\<close>

record sembuf =
  sem_num :: nat
  sem_op :: int
  sem_nowait :: bool

type_synonym semset = "int list"

datatype sem_errno = EAGAIN | EFBIG | ERANGE

datatype semop_result = Done semset | Block | Fail sem_errno

definition SEMVMX :: int where
  "SEMVMX = 32767"

abbreviation sb :: "nat \<Rightarrow> int \<Rightarrow> sembuf" where
  "sb n d \<equiv> \<lparr>sem_num = n, sem_op = d, sem_nowait = False\<rparr>"

abbreviation sb_nowait :: "nat \<Rightarrow> int \<Rightarrow> sembuf" where
  "sb_nowait n d \<equiv> \<lparr>sem_num = n, sem_op = d, sem_nowait = True\<rparr>"

definition sem_wait :: "sembuf \<Rightarrow> semop_result" where
  "sem_wait b = (if sem_nowait b then Fail EAGAIN else Block)"

definition semop1 :: "sembuf \<Rightarrow> semset \<Rightarrow> semop_result" where
  "semop1 b vs =
     (if length vs \<le> sem_num b then Fail EFBIG
      else let v = vs ! sem_num b in
        if sem_op b = 0 then (if v = 0 then Done vs else sem_wait b)
        else if v + sem_op b < 0 then sem_wait b
        else if SEMVMX < v + sem_op b then Fail ERANGE
        else Done (vs[sem_num b := v + sem_op b]))"

fun semop :: "sembuf list \<Rightarrow> semset \<Rightarrow> semop_result" where
  "semop [] vs = Done vs"
| "semop (b # bs) vs = (case semop1 b vs of Done vs' \<Rightarrow> semop bs vs' | r \<Rightarrow> r)"

definition sem_ok :: "semset \<Rightarrow> bool" where
  "sem_ok vs \<longleftrightarrow> (\<forall>v \<in> set vs. 0 \<le> v \<and> v \<le> SEMVMX)"

lemmas semop_eval = semop1_def sem_wait_def SEMVMX_def Let_def

lemma semop1_ok: "semop1 b vs = Done vs' \<Longrightarrow> sem_ok vs \<Longrightarrow> sem_ok vs'"
  by (auto simp: semop1_def sem_wait_def sem_ok_def Let_def split: if_splits
      dest!: set_update_subset_insert [THEN subsetD])

lemma semop1_length: "semop1 b vs = Done vs' \<Longrightarrow> length vs' = length vs"
  by (auto simp: semop1_def sem_wait_def Let_def split: if_splits)

text \<open>A semaphore value never leaves the range of the kernel's counter.\<close>

lemma semop_ok: "semop bs vs = Done vs' \<Longrightarrow> sem_ok vs \<Longrightarrow> sem_ok vs'"
  by (induction bs vs rule: semop.induct) (auto dest: semop1_ok split: semop_result.splits)

lemma semop_length: "semop bs vs = Done vs' \<Longrightarrow> length vs' = length vs"
  by (induction bs vs rule: semop.induct) (auto dest: semop1_length split: semop_result.splits)

text \<open>The net effect of a completed array: every counter moves by the sum of its operations.\<close>

definition sem_delta :: "sembuf list \<Rightarrow> nat \<Rightarrow> int" where
  "sem_delta bs k = (\<Sum>b\<leftarrow>bs. if sem_num b = k then sem_op b else 0)"

lemma semop1_delta:
  "semop1 b vs = Done vs' \<Longrightarrow> k < length vs \<Longrightarrow>
   vs' ! k = vs ! k + (if sem_num b = k then sem_op b else 0)"
  by (auto simp: semop1_def sem_wait_def Let_def nth_list_update split: if_splits)

lemma semop_delta: "semop bs vs = Done vs' \<Longrightarrow> k < length vs \<Longrightarrow> vs' ! k = vs ! k + sem_delta bs k"
proof (induction bs arbitrary: vs)
  case Nil
  then show ?case by (simp add: sem_delta_def)
next
  case (Cons b bs)
  then obtain us where us: "semop1 b vs = Done us" "semop bs us = Done vs'"
    by (auto split: semop_result.splits)
  then have "k < length us" using Cons.prems by (simp add: semop1_length)
  then show ?case
    using Cons.IH [OF us(2)] semop1_delta [OF us(1) Cons.prems(2)] by (simp add: sem_delta_def)
qed

lemma semop_nowait_not_Block: "\<forall>b \<in> set bs. sem_nowait b \<Longrightarrow> semop bs vs \<noteq> Block"
  by (induction bs vs rule: semop.induct)
    (auto simp: semop1_def sem_wait_def Let_def split: semop_result.splits if_splits)

end
