(* ===== verification/PC_Protocol.thy ===== *)
theory PC_Protocol
  imports SysV_Sem
begin

text \<open>
  The producer/consumer protocol on three semaphores (free slots, filled slots, mutex)
  that \<open>sem_05/lab_03/producer-consumer/main.c\<close> and \<open>lab_sockets/lab_03/lab_03/server_1.c\<close>
  both follow. A program is brought to this protocol by naming the phase of each of its
  threads; the protocol's invariant then gives it mutual exclusion and slot accounting.
\<close>

datatype phase = Out | ProdBefore | ProdAfter | ConsBefore | ConsAfter

text \<open>
  \<open>ProdBefore\<close>: the producer holds the mutex and a free slot but its letter is not stored
  yet; \<open>ProdAfter\<close>: it is stored. \<open>ConsBefore\<close>: the consumer holds the mutex and a filled
  slot; \<open>ConsAfter\<close>: it has taken the letter out.
\<close>

record proto =
  p_sems :: semset
  p_phases :: "phase list"

definition proto_start_produce :: "sembuf list" where
  "proto_start_produce = [sb 0 (-1), sb 2 (-1)]"

definition proto_stop_produce :: "sembuf list" where
  "proto_stop_produce = [sb 2 1, sb 1 1]"

definition proto_start_consume :: "sembuf list" where
  "proto_start_consume = [sb 1 (-1), sb 2 (-1)]"

definition proto_stop_consume :: "sembuf list" where
  "proto_stop_consume = [sb 2 1, sb 0 1]"

lemmas proto_ops = proto_start_produce_def proto_stop_produce_def
  proto_start_consume_def proto_stop_consume_def

definition enter :: "nat \<Rightarrow> phase \<Rightarrow> semset \<Rightarrow> proto \<Rightarrow> proto" where
  "enter i ph vs p = \<lparr>p_sems = vs, p_phases = (p_phases p)[i := ph]\<rparr>"

inductive proto_step :: "proto \<Rightarrow> proto \<Rightarrow> bool" where
  begin_put: "i < length (p_phases p) \<Longrightarrow> p_phases p ! i = Out \<Longrightarrow>
    semop proto_start_produce (p_sems p) = Done vs \<Longrightarrow> proto_step p (enter i ProdBefore vs p)"
| commit_put: "i < length (p_phases p) \<Longrightarrow> p_phases p ! i = ProdBefore \<Longrightarrow>
    proto_step p (enter i ProdAfter (p_sems p) p)"
| end_put: "i < length (p_phases p) \<Longrightarrow> p_phases p ! i = ProdAfter \<Longrightarrow>
    semop proto_stop_produce (p_sems p) = Done vs \<Longrightarrow> proto_step p (enter i Out vs p)"
| begin_get: "i < length (p_phases p) \<Longrightarrow> p_phases p ! i = Out \<Longrightarrow>
    semop proto_start_consume (p_sems p) = Done vs \<Longrightarrow> proto_step p (enter i ConsBefore vs p)"
| commit_get: "i < length (p_phases p) \<Longrightarrow> p_phases p ! i = ConsBefore \<Longrightarrow>
    proto_step p (enter i ConsAfter (p_sems p) p)"
| end_get: "i < length (p_phases p) \<Longrightarrow> p_phases p ! i = ConsAfter \<Longrightarrow>
    semop proto_stop_consume (p_sems p) = Done vs \<Longrightarrow> proto_step p (enter i Out vs p)"
| spawn: "proto_step p (p\<lparr>p_phases := p_phases p @ [Out]\<rparr>)"

abbreviation inside :: "phase \<Rightarrow> bool" where
  "inside ph \<equiv> ph \<noteq> Out"

text \<open>The letters stored: filled slots plus the one a thread inside is about to account for.\<close>

definition stored :: "proto \<Rightarrow> int" where
  "stored p = p_sems p ! 1 + cnt (\<lambda>ph. ph = ProdAfter \<or> ph = ConsBefore) (p_phases p)"

definition proto_init :: "int \<Rightarrow> proto \<Rightarrow> bool" where
  "proto_init N p \<longleftrightarrow> p_sems p = [N, 0, 1] \<and> (\<forall>ph \<in> set (p_phases p). ph = Out)"

definition proto_inv :: "int \<Rightarrow> proto \<Rightarrow> bool" where
  "proto_inv N p \<longleftrightarrow>
     length (p_sems p) = 3 \<and> 0 \<le> p_sems p ! 0 \<and> 0 \<le> p_sems p ! 1 \<and> 0 \<le> p_sems p ! 2 \<and>
     p_sems p ! 2 + cnt inside (p_phases p) = 1 \<and>
     p_sems p ! 0 + p_sems p ! 1 + cnt inside (p_phases p) = N"

lemma enter_same: "p_phases p ! i = ph \<Longrightarrow> enter i ph (p_sems p) p = p"
  by (auto simp: enter_def)

lemma sems3:
  assumes "length vs = 3"
  obtains a b c where "vs = [a, b, c]"
  using assms by (auto simp: numeral_3_eq_3 length_Suc_conv)

lemma semop_start_produce [semop_simps]:
  "semop proto_start_produce [e, f, m] = Done vs \<longleftrightarrow>
   vs = [e - 1, f, m - 1] \<and> 1 \<le> e \<and> 1 \<le> m \<and> e \<le> SEMVMX + 1 \<and> m \<le> SEMVMX + 1"
  by (auto simp: proto_ops semop_eval split: if_splits)

lemma semop_start_consume [semop_simps]:
  "semop proto_start_consume [e, f, m] = Done vs \<longleftrightarrow>
   vs = [e, f - 1, m - 1] \<and> 1 \<le> f \<and> 1 \<le> m \<and> f \<le> SEMVMX + 1 \<and> m \<le> SEMVMX + 1"
  by (auto simp: proto_ops semop_eval split: if_splits)

lemma semop_stop_produce [semop_simps]:
  "semop proto_stop_produce [e, f, m] = Done vs \<longleftrightarrow>
   vs = [e, f + 1, m + 1] \<and> - 1 \<le> f \<and> - 1 \<le> m \<and> f < SEMVMX \<and> m < SEMVMX"
  by (auto simp: proto_ops semop_eval split: if_splits)

lemma semop_stop_consume [semop_simps]:
  "semop proto_stop_consume [e, f, m] = Done vs \<longleftrightarrow>
   vs = [e + 1, f, m + 1] \<and> - 1 \<le> e \<and> - 1 \<le> m \<and> e < SEMVMX \<and> m < SEMVMX"
  by (auto simp: proto_ops semop_eval split: if_splits)

text \<open>On counters in range the start arrays block or succeed and the stop arrays succeed.\<close>

lemma semop_start_eval:
  assumes "0 \<le> e" "e \<le> SEMVMX" "0 \<le> f" "f \<le> SEMVMX" "0 \<le> m" "m \<le> SEMVMX"
  shows "semop proto_start_produce [e, f, m]
           = (if 1 \<le> e \<and> 1 \<le> m then Done [e - 1, f, m - 1] else Block)"
    and "semop proto_start_consume [e, f, m]
           = (if 1 \<le> f \<and> 1 \<le> m then Done [e, f - 1, m - 1] else Block)"
  using assms by (auto simp: proto_ops semop_eval)

lemma semop_stop_eval:
  assumes "0 \<le> e" "e < SEMVMX" "0 \<le> f" "f < SEMVMX" "0 \<le> m" "m < SEMVMX"
  shows "semop proto_stop_produce [e, f, m] = Done [e, f + 1, m + 1]"
    and "semop proto_stop_consume [e, f, m] = Done [e + 1, f, m + 1]"
  using assms by (auto simp: proto_ops semop_eval)

lemma proto_init_inv: "0 \<le> N \<Longrightarrow> proto_init N p \<Longrightarrow> proto_inv N p"
  by (auto simp: proto_init_def proto_inv_def cnt_0_iff)

lemma proto_step_inv:
  assumes "proto_inv N p" and "proto_step p q"
  shows "proto_inv N q"
  using assms(2,1)
proof (induction rule: proto_step.induct)
  case (begin_put i p vs)
  obtain e f m where s: "p_sems p = [e, f, m]"
    using begin_put.prems by (auto simp: proto_inv_def elim: sems3)
  show ?case
    using begin_put by (simp add: proto_inv_def enter_def s semop_simps cnt_update)
next
  case (end_put i p vs)
  obtain e f m where s: "p_sems p = [e, f, m]"
    using end_put.prems by (auto simp: proto_inv_def elim: sems3)
  show ?case
    using end_put by (simp add: proto_inv_def enter_def s semop_simps cnt_update)
next
  case (begin_get i p vs)
  obtain e f m where s: "p_sems p = [e, f, m]"
    using begin_get.prems by (auto simp: proto_inv_def elim: sems3)
  show ?case
    using begin_get by (simp add: proto_inv_def enter_def s semop_simps cnt_update)
next
  case (end_get i p vs)
  obtain e f m where s: "p_sems p = [e, f, m]"
    using end_get.prems by (auto simp: proto_inv_def elim: sems3)
  show ?case
    using end_get by (simp add: proto_inv_def enter_def s semop_simps cnt_update)
qed (simp_all add: proto_inv_def enter_def cnt_update)

lemma cnt_phases:
  "cnt (\<lambda>ph. ph = ProdAfter \<or> ph = ConsBefore) phs + cnt (\<lambda>ph. ph = ProdBefore) phs
   \<le> cnt inside phs"
  by (induction phs) (auto simp: of_bool_def)

lemma stored_bounds:
  assumes "proto_inv N p"
  shows "0 \<le> stored p" "stored p \<le> N" "stored p + cnt (\<lambda>ph. ph = ProdBefore) (p_phases p) \<le> N"
proof -
  note cnt_phases [of "p_phases p"]
  then show "0 \<le> stored p" "stored p \<le> N"
    "stored p + cnt (\<lambda>ph. ph = ProdBefore) (p_phases p) \<le> N"
    using assms cnt_nonneg [of "\<lambda>ph. ph = ProdBefore" "p_phases p"]
      cnt_nonneg [of "\<lambda>ph. ph = ProdAfter \<or> ph = ConsBefore" "p_phases p"]
    unfolding proto_inv_def stored_def by linarith+
qed

end
