(* ===== verification/Ring_Buffer.thy ===== *)
theory Ring_Buffer
  imports OS_Prelude
begin

text \<open>
  The ring buffer the letter servers keep in \<open>ring\<close>, \<open>head\<close> and \<open>tail\<close>: the letters stored
  between \<open>head\<close> and \<open>tail\<close>, read as a queue, and the contract a bounded FIFO service gives
  to its clients.
\<close>

section \<open>The queue inside a ring\<close>

definition ring_slice :: "'a list \<Rightarrow> nat \<Rightarrow> nat \<Rightarrow> 'a list" where
  "ring_slice r h n = map (\<lambda>k. r ! ((h + k) mod length r)) [0..<n]"

lemma length_ring_slice [simp]: "length (ring_slice r h n) = n"
  by (simp add: ring_slice_def)

lemma ring_slice_0 [simp]: "ring_slice r h 0 = []"
  by (simp add: ring_slice_def)

lemma mod_ring_le:
  fixes h k m :: nat
  assumes "k \<le> m" "m < L" "(h + k) mod L = (h + m) mod L"
  shows "k = m"
proof -
  have "L dvd (h + m) - (h + k)"
    using assms mod_eq_dvd_iff_nat [of "h + k" "h + m" L] by simp
  then have "L dvd m - k" by simp
  then show ?thesis using assms(1,2) by (auto dest: dvd_imp_le)
qed

lemma mod_ring_inj:
  fixes h k m :: nat
  assumes "k < L" "m < L" "(h + k) mod L = (h + m) mod L"
  shows "k = m"
  using assms mod_ring_le [of k m L h] mod_ring_le [of m k L h] by (cases "k \<le> m") auto

lemma ring_slice_overwrite [ring_simps]:
  assumes "length r = L" "n < L"
  shows "ring_slice (r[(h + n) mod L := x]) h n = ring_slice r h n"
proof -
  have "(h + n) mod L \<noteq> (h + k) mod L" if "k < n" for k
    using mod_ring_inj [of k L n h] that assms by auto
  then show ?thesis using assms(1) by (simp add: ring_slice_def)
qed

lemma ring_slice_Suc [ring_simps]:
  "ring_slice r h (Suc n) = ring_slice r h n @ [r ! ((h + n) mod length r)]"
  by (simp add: ring_slice_def)

lemma ring_slice_Cons [ring_simps]:
  "h < length r \<Longrightarrow> ring_slice r h (Suc n) = r ! h # ring_slice r (Suc h mod length r) n"
proof -
  assume h: "h < length r"
  have "ring_slice r h (Suc n) = r ! h # map (\<lambda>k. r ! ((h + Suc k) mod length r)) [0..<n]"
    using h by (simp add: ring_slice_def map_upt_Suc del: upt_Suc)
  also have "map (\<lambda>k. r ! ((h + Suc k) mod length r)) [0..<n]
             = ring_slice r (Suc h mod length r) n"
    by (simp add: ring_slice_def mod_add_left_eq)
  finally show ?thesis .
qed

lemma ring_slice_nonempty_hd:
  "0 < n \<Longrightarrow> h < length r \<Longrightarrow>
   ring_slice r h n = r ! h # ring_slice r (Suc h mod length r) (n - 1)"
  by (cases n) (simp_all add: ring_slice_Cons)

text \<open>Advancing the end of the queue after a slot has been filled.\<close>

lemma ring_slice_push:
  assumes "n < length r" "t = (h + n) mod length r"
  shows "ring_slice (r[t := x]) h (Suc n) = ring_slice r h n @ [x]"
proof -
  have "0 < length r" using assms(1) by linarith
  then have "t < length r" using assms(2) by simp
  then show ?thesis
    using assms by (simp add: ring_slice_Suc ring_slice_overwrite)
qed

text \<open>The indices of a ring of size \<open>L\<close> that holds \<open>n\<close> letters, and its two operations.\<close>

definition ring_ok :: "nat \<Rightarrow> 'a list \<Rightarrow> nat \<Rightarrow> nat \<Rightarrow> nat \<Rightarrow> bool" where
  "ring_ok L r h t n \<longleftrightarrow> length r = L \<and> h < L \<and> n \<le> L \<and> t = (h + n) mod L"

lemma ring_ok_bounds: "ring_ok L r h t n \<Longrightarrow> h < length r \<and> t < length r"
  by (auto simp: ring_ok_def)

lemma ring_ok_put:
  assumes "ring_ok L r h t n" "n < L"
  shows "ring_ok L (r[t := x]) h (Suc t mod L) (Suc n)"
    "ring_slice (r[t := x]) h (Suc n) = ring_slice r h n @ [x]"
  using assms ring_slice_push [of n r t h x] by (auto simp: ring_ok_def mod_Suc_eq)

lemma ring_ok_get:
  assumes "ring_ok L r h t (Suc n)"
  shows "ring_ok L r (Suc h mod L) t n"
    "ring_slice r h (Suc n) = r ! h # ring_slice r (Suc h mod L) n"
  using assms by (auto simp: ring_ok_def ring_slice_Cons mod_add_left_eq)

section \<open>The contract of a bounded FIFO service\<close>

datatype 'a fop = Put 'a | Get

text \<open>
  Running a list of requests: the letters whose \<open>Put\<close> was accepted, the letters handed out
  by \<open>Get\<close>, and the final state.
\<close>

fun fifo_run :: "('a \<Rightarrow> 's \<Rightarrow> bool \<times> 's) \<Rightarrow> ('s \<Rightarrow> 'a option \<times> 's) \<Rightarrow> 'a fop list \<Rightarrow> 's
    \<Rightarrow> 'a list \<times> 'a list \<times> 's" where
  "fifo_run put get [] s = ([], [], s)"
| "fifo_run put get (Put x # ops) s =
     (case put x s of (accepted, s') \<Rightarrow>
       (case fifo_run put get ops s' of (ps, gs, t) \<Rightarrow> (if accepted then x # ps else ps, gs, t)))"
| "fifo_run put get (Get # ops) s =
     (case get s of (r, s') \<Rightarrow>
       (case fifo_run put get ops s' of (ps, gs, t) \<Rightarrow>
         (ps, (case r of None \<Rightarrow> gs | Some x \<Rightarrow> x # gs), t)))"

locale fifo_service =
  fixes put :: "'a \<Rightarrow> 's \<Rightarrow> bool \<times> 's" and get :: "'s \<Rightarrow> 'a option \<times> 's"
    and contents :: "'s \<Rightarrow> 'a list" and cap :: nat and invar :: "'s \<Rightarrow> bool"
  assumes put_law: "invar s \<Longrightarrow> put x s = (b, s') \<Longrightarrow>
      invar s' \<and> b = (length (contents s) < cap) \<and>
      contents s' = contents s @ (if b then [x] else [])"
    and get_law: "invar s \<Longrightarrow> get s = (r, s') \<Longrightarrow>
      invar s' \<and> (case r of None \<Rightarrow> contents s = [] \<and> contents s' = []
                  | Some x \<Rightarrow> contents s = x # contents s')"
    and bounded: "invar s \<Longrightarrow> length (contents s) \<le> cap"
begin

text \<open>What was stored plus what was accepted is what was handed out plus what is stored.\<close>

lemma fifo_order:
  "invar s \<Longrightarrow> fifo_run put get ops s = (ps, gs, t) \<Longrightarrow>
   invar t \<and> contents s @ ps = gs @ contents t"
proof (induction ops arbitrary: s ps gs t)
  case Nil
  then show ?case by auto
next
  case (Cons op ops)
  show ?case
  proof (cases op)
    case (Put x)
    obtain b s' where p: "put x s = (b, s')" by (cases "put x s")
    obtain ps' gs' t' where run: "fifo_run put get ops s' = (ps', gs', t')"
      by (cases "fifo_run put get ops s'")
    from put_law [OF Cons.prems(1) p] Cons.IH [OF _ run] show ?thesis
      using Cons.prems(2) Put p run by (auto split: if_splits)
  next
    case Get
    obtain r s' where g: "get s = (r, s')" by (cases "get s")
    obtain ps' gs' t' where run: "fifo_run put get ops s' = (ps', gs', t')"
      by (cases "fifo_run put get ops s'")
    from get_law [OF Cons.prems(1) g] Cons.IH [OF _ run] show ?thesis
      using Cons.prems(2) Get g run by (auto split: option.splits)
  qed
qed

text \<open>The number of letters stored is the number accepted minus the number handed out.\<close>

lemma fifo_balance:
  assumes "invar s" "contents s = []" "fifo_run put get ops s = (ps, gs, t)"
  shows "ps = gs @ contents t \<and> length (contents t) \<le> cap"
  using fifo_order [OF assms(1,3)] assms(2) bounded by auto

end

end
