(* ===== verification/Letter_Common.thy ===== *)
theory Letter_Common
  imports OS_Prelude
begin

text \<open>
  What \<open>lab_sockets/lab_03/lab_03/common.h\<close> declares for the client and the two letter
  servers: the size of the ring, the status codes and the request structure.
\<close>

definition ARR_SIZE :: nat where
  "ARR_SIZE = 26"

definition OK :: int where
  "OK = 0"

definition ERR_BUF_FULL :: int where
  "ERR_BUF_FULL = 1"

definition ERR_BUF_EMPTY :: int where
  "ERR_BUF_EMPTY = 2"

lemmas status_defs = OK_def ERR_BUF_FULL_def ERR_BUF_EMPTY_def

record req_t =
  req_type :: c_char
  req_status :: int
  req_letter :: c_char

text \<open>A reading of \<open>CLOCK_MONOTONIC\<close> (seconds, nanoseconds) and the difference of two.\<close>

type_synonym timespec = "int \<times> int"

definition elapsed_ns :: "timespec \<Rightarrow> timespec \<Rightarrow> int" where
  "elapsed_ns t0 t1 = (fst t1 - fst t0) * 1000000000 + (snd t1 - snd t0)"

end
