(* ===== verification/Threaded_Server.thy ===== *)
theory Threaded_Server
  imports PC_Protocol Ring_Buffer Letter_Common "HOL-Library.Sublist"
begin

text \<open>
  \<open>lab_sockets/lab_03/lab_03/server_1.c\<close>: one detached thread per connection, all of them
  sharing \<open>ring\<close>, \<open>head\<close> and \<open>tail\<close> under the semaphores EMPTY, FULL and MUTEX. Every
  statement of \<open>process_client\<close> that touches shared state is a step of its own, and the
  threads interleave freely.
\<close>

section \<open>State\<close>

text \<open>
  The program points of \<open>process_client\<close>: \<open>Recv\<close> (line 55), \<open>StartP\<close> .. \<open>StopP\<close> (lines
  63 to 74), \<open>SendP\<close> (80, 81), \<open>StartC\<close> .. \<open>StopC\<close> (85 to 95), \<open>SendC\<close> (101 to 103),
  \<open>Dflt\<close> (107), \<open>LogTime\<close> (111, 112), \<open>Closed\<close> (115).
\<close>

datatype s1_pc = Recv | StartP | PutRing | PutTail | PrintP | StopP | SendP
  | StartC | GetRing | GetHead | PrintC | StopC | SendC | Dflt | LogTime | Closed

datatype s1_reply = SentStatus int | SentReq req_t

record s1_thread =
  t_pc :: s1_pc
  t_connfd :: int
  t_req :: req_t
  t_status :: int
  t_t0 :: timespec
  t_t1 :: timespec
  t_sent :: "s1_reply list"

datatype s1_line = ProducerPut c_char | ConsumerGot c_char

record server1 =
  s1_sems :: semset
  s1_ring :: "c_char list"
  s1_head :: nat
  s1_tail :: nat
  s1_threads :: "s1_thread list"
  s1_out :: "s1_line list"
  s1_log :: "(string \<times> int) list"
  s1_flag :: bool

definition s1_start_produce :: "sembuf list" where
  "s1_start_produce = [sb 0 (-1), sb 2 (-1)]"

definition s1_stop_produce :: "sembuf list" where
  "s1_stop_produce = [sb 2 1, sb 1 1]"

definition s1_start_consume :: "sembuf list" where
  "s1_start_consume = [sb 1 (-1), sb 2 (-1)]"

definition s1_stop_consume :: "sembuf list" where
  "s1_stop_consume = [sb 2 1, sb 0 1]"

lemmas s1_ops = s1_start_produce_def s1_stop_produce_def s1_start_consume_def s1_stop_consume_def

section \<open>Operations\<close>

text \<open>What the environment supplies to a step: the message \<open>recv\<close> delivers and the clock.\<close>

record s1_input =
  in_recv :: "req_t option"
  in_clock :: timespec

definition set_thread :: "nat \<Rightarrow> s1_thread \<Rightarrow> server1 \<Rightarrow> server1" where
  "set_thread i t s = s\<lparr>s1_threads := (s1_threads s)[i := t]\<rparr>"

text \<open>\<open>semop\<close> with the code's error path: a failure ends the process.\<close>

definition s1_semop :: "sembuf list \<Rightarrow> nat \<Rightarrow> s1_thread \<Rightarrow> server1 \<Rightarrow> server1 outcome" where
  "s1_semop ops i t s =
     (case semop ops (s1_sems s) of
        Done vs \<Rightarrow> Cont (set_thread i t (s\<lparr>s1_sems := vs\<rparr>))
      | Block \<Rightarrow> Blocked
      | Fail e \<Rightarrow> Exit EXIT_FAILURE)"

definition log_time :: "string \<Rightarrow> int \<Rightarrow> server1 \<Rightarrow> server1" where
  "log_time op ns s = s\<lparr>s1_log := s1_log s @ [(op, ns)]\<rparr>"

definition process_client :: "s1_input \<Rightarrow> nat \<Rightarrow> server1 \<Rightarrow> server1 outcome" where
  "process_client inp i s =
     (let t = s1_threads s ! i; r = t_req t in
      case t_pc t of
        Recv \<Rightarrow>
          (case (if t_connfd t < 0 then None else in_recv inp) of
             None \<Rightarrow> Cont (set_thread i (t\<lparr>t_pc := Closed\<rparr>) s)
           | Some q \<Rightarrow> Cont (set_thread i (t\<lparr>t_req := q, t_t0 := in_clock inp,
               t_pc := (if req_type q = ch CHR ''p'' then StartP
                        else if req_type q = ch CHR ''c'' then StartC else Dflt)\<rparr>) s))
      | StartP \<Rightarrow> s1_semop s1_start_produce i (t\<lparr>t_pc := PutRing\<rparr>) s
      | PutRing \<Rightarrow> Cont (set_thread i (t\<lparr>t_pc := PutTail\<rparr>)
                      (s\<lparr>s1_ring := (s1_ring s)[s1_tail s := req_letter r]\<rparr>))
      | PutTail \<Rightarrow> Cont (set_thread i (t\<lparr>t_pc := PrintP\<rparr>)
                      (s\<lparr>s1_tail := (s1_tail s + 1) mod ARR_SIZE\<rparr>))
      | PrintP \<Rightarrow> Cont (set_thread i (t\<lparr>t_pc := StopP, t_status := OK\<rparr>)
                      (s\<lparr>s1_out := s1_out s @ [ProducerPut (req_letter r)]\<rparr>))
      | StopP \<Rightarrow> s1_semop s1_stop_produce i (t\<lparr>t_pc := SendP\<rparr>) s
      | SendP \<Rightarrow> Cont (set_thread i (t\<lparr>t_pc := LogTime, t_t1 := in_clock inp,
                      t_sent := t_sent t @ [SentStatus (t_status t)]\<rparr>) s)
      | StartC \<Rightarrow> s1_semop s1_start_consume i (t\<lparr>t_pc := GetRing\<rparr>) s
      | GetRing \<Rightarrow> Cont (set_thread i (t\<lparr>t_pc := GetHead,
                      t_req := r\<lparr>req_letter := s1_ring s ! s1_head s\<rparr>\<rparr>) s)
      | GetHead \<Rightarrow> Cont (set_thread i (t\<lparr>t_pc := PrintC\<rparr>)
                      (s\<lparr>s1_head := (s1_head s + 1) mod ARR_SIZE\<rparr>))
      | PrintC \<Rightarrow> Cont (set_thread i (t\<lparr>t_pc := StopC\<rparr>)
                      (s\<lparr>s1_out := s1_out s @ [ConsumerGot (req_letter r)]\<rparr>))
      | StopC \<Rightarrow> s1_semop s1_stop_consume i (t\<lparr>t_pc := SendC\<rparr>) s
      | SendC \<Rightarrow> Cont (set_thread i (t\<lparr>t_pc := LogTime, t_t1 := in_clock inp,
                      t_req := r\<lparr>req_status := OK\<rparr>,
                      t_sent := t_sent t @ [SentReq (r\<lparr>req_status := OK\<rparr>)]\<rparr>) s)
      | Dflt \<Rightarrow> Cont (set_thread i (t\<lparr>t_pc := LogTime, t_t1 := in_clock inp\<rparr>) s)
      | LogTime \<Rightarrow> Cont (log_time (if req_type r = ch CHR ''p'' then ''p'' else ''c'')
                      (elapsed_ns (t_t0 t) (t_t1 t)) (set_thread i (t\<lparr>t_pc := Recv\<rparr>) s))
      | Closed \<Rightarrow> Blocked)"

text \<open>
  The accept loop starts a thread for every value \<open>accept\<close> returns, also for a failed call;
  the handler of SIGINT clears \<open>flag\<close>, and the loop ends at its next test.
\<close>

definition s1_accept :: "int \<Rightarrow> req_t \<Rightarrow> int \<Rightarrow> timespec \<Rightarrow> server1 \<Rightarrow> server1" where
  "s1_accept fd r st tm s = s\<lparr>s1_threads := s1_threads s @
     [\<lparr>t_pc = Recv, t_connfd = fd, t_req = r, t_status = st, t_t0 = tm, t_t1 = tm, t_sent = []\<rparr>]\<rparr>"

definition s1_sig_handler :: "server1 \<Rightarrow> server1" where
  "s1_sig_handler s = s\<lparr>s1_flag := False\<rparr>"

definition s1_boot :: server1 where
  "s1_boot = \<lparr>s1_sems = [int ARR_SIZE, 0, 1], s1_ring = replicate ARR_SIZE 0, s1_head = 0,
     s1_tail = 0, s1_threads = [], s1_out = [], s1_log = [], s1_flag = True\<rparr>"

inductive s1_step :: "server1 \<Rightarrow> server1 \<Rightarrow> bool" where
  client: "i < length (s1_threads s) \<Longrightarrow> process_client inp i s = Cont s' \<Longrightarrow> s1_step s s'"
| accept: "s1_flag s \<Longrightarrow> s1_step s (s1_accept fd r st tm s)"
| signal: "s1_step s (s1_sig_handler s)"

abbreviation s1_init :: "server1 \<Rightarrow> bool" where
  "s1_init s \<equiv> s = s1_boot"

section \<open>The protocol inside the server\<close>

fun s1_phase :: "s1_pc \<Rightarrow> phase" where
  "s1_phase PutRing = ProdBefore"
| "s1_phase PutTail = ProdBefore"
| "s1_phase PrintP = ProdAfter"
| "s1_phase StopP = ProdAfter"
| "s1_phase GetRing = ConsBefore"
| "s1_phase GetHead = ConsBefore"
| "s1_phase PrintC = ConsAfter"
| "s1_phase StopC = ConsAfter"
| "s1_phase _ = Out"

definition s1_abs :: "server1 \<Rightarrow> proto" where
  "s1_abs s = \<lparr>p_sems = s1_sems s, p_phases = map (\<lambda>t. s1_phase (t_pc t)) (s1_threads s)\<rparr>"

abbreviation s1_inside :: "s1_thread \<Rightarrow> bool" where
  "s1_inside t \<equiv> inside (s1_phase (t_pc t))"

definition s1_full :: "server1 \<Rightarrow> nat" where
  "s1_full s = nat (s1_sems s ! 1)"

definition puts_of :: "s1_line list \<Rightarrow> c_char list" where
  "puts_of ls = concat (map (\<lambda>l. case l of ProducerPut c \<Rightarrow> [c] | ConsumerGot c \<Rightarrow> []) ls)"

definition gots_of :: "s1_line list \<Rightarrow> c_char list" where
  "gots_of ls = concat (map (\<lambda>l. case l of ProducerPut c \<Rightarrow> [] | ConsumerGot c \<Rightarrow> [c]) ls)"

text \<open>
  The letters stored, the letters printed so far and the position of \<open>tail\<close>, as the one
  thread inside the critical section leaves them at each of its program points:
  \<open>queued s n before after\<close> says that \<open>n\<close> letters are stored and that the letters printed as
  put, followed by \<open>before\<close>, are those printed as got, followed by \<open>after\<close> and the queue.
\<close>

definition queued :: "server1 \<Rightarrow> nat \<Rightarrow> c_char list \<Rightarrow> c_char list \<Rightarrow> bool" where
  "queued s n before after \<longleftrightarrow>
     s1_tail s = (s1_head s + n) mod ARR_SIZE \<and>
     puts_of (s1_out s) @ before
       = gots_of (s1_out s) @ after @ ring_slice (s1_ring s) (s1_head s) n"

definition crit_ok :: "server1 \<Rightarrow> s1_thread \<Rightarrow> bool" where
  "crit_ok s t =
     (let n = s1_full s; c = req_letter (t_req t) in
      case t_pc t of
        PutRing \<Rightarrow> queued s n [] []
      | PutTail \<Rightarrow> queued s n [] [] \<and> s1_ring s ! s1_tail s = c
      | PrintP \<Rightarrow> queued s (Suc n) [c] []
      | StopP \<Rightarrow> queued s (Suc n) [] []
      | GetRing \<Rightarrow> queued s (Suc n) [] []
      | GetHead \<Rightarrow> queued s (Suc n) [] [] \<and> c = s1_ring s ! s1_head s
      | PrintC \<Rightarrow> queued s n [] [c]
      | StopC \<Rightarrow> queued s n [] []
      | _ \<Rightarrow> False)"

definition s1_data_ok :: "server1 \<Rightarrow> bool" where
  "s1_data_ok s =
     (case filter s1_inside (s1_threads s) of
        [] \<Rightarrow> queued s (s1_full s) [] []
      | [t] \<Rightarrow> crit_ok s t
      | _ \<Rightarrow> False)"

definition s1_inv :: "server1 \<Rightarrow> bool" where
  "s1_inv s \<longleftrightarrow> proto_inv (int ARR_SIZE) (s1_abs s) \<and> length (s1_ring s) = ARR_SIZE \<and>
     s1_head s < ARR_SIZE \<and> s1_data_ok s"

lemmas s1_upd = set_thread_def log_time_def s1_accept_def s1_sig_handler_def

lemma s1_ops_proto:
  "s1_start_produce = proto_start_produce" "s1_stop_produce = proto_stop_produce"
  "s1_start_consume = proto_start_consume" "s1_stop_consume = proto_stop_consume"
  by (simp_all add: s1_ops proto_ops)

lemma s1_semop_Cont:
  "s1_semop ops i t s = Cont s' \<longleftrightarrow>
   (\<exists>vs. semop ops (s1_sems s) = Done vs \<and> s' = set_thread i t (s\<lparr>s1_sems := vs\<rparr>))"
  by (auto simp: s1_semop_def split: semop_result.splits)

lemma s1_abs_update:
  "s1_abs (set_thread i t s) = enter i (s1_phase (t_pc t)) (s1_sems s) (s1_abs s)"
  by (simp add: s1_abs_def enter_def set_thread_def map_update)

lemma s1_abs_sems: "enter i ph vs (s1_abs (s\<lparr>s1_sems := us\<rparr>)) = enter i ph vs (s1_abs s)"
  by (simp add: s1_abs_def enter_def)

lemma s1_abs_nth: "i < length (s1_threads s) \<Longrightarrow>
   p_phases (s1_abs s) ! i = s1_phase (t_pc (s1_threads s ! i))"
  by (simp add: s1_abs_def)

lemma s1_abs_sel [simp]: "p_sems (s1_abs s) = s1_sems s"
  "length (p_phases (s1_abs s)) = length (s1_threads s)"
  by (simp_all add: s1_abs_def)

lemma s1_abs_frame [simp]:
  "s1_abs (s\<lparr>s1_ring := r\<rparr>) = s1_abs s" "s1_abs (s\<lparr>s1_head := n\<rparr>) = s1_abs s"
  "s1_abs (s\<lparr>s1_tail := n\<rparr>) = s1_abs s" "s1_abs (s\<lparr>s1_out := l\<rparr>) = s1_abs s"
  "s1_abs (s\<lparr>s1_log := g\<rparr>) = s1_abs s" "s1_abs (s\<lparr>s1_flag := b\<rparr>) = s1_abs s"
  by (simp_all add: s1_abs_def)

lemmas s1_proto_rules = proto_step.intros [where p = "s1_abs s", unfolded s1_abs_sel] for s
lemmas s1_enter_same = enter_same [where p = "s1_abs s", unfolded s1_abs_sel] for s

text \<open>A step of a thread moves its phase along the protocol.\<close>

lemma s1_client_proto:
  assumes "i < length (s1_threads s)" "process_client inp i s = Cont s'"
  shows "proto_step (s1_abs s) (s1_abs s') \<or> s1_abs s' = s1_abs s"
proof -
  note st = s1_abs_nth [OF assms(1)] assms
  show ?thesis
    using st
    by (cases "t_pc (s1_threads s ! i)")
      (auto simp: process_client_def Let_def s1_semop_Cont s1_abs_update s1_abs_sems
        s1_ops_proto log_time_def s1_enter_same intro: s1_proto_rules split: option.splits if_splits)
qed

lemma s1_abs_accept:
  "s1_abs (s1_accept fd r st tm s) = (s1_abs s)\<lparr>p_phases := p_phases (s1_abs s) @ [Out]\<rparr>"
  by (simp add: s1_abs_def s1_accept_def)

lemma s1_step_proto:
  "s1_step s t \<Longrightarrow> proto_step (s1_abs s) (s1_abs t) \<or> s1_abs t = s1_abs s"
  by (induction rule: s1_step.induct)
    (auto simp: s1_sig_handler_def s1_abs_accept intro: proto_step.spawn dest: s1_client_proto)


lemma s1_cnt_inside: "cnt inside (p_phases (s1_abs s)) = cnt s1_inside (s1_threads s)"
  by (simp add: s1_abs_def cnt_map)

lemma s1_accounting:
  assumes "s1_inv s"
  obtains e f m where "s1_sems s = [e, f, m]" "0 \<le> e" "0 \<le> f" "0 \<le> m"
    "m + cnt s1_inside (s1_threads s) = 1" "e + f + cnt s1_inside (s1_threads s) = int ARR_SIZE"
proof -
  from assms have inv: "proto_inv (int ARR_SIZE) (s1_abs s)" by (simp add: s1_inv_def)
  then obtain e f m where s: "s1_sems s = [e, f, m]"
    by (auto simp: proto_inv_def elim: sems3)
  show thesis
    using inv by (intro that [OF s]) (simp_all add: proto_inv_def s s1_cnt_inside)
qed

lemma s1_frame [simp]:
  "queued (set_thread i t s) = queued s" "s1_full (set_thread i t s) = s1_full s"
  "s1_ring (set_thread i t s) = s1_ring s" "s1_head (set_thread i t s) = s1_head s"
  "s1_tail (set_thread i t s) = s1_tail s" "s1_sems (set_thread i t s) = s1_sems s"
  "s1_out (set_thread i t s) = s1_out s"
  "s1_threads (set_thread i t s) = (s1_threads s)[i := t]"
  by (simp_all add: set_thread_def queued_def s1_full_def fun_eq_iff)

lemma crit_ok_frame [simp]: "crit_ok (set_thread i t s) = crit_ok s"
  by (simp add: fun_eq_iff crit_ok_def Let_def split: s1_pc.split)

lemma queued_sems [simp]: "queued (s\<lparr>s1_sems := vs\<rparr>) = queued s"
  by (simp add: fun_eq_iff queued_def)

lemma puts_of_simps [simp]: "puts_of (ls @ [ProducerPut c]) = puts_of ls @ [c]"
  "puts_of (ls @ [ConsumerGot c]) = puts_of ls" "puts_of [] = []"
  by (simp_all add: puts_of_def)

lemma gots_of_simps [simp]: "gots_of (ls @ [ConsumerGot c]) = gots_of ls @ [c]"
  "gots_of (ls @ [ProducerPut c]) = gots_of ls" "gots_of [] = []"
  by (simp_all add: gots_of_def)

text \<open>The effect of the four statements of the critical sections on the stored queue.\<close>

lemma queued_put_ring:
  assumes "queued s n [] []" "n < length (s1_ring s)" "length (s1_ring s) = ARR_SIZE"
  shows "queued (s\<lparr>s1_ring := (s1_ring s)[s1_tail s := c]\<rparr>) n [] []"
  using assms by (auto simp: queued_def ring_slice_overwrite)

lemma queued_put_tail:
  assumes "queued s n [] []" "s1_ring s ! s1_tail s = c" "length (s1_ring s) = ARR_SIZE"
  shows "queued (s\<lparr>s1_tail := Suc (s1_tail s) mod ARR_SIZE\<rparr>) (Suc n) [c] []"
  using assms by (auto simp: queued_def ring_slice_Suc mod_Suc_eq)

lemma queued_get_head:
  assumes "queued s (Suc n) [] []" "s1_head s < ARR_SIZE" "length (s1_ring s) = ARR_SIZE"
  shows "queued (s\<lparr>s1_head := Suc (s1_head s) mod ARR_SIZE\<rparr>) n [] [s1_ring s ! s1_head s]"
  using assms by (auto simp: queued_def ring_slice_Cons mod_add_left_eq)

lemma queued_print_put:
  "queued s n [c] [] \<Longrightarrow> queued (s\<lparr>s1_out := s1_out s @ [ProducerPut c]\<rparr>) n [] []"
  by (simp add: queued_def)

lemma queued_print_got:
  "queued s n [] [c] \<Longrightarrow> queued (s\<lparr>s1_out := s1_out s @ [ConsumerGot c]\<rparr>) n [] []"
  by (simp add: queued_def)


lemma s1_data_ok_off:
  assumes "i < length (s1_threads s)" "\<not> s1_inside (s1_threads s ! i)" "\<not> s1_inside t"
    "s1_data_ok s"
  shows "s1_data_ok (set_thread i t s)"
  using assms by (simp add: s1_data_ok_def filter_update_off cong: list.case_cong)

lemma s1_data_ok_enter:
  assumes "i < length (s1_threads s)" "cnt s1_inside (s1_threads s) = 0" "s1_inside t"
    "crit_ok s t"
  shows "s1_data_ok (set_thread i t s)"
  using assms by (simp add: s1_data_ok_def filter_enter)

lemma s1_data_ok_inside:
  assumes "cnt s1_inside (s1_threads s) = 1" "i < length (s1_threads s)"
    "s1_inside (s1_threads s ! i)" "s1_inside t" "crit_ok s' t" "s1_threads s' = s1_threads s"
  shows "s1_data_ok (set_thread i t s')"
  using assms filter_sole [OF assms(1-3), of s1_inside t] by (simp add: s1_data_ok_def)

lemma s1_data_ok_leave:
  assumes "cnt s1_inside (s1_threads s) = 1" "i < length (s1_threads s)"
    "s1_inside (s1_threads s ! i)" "\<not> s1_inside t" "queued s' (s1_full s') [] []"
    "s1_threads s' = s1_threads s"
  shows "s1_data_ok (set_thread i t s')"
  using assms filter_sole [OF assms(1-3), of s1_inside t] by (simp add: s1_data_ok_def)

lemma s1_crit_ok:
  assumes "s1_inv s" "i < length (s1_threads s)" "s1_inside (s1_threads s ! i)"
  shows "cnt s1_inside (s1_threads s) = 1" "crit_ok s (s1_threads s ! i)"
proof -
  obtain m where "0 \<le> m" "m + cnt s1_inside (s1_threads s) = 1"
    using s1_accounting [OF assms(1)] by metis
  moreover have "1 \<le> cnt s1_inside (s1_threads s)"
    using assms(2,3) by (rule cnt_ge_1)
  ultimately show one: "cnt s1_inside (s1_threads s) = 1" by linarith
  show "crit_ok s (s1_threads s ! i)"
    using assms filter_sole_self [OF one assms(2,3), of s1_inside]
    by (simp add: s1_inv_def s1_data_ok_def)
qed

lemma s1_idle_ok:
  assumes "s1_inv s" "cnt s1_inside (s1_threads s) = 0"
  shows "queued s (s1_full s) [] []"
  using assms filter_none [OF assms(2), of s1_inside] by (simp add: s1_inv_def s1_data_ok_def)


lemma s1_data_ok_log [simp]: "s1_data_ok (s\<lparr>s1_log := l\<rparr>) = s1_data_ok s"
  "s1_data_ok (s\<lparr>s1_flag := b\<rparr>) = s1_data_ok s"
  by (simp_all add: s1_data_ok_def crit_ok_def queued_def s1_full_def Let_def
      cong: list.case_cong s1_pc.case_cong)

lemma s1_client_data_local:
  assumes "s1_inv s" "i < length (s1_threads s)" "process_client inp i s = Cont s'"
    "t_pc (s1_threads s ! i) \<in> {Recv, SendP, SendC, Dflt, LogTime, Closed}"
  shows "s1_data_ok s'"
proof -
  have d: "s1_data_ok s" using assms(1) by (simp add: s1_inv_def)
  have off: "\<not> s1_inside (s1_threads s ! i)" using assms(4) by auto
  have "s1_data_ok (set_thread i t s)" if "\<not> s1_inside t" for t
    using assms(2) off that d by (rule s1_data_ok_off)
  then show ?thesis
    using assms(3,4)
    by (auto simp: process_client_def Let_def log_time_def split: option.splits if_splits)
qed

lemma s1_client_data_enter:
  assumes "s1_inv s" "i < length (s1_threads s)" "process_client inp i s = Cont s'"
    "t_pc (s1_threads s ! i) \<in> {StartP, StartC}"
  shows "s1_data_ok s'"
proof -
  obtain e f m where s: "s1_sems s = [e, f, m]" and b: "0 \<le> e" "0 \<le> f" "0 \<le> m"
    "m + cnt s1_inside (s1_threads s) = 1" "e + f + cnt s1_inside (s1_threads s) = int ARR_SIZE"
    using s1_accounting [OF assms(1)] .
  have m: "1 \<le> m" using assms(3,4)
    by (auto simp: process_client_def Let_def s1_semop_Cont s s1_ops_proto semop_simps)
  then have none: "cnt s1_inside (s1_threads s) = 0"
    using b(4) cnt_nonneg [of s1_inside "s1_threads s"] by linarith
  have q: "queued s (nat f) [] []"
    using s1_idle_ok [OF assms(1) none] by (simp add: s1_full_def s)
  have c: "s1_data_ok (set_thread i t s'')"
    if "s1_threads s'' = s1_threads s" "s1_inside t" "crit_ok s'' t" for t s''
    using that assms(2) none by (simp add: s1_data_ok_enter)
  show ?thesis
    using assms(3,4) q b(2)
    by (auto simp: process_client_def Let_def s1_semop_Cont s s1_ops_proto semop_simps
        crit_ok_def s1_full_def nat_diff_distrib' Suc_nat_eq_nat_zadd1 intro!: c)
qed

lemma s1_client_data_inside:
  assumes "s1_inv s" "i < length (s1_threads s)" "process_client inp i s = Cont s'"
    "s1_inside (s1_threads s ! i)"
  shows "s1_data_ok s'"
proof -
  obtain e f m where s: "s1_sems s = [e, f, m]" and b: "0 \<le> e" "0 \<le> f" "0 \<le> m"
    "m + cnt s1_inside (s1_threads s) = 1" "e + f + cnt s1_inside (s1_threads s) = int ARR_SIZE"
    using s1_accounting [OF assms(1)] .
  note one = s1_crit_ok(1) [OF assms(1,2,4)] and crit = s1_crit_ok(2) [OF assms(1,2,4)]
  have r: "length (s1_ring s) = ARR_SIZE" "s1_head s < ARR_SIZE"
    using assms(1) by (simp_all add: s1_inv_def)
  have f: "nat f < ARR_SIZE" using b one by linarith
  have tl: "s1_tail s < length (s1_ring s)" if "queued s n x y" for n x y
    using that r by (simp add: queued_def)
  note ins = s1_data_ok_inside [OF one assms(2,4)]
  note out = s1_data_ok_leave [OF one assms(2,4)]
  show ?thesis
  proof (cases "t_pc (s1_threads s ! i)")
    case PutRing
    then show ?thesis
      using assms(3) crit f r tl
      by (auto simp: process_client_def Let_def crit_ok_def s1_full_def s
          intro!: ins queued_put_ring)
  next
    case PutTail
    then show ?thesis
      using assms(3) crit r
      by (auto simp: process_client_def Let_def crit_ok_def s1_full_def s
          intro!: ins queued_put_tail)
  next
    case GetHead
    then show ?thesis
      using assms(3) crit r
      by (auto simp: process_client_def Let_def crit_ok_def s1_full_def s
          intro!: ins queued_get_head)
  next
    case PrintP
    then show ?thesis
      using assms(3) crit
      by (auto simp: process_client_def Let_def crit_ok_def s1_full_def s
          intro!: ins queued_print_put)
  next
    case GetRing
    then show ?thesis
      using assms(3) crit
      by (auto simp: process_client_def Let_def crit_ok_def s1_full_def s intro!: ins)
  next
    case PrintC
    then show ?thesis
      using assms(3) crit
      by (auto simp: process_client_def Let_def crit_ok_def s1_full_def s
          intro!: ins queued_print_got)
  qed (use assms(3,4) crit b(2) in
      \<open>auto simp: process_client_def Let_def crit_ok_def s1_full_def s s1_semop_Cont
        s1_ops_proto semop_simps Suc_nat_eq_nat_zadd1 add.commute intro!: out\<close>)
qed


lemma s1_client_shape:
  assumes "s1_inv s" "process_client inp i s = Cont s'"
  shows "length (s1_ring s') = ARR_SIZE \<and> s1_head s' < ARR_SIZE"
proof -
  have "0 < ARR_SIZE" by (simp add: ARR_SIZE_def)
  then show ?thesis
    using assms
    by (cases "t_pc (s1_threads s ! i)")
      (auto simp: s1_inv_def process_client_def Let_def s1_semop_Cont log_time_def
        split: option.splits)
qed

lemma s1_client_inv:
  assumes "s1_inv s" "i < length (s1_threads s)" "process_client inp i s = Cont s'"
  shows "s1_inv s'"
proof -
  have "proto_inv (int ARR_SIZE) (s1_abs s')"
    using s1_client_proto [OF assms(2,3)] assms(1) by (auto simp: s1_inv_def intro: proto_step_inv)
  moreover have "s1_data_ok s'"
    using s1_client_data_local [OF assms] s1_client_data_enter [OF assms]
      s1_client_data_inside [OF assms]
    by (cases "t_pc (s1_threads s ! i)") simp_all
  ultimately show ?thesis
    using s1_client_shape [OF assms(1,3)] by (simp add: s1_inv_def)
qed

lemma s1_step_inv: "s1_inv s \<Longrightarrow> s1_step s t \<Longrightarrow> s1_inv t"
proof (erule s1_step.cases, goal_cases)
  case (1 i s' inp)
  then show ?case by (auto intro: s1_client_inv)
next
  case (2 s' fd r st tm)
  moreover have "s1_data_ok (s1_accept fd r st tm s') = s1_data_ok s'"
    by (simp add: s1_data_ok_def s1_accept_def crit_ok_def queued_def s1_full_def Let_def
        cong: list.case_cong s1_pc.case_cong)
  ultimately show ?case
    using proto_step_inv [OF _ proto_step.spawn, of _ "s1_abs s'"]
    by (simp add: s1_inv_def s1_abs_accept) (simp add: s1_accept_def)
qed (simp add: s1_inv_def s1_sig_handler_def)

lemma s1_boot_inv: "s1_inv s1_boot"
  by (simp add: s1_inv_def s1_boot_def s1_abs_def proto_inv_def s1_data_ok_def queued_def
      s1_full_def ARR_SIZE_def)

interpretation s1: refinement s1_init s1_step s1_inv "proto_init (int ARR_SIZE)" proto_step s1_abs
proof unfold_locales
  show "proto_init (int ARR_SIZE) (s1_abs s)" if "s = s1_boot" for s
    using that by (simp add: proto_init_def s1_abs_def s1_boot_def)
qed (auto intro: s1_boot_inv s1_step_inv dest: s1_step_proto)

lemma queued_prefix:
  assumes "queued s n b a" "length b \<le> n + length a"
  shows "prefix (gots_of (s1_out s)) (puts_of (s1_out s))"
    "length (puts_of (s1_out s)) + length b = length (gots_of (s1_out s)) + length a + n"
proof -
  have eq: "puts_of (s1_out s) @ b
      = gots_of (s1_out s) @ a @ ring_slice (s1_ring s) (s1_head s) n"
    using assms(1) by (simp add: queued_def)
  from arg_cong [OF this, of length]
  show len: "length (puts_of (s1_out s)) + length b = length (gots_of (s1_out s)) + length a + n"
    by simp
  have "prefix (puts_of (s1_out s)) (puts_of (s1_out s) @ b)"
    "prefix (gots_of (s1_out s)) (puts_of (s1_out s) @ b)"
    by (simp, simp add: eq)
  then show "prefix (gots_of (s1_out s)) (puts_of (s1_out s))"
    using len assms(2) by (auto intro: prefix_length_prefix)
qed

lemma s1_full_bound:
  assumes "s1_inv s"
  shows "int (s1_full s) + cnt s1_inside (s1_threads s) \<le> int ARR_SIZE"
proof -
  obtain e f m where s: "s1_sems s = [e, f, m]" and b: "0 \<le> e" "0 \<le> f" "0 \<le> m"
    "m + cnt s1_inside (s1_threads s) = 1" "e + f + cnt s1_inside (s1_threads s) = int ARR_SIZE"
    using s1_accounting [OF assms] .
  then show ?thesis by (simp add: s1_full_def)
qed

lemma s1_inv_queued:
  assumes "s1_inv s"
  obtains n b a where "queued s n b a" "length b \<le> n + length a" "n + length a \<le> ARR_SIZE"
proof (cases "filter s1_inside (s1_threads s)")
  case Nil
  then have none: "cnt s1_inside (s1_threads s) = 0" by (simp add: cnt_def)
  then have "s1_full s \<le> ARR_SIZE" using s1_full_bound [OF assms] by simp
  then show ?thesis using that s1_idle_ok [OF assms none] by simp
next
  case (Cons t ts)
  then have "t \<in> set (s1_threads s)" "s1_inside t"
    by (auto simp: filter_eq_Cons_iff)
  then obtain i where i: "i < length (s1_threads s)" "s1_inside (s1_threads s ! i)"
    by (auto simp: in_set_conv_nth)
  note one = s1_crit_ok(1) [OF assms i] and crit = s1_crit_ok(2) [OF assms i]
  have "Suc (s1_full s) \<le> ARR_SIZE"
    using s1_full_bound [OF assms] one by simp
  then show ?thesis
    using crit that by (auto simp: crit_ok_def Let_def split: s1_pc.splits)
qed

lemma s1_inv_fifo:
  assumes "s1_inv s"
  shows "prefix (gots_of (s1_out s)) (puts_of (s1_out s)) \<and>
    length (puts_of (s1_out s)) \<le> length (gots_of (s1_out s)) + ARR_SIZE"
proof -
  obtain n b a where q: "queued s n b a" "length b \<le> n + length a" "n + length a \<le> ARR_SIZE"
    using s1_inv_queued [OF assms] .
  show ?thesis using queued_prefix [OF q(1,2)] q(3) by simp
qed

section \<open>Executing schedules\<close>

datatype s1_event = Accept int | Client nat s1_input | Sigint

fun s1_exec :: "s1_event \<Rightarrow> server1 \<Rightarrow> server1 option" where
  "s1_exec (Accept fd) s =
     (if s1_flag s then Some (s1_accept fd \<lparr>req_type = 0, req_status = 0, req_letter = 0\<rparr> 0 (0, 0) s)
      else None)"
| "s1_exec (Client i inp) s =
     (if i < length (s1_threads s)
      then (case process_client inp i s of Cont s' \<Rightarrow> Some s' | _ \<Rightarrow> None) else None)"
| "s1_exec Sigint s = Some (s1_sig_handler s)"

interpretation s1_sched: scheduler s1_exec s1_step s1_boot
proof unfold_locales
  show "s1_exec e s = Some t \<Longrightarrow> s1_step s t" for e s t
    by (cases e) (auto split: if_splits outcome.splits intro: s1_step.intros)
qed

definition s1_req :: "char \<Rightarrow> char \<Rightarrow> s1_input" where
  "s1_req ty c = \<lparr>in_recv = Some \<lparr>req_type = ch ty, req_status = 0, req_letter = ch c\<rparr>,
     in_clock = (0, 0)\<rparr>"

text \<open>A producer stores \<open>x\<close>, a consumer takes it; a second producer is inside with \<open>y\<close>.\<close>

definition s1_demo :: "s1_event list" where
  "s1_demo = [Accept 4, Accept 5] @ replicate 7 (Client 0 (s1_req CHR ''p'' CHR ''x''))
     @ replicate 6 (Client 1 (s1_req CHR ''c'' CHR ''?''))
     @ replicate 4 (Client 0 (s1_req CHR ''p'' CHR ''y''))"

definition s1_demo_state :: server1 where
  "s1_demo_state = the (run_actions s1_exec s1_demo s1_boot)"

lemma s1_demo_run: "run_actions s1_exec s1_demo s1_boot = Some s1_demo_state"
  by code_simp

lemmas s1_demo_reach = s1_sched.run_reach [OF s1_demo_run]

lemma s1_accounting_range:
  assumes "s1_inv s"
  obtains e f m where "s1_sems s = [e, f, m]" "0 \<le> e" "0 \<le> f" "0 \<le> m" "e < SEMVMX" "f < SEMVMX"
    "m < SEMVMX" "m + cnt s1_inside (s1_threads s) = 1"
    "e + f + cnt s1_inside (s1_threads s) = int ARR_SIZE"
proof -
  obtain e f m where s: "s1_sems s = [e, f, m]" "0 \<le> e" "0 \<le> f" "0 \<le> m"
    "m + cnt s1_inside (s1_threads s) = 1" "e + f + cnt s1_inside (s1_threads s) = int ARR_SIZE"
    using s1_accounting [OF assms] .
  moreover have "e < SEMVMX" "f < SEMVMX" "m < SEMVMX"
    using s cnt_nonneg [of s1_inside "s1_threads s"]
    unfolding SEMVMX_def ARR_SIZE_def of_nat_numeral by linarith+
  ultimately show thesis using that by blast
qed

text \<open>Inside the critical section no statement blocks or fails.\<close>

lemma s1_inside_steps:
  assumes "s1_inv s" "s1_inside (s1_threads s ! i)"
  shows "\<exists>s'. process_client inp i s = Cont s'"
proof -
  obtain e f m where s: "s1_sems s = [e, f, m]" "0 \<le> e" "0 \<le> f" "0 \<le> m"
    "e < SEMVMX" "f < SEMVMX" "m < SEMVMX"
    using s1_accounting_range [OF assms(1)] by metis
  then show ?thesis
    using assms(2)
    by (cases "t_pc (s1_threads s ! i)")
      (auto simp: process_client_def Let_def s1_semop_def s1_ops_proto semop_stop_eval)
qed

lemma s1_enter_steps:
  assumes "s1_inv s" "cnt s1_inside (s1_threads s) = 0"
    "t_pc (s1_threads s ! i) = StartP \<and> 1 \<le> s1_sems s ! 0 \<or>
     t_pc (s1_threads s ! i) = StartC \<and> 1 \<le> s1_sems s ! 1"
  shows "\<exists>s'. process_client inp i s = Cont s'"
proof -
  obtain e f m where s: "s1_sems s = [e, f, m]" "0 \<le> e" "0 \<le> f" "0 \<le> m"
    "e < SEMVMX" "f < SEMVMX" "m < SEMVMX" "m + cnt s1_inside (s1_threads s) = 1"
    using s1_accounting_range [OF assms(1)] by metis
  then show ?thesis
    using assms(2,3)
    by (auto simp: process_client_def Let_def s1_semop_def s1_ops_proto semop_start_eval)
qed

lemma s1_no_exit:
  assumes "s1_inv s"
  shows "process_client inp i s \<noteq> Exit c" "process_client inp i s \<noteq> UB"
proof -
  obtain e f m where s: "s1_sems s = [e, f, m]" "0 \<le> e" "0 \<le> f" "0 \<le> m"
    "e < SEMVMX" "f < SEMVMX" "m < SEMVMX"
    using s1_accounting_range [OF assms(1)] by metis
  then show "process_client inp i s \<noteq> Exit c" "process_client inp i s \<noteq> UB"
    by (cases "t_pc (s1_threads s ! i)"; auto simp: process_client_def Let_def s1_semop_def
        s1_ops_proto semop_stop_eval semop_start_eval split: option.splits)+
qed

lemma s1_indices:
  assumes "s1_inv s"
  shows "s1_head s < length (s1_ring s)" "s1_tail s < length (s1_ring s)"
proof -
  obtain n b a where "queued s n b a" using s1_inv_queued [OF assms] .
  then show "s1_head s < length (s1_ring s)" "s1_tail s < length (s1_ring s)"
    using assms by (auto simp: s1_inv_def queued_def ARR_SIZE_def)
qed

section \<open>Properties\<close>

text \<open>
  (C1) FIFO delivery of the threaded server: in every reachable state, whatever the
  interleaving of the connections, the letters reported as taken by consumers are a prefix,
  in order, of the letters reported as put by producers, and at most 26 letters are
  outstanding.
\<close>

theorem server1_fifo:
  assumes "reach s1_init s1_step s"
  shows "prefix (gots_of (s1_out s)) (puts_of (s1_out s)) \<and>
    length (puts_of (s1_out s)) \<le> length (gots_of (s1_out s)) + ARR_SIZE"
  using s1.reach_inv [OF assms] by (rule s1_inv_fifo)

theorem server1_fifo_witness:
  "reach s1_init s1_step s1_demo_state \<and> gots_of (s1_out s1_demo_state) = [ch CHR ''x''] \<and>
   prefix (gots_of (s1_out s1_demo_state)) (puts_of (s1_out s1_demo_state))"
proof -
  have "gots_of (s1_out s1_demo_state) = [ch CHR ''x'']" by code_simp
  then show ?thesis using s1_demo_reach server1_fifo [OF s1_demo_reach] by simp
qed

text \<open>
  (C2) Mutual exclusion of the threaded server: two threads are never both between their
  start and stop operations.
\<close>

theorem server1_mutex:
  assumes "reach s1_init s1_step s" "i < length (s1_threads s)" "j < length (s1_threads s)"
    "i \<noteq> j" "s1_inside (s1_threads s ! i)"
  shows "\<not> s1_inside (s1_threads s ! j)"
  using s1_crit_ok(1) [OF s1.reach_inv [OF assms(1)] assms(2,5)]
    cnt_ge_2 [of i "s1_threads s" j s1_inside] assms(2-5) by auto

theorem server1_mutex_witness:
  "s1_inside (s1_threads s1_demo_state ! 0) \<and> \<not> s1_inside (s1_threads s1_demo_state ! 1)"
proof -
  have len: "length (s1_threads s1_demo_state) = 2"
    and ins: "s1_inside (s1_threads s1_demo_state ! 0)" by code_simp+
  show ?thesis using server1_mutex [OF s1_demo_reach, of 0 1] len ins by simp
qed

text \<open>
  Safety of every statement of the threaded server: in a reachable state both ring
  indices are inside the array, and no step of a connection ends the process through the
  error path of \<open>semop\<close> or has undefined behaviour.
\<close>

lemma server1_no_failure:
  assumes "reach s1_init s1_step s"
  shows "s1_head s < length (s1_ring s) \<and> s1_tail s < length (s1_ring s) \<and>
    process_client inp i s \<noteq> Exit c \<and> process_client inp i s \<noteq> UB"
  using s1_indices s1_no_exit s1.reach_inv [OF assms] by blast

lemma server1_no_failure_witness:
  "s1_head s1_demo_state = 1 \<and> s1_head s1_demo_state < length (s1_ring s1_demo_state) \<and>
   process_client (s1_req CHR ''p'' CHR ''x'') 0 s1_demo_state \<noteq> Exit 1"
proof -
  have "s1_head s1_demo_state = 1" by code_simp
  then show ?thesis using server1_no_failure [OF s1_demo_reach] by blast
qed

text \<open>
  (C3) No deadlock between producers and consumers: whenever one thread waits to produce
  and another waits to consume, some thread of the server can take a step.
\<close>

theorem server1_no_deadlock:
  assumes "reach s1_init s1_step s"
    and "i < length (s1_threads s)" "t_pc (s1_threads s ! i) = StartP"
    and "j < length (s1_threads s)" "t_pc (s1_threads s ! j) = StartC"
  shows "\<exists>k < length (s1_threads s). \<exists>s'. process_client inp k s = Cont s'"
proof -
  note inv = s1.reach_inv [OF assms(1)]
  show ?thesis
  proof (cases "\<exists>k < length (s1_threads s). s1_inside (s1_threads s ! k)")
    case True
    then show ?thesis using s1_inside_steps [OF inv] by blast
  next
    case False
    then have none: "cnt s1_inside (s1_threads s) = 0"
      by (auto simp: cnt_0_iff in_set_conv_nth)
    obtain e f m where s: "s1_sems s = [e, f, m]"
      "e + f + cnt s1_inside (s1_threads s) = int ARR_SIZE"
      using s1_accounting [OF inv] by metis
    then have "1 \<le> s1_sems s ! 0 \<or> 1 \<le> s1_sems s ! 1" using none by (auto simp: ARR_SIZE_def)
    then show ?thesis using s1_enter_steps [OF inv none] assms(2-5) by blast
  qed
qed

text \<open>The two clients of the demonstration at their start operations.\<close>

definition s1_wait_state :: server1 where
  "s1_wait_state = the (run_actions s1_exec [Accept 4, Accept 5, Client 0 (s1_req CHR ''p'' CHR ''x''),
     Client 1 (s1_req CHR ''c'' CHR ''?'')] s1_boot)"

lemma s1_wait_run: "run_actions s1_exec [Accept 4, Accept 5, Client 0 (s1_req CHR ''p'' CHR ''x''),
    Client 1 (s1_req CHR ''c'' CHR ''?'')] s1_boot = Some s1_wait_state"
  by code_simp

theorem server1_no_deadlock_witness:
  "\<exists>k < length (s1_threads s1_wait_state). \<exists>s'.
     process_client (s1_req CHR ''p'' CHR ''x'') k s1_wait_state = Cont s'"
proof -
  have pcs: "length (s1_threads s1_wait_state) = 2"
    "t_pc (s1_threads s1_wait_state ! 0) = StartP" "t_pc (s1_threads s1_wait_state ! 1) = StartC"
    by code_simp+
  show ?thesis
    using server1_no_deadlock [OF s1_sched.run_reach [OF s1_wait_run], of 0 1] pcs by simp
qed

text \<open>
  Refinement: the server implements the three-semaphore protocol, every reachable
  state maps to a reachable state of the abstract protocol with 26 slots.
\<close>

lemma server1_refines_protocol:
  assumes "reach s1_init s1_step s"
  shows "reach (proto_init (int ARR_SIZE)) proto_step (s1_abs s)"
  using assms by (rule s1.abs_reach)

lemma server1_refines_protocol_witness:
  "p_phases (s1_abs s1_demo_state) = [ProdBefore, Out] \<and>
   reach (proto_init (int ARR_SIZE)) proto_step (s1_abs s1_demo_state)"
proof -
  have "p_phases (s1_abs s1_demo_state) = [ProdBefore, Out]" by code_simp
  then show ?thesis using server1_refines_protocol [OF s1_demo_reach] by simp
qed

end
