(* ===== verification/Epoll_Server.thy ===== *)
theory Epoll_Server
  imports SysV_Sem Ring_Buffer Letter_Common
begin

text \<open>
  \<open>lab_sockets/lab_03/lab_03/server_2.c\<close>: the single-threaded letter server. \<open>serve\<close> answers
  one connection until its peer closes it; the semaphore operations carry \<open>IPC_NOWAIT\<close>, so a
  full or empty buffer is reported to the client instead of blocking the server.
\<close>

section \<open>State\<close>

datatype s2_line = ProdFull | ProdEmpty | Prod c_char | ConsEmpty | ConsFull | Cons_got c_char

record server2 =
  s2_sems :: semset
  s2_ring :: "c_char list"
  s2_head :: nat
  s2_tail :: nat
  s2_flag :: bool
  s2_out :: "s2_line list"
  s2_log :: "(c_char \<times> int) list"

definition s2_start_produce :: "sembuf list" where
  "s2_start_produce = [sb_nowait 0 (-1)]"

definition s2_stop_produce :: "sembuf list" where
  "s2_stop_produce = [sb_nowait 1 1]"

definition s2_start_consume :: "sembuf list" where
  "s2_start_consume = [sb_nowait 1 (-1)]"

definition s2_stop_consume :: "sembuf list" where
  "s2_stop_consume = [sb_nowait 0 1]"

lemmas s2_ops = s2_start_produce_def s2_stop_produce_def s2_start_consume_def s2_stop_consume_def

definition s2_print :: "s2_line \<Rightarrow> server2 \<Rightarrow> server2" where
  "s2_print l s = s\<lparr>s2_out := s2_out s @ [l]\<rparr>"

section \<open>Operations\<close>

text \<open>The case \<open>'p'\<close> of the switch (lines 62 to 86) and the case \<open>'c'\<close> (lines 87 to 111).\<close>

definition serve_p :: "req_t \<Rightarrow> server2 \<Rightarrow> (req_t \<times> server2) outcome" where
  "serve_p req s =
     (case semop s2_start_produce (s2_sems s) of
        Block \<Rightarrow> Blocked
      | Fail e \<Rightarrow>
          (if e = EAGAIN then Cont (req\<lparr>req_status := ERR_BUF_FULL\<rparr>, s2_print ProdFull s)
           else Exit EXIT_FAILURE)
      | Done vs \<Rightarrow>
          (let s1 = s\<lparr>s2_sems := vs, s2_ring := (s2_ring s)[s2_tail s := req_letter req],
                      s2_tail := (s2_tail s + 1) mod ARR_SIZE\<rparr>;
               req1 = req\<lparr>req_status := OK\<rparr> in
           case semop s2_stop_produce vs of
             Block \<Rightarrow> Blocked
           | Fail e \<Rightarrow>
               (if e = EAGAIN
                then Cont (req1\<lparr>req_status := ERR_BUF_EMPTY\<rparr>,
                       s2_print (Prod (req_letter req)) (s2_print ProdEmpty s1))
                else Exit EXIT_FAILURE)
           | Done us \<Rightarrow> Cont (req1, s2_print (Prod (req_letter req)) (s1\<lparr>s2_sems := us\<rparr>))))"

definition serve_c :: "req_t \<Rightarrow> server2 \<Rightarrow> (req_t \<times> server2) outcome" where
  "serve_c req s =
     (case semop s2_start_consume (s2_sems s) of
        Block \<Rightarrow> Blocked
      | Fail e \<Rightarrow>
          (if e = EAGAIN then Cont (req\<lparr>req_status := ERR_BUF_EMPTY\<rparr>, s2_print ConsEmpty s)
           else Exit EXIT_FAILURE)
      | Done vs \<Rightarrow>
          (let c = s2_ring s ! s2_head s;
               s1 = s\<lparr>s2_sems := vs, s2_head := (s2_head s + 1) mod ARR_SIZE\<rparr>;
               req1 = req\<lparr>req_letter := c, req_status := OK\<rparr> in
           case semop s2_stop_consume vs of
             Block \<Rightarrow> Blocked
           | Fail e \<Rightarrow>
               (if e = EAGAIN
                then Cont (req1\<lparr>req_status := ERR_BUF_FULL\<rparr>,
                       s2_print (Cons_got c) (s2_print ConsFull s1))
                else Exit EXIT_FAILURE)
           | Done us \<Rightarrow> Cont (req1, s2_print (Cons_got c) (s1\<lparr>s2_sems := us\<rparr>))))"

definition serve_switch :: "req_t \<Rightarrow> server2 \<Rightarrow> (req_t \<times> server2) outcome" where
  "serve_switch req s =
     (if req_type req = ch CHR ''p'' then serve_p req s
      else if req_type req = ch CHR ''c'' then serve_c req s
      else Cont (req, s))"

text \<open>
  The connection loop. The list holds what the successive calls of \<open>recv\<close> return, with the
  two clock readings of the round; when it runs out the server waits in \<open>recv\<close>. The result
  is the list of replies sent on the connection.
\<close>

datatype s2_recv = Msg req_t timespec timespec | Eof | RecvError

fun serve :: "s2_recv list \<Rightarrow> server2 \<Rightarrow> (req_t list \<times> server2) outcome" where
  "serve [] s = Blocked"
| "serve (Eof # rs) s = Cont ([], s)"
| "serve (RecvError # rs) s = Exit 1"
| "serve (Msg req t0 t1 # rs) s =
     (case serve_switch req s of
        Cont (reply, s') \<Rightarrow>
          (case serve rs (s'\<lparr>s2_log := s2_log s' @ [(req_type reply, elapsed_ns t0 t1)]\<rparr>) of
             Cont (replies, s'') \<Rightarrow> Cont (reply # replies, s'')
           | Blocked \<Rightarrow> Blocked | Exit c \<Rightarrow> Exit c | UB \<Rightarrow> UB)
      | Blocked \<Rightarrow> Blocked | Exit c \<Rightarrow> Exit c | UB \<Rightarrow> UB)"

text \<open>
  The event loop of \<open>main\<close>. For every ready event a connection is accepted and served; a
  failed \<open>accept\<close> is only reported, and \<open>serve\<close> then runs on descriptor \<open>-1\<close>, where \<open>recv\<close>
  fails. A signal interrupts \<open>epoll_wait\<close>, which returns \<open>-1\<close>.
\<close>

datatype s2_wait = Ready "(int \<times> s2_recv list) list" | Interrupted

definition s2_sig_handler :: "server2 \<Rightarrow> server2" where
  "s2_sig_handler s = s\<lparr>s2_flag := False\<rparr>"

fun s2_events :: "(int \<times> s2_recv list) list \<Rightarrow> server2 \<Rightarrow> server2 outcome" where
  "s2_events [] s = Cont s"
| "s2_events ((fd, rs) # evs) s =
     (case serve (if fd = -1 then [RecvError] else rs) s of
        Cont (replies, s') \<Rightarrow> s2_events evs s'
      | Blocked \<Rightarrow> Blocked | Exit c \<Rightarrow> Exit c | UB \<Rightarrow> UB)"

fun s2_main_loop :: "s2_wait list \<Rightarrow> server2 \<Rightarrow> server2 outcome" where
  "s2_main_loop ws s =
     (if \<not> s2_flag s then Exit 0
      else case ws of
        [] \<Rightarrow> Blocked
      | Interrupted # ws' \<Rightarrow> Exit 1
      | Ready evs # ws' \<Rightarrow>
          (case s2_events evs s of
             Cont s' \<Rightarrow> s2_main_loop ws' s'
           | Blocked \<Rightarrow> Blocked | Exit c \<Rightarrow> Exit c | UB \<Rightarrow> UB))"

declare s2_main_loop.simps [simp del]

definition s2_boot :: server2 where
  "s2_boot = \<lparr>s2_sems = [int ARR_SIZE, 0], s2_ring = replicate ARR_SIZE 0, s2_head = 0,
     s2_tail = 0, s2_flag = True, s2_out = [], s2_log = []\<rparr>"

section \<open>Invariant and functional behaviour\<close>

definition s2_count :: "server2 \<Rightarrow> nat" where
  "s2_count s = nat (s2_sems s ! 1)"

definition s2_contents :: "server2 \<Rightarrow> c_char list" where
  "s2_contents s = ring_slice (s2_ring s) (s2_head s) (s2_count s)"

definition s2_inv :: "server2 \<Rightarrow> bool" where
  "s2_inv s \<longleftrightarrow> s2_count s \<le> ARR_SIZE \<and>
     s2_sems s = [int ARR_SIZE - int (s2_count s), int (s2_count s)] \<and>
     ring_ok ARR_SIZE (s2_ring s) (s2_head s) (s2_tail s) (s2_count s)"

lemma s2_contents_length [simp]: "length (s2_contents s) = s2_count s"
  by (simp add: s2_contents_def)

lemma s2_invI:
  assumes "s2_sems s = [int ARR_SIZE - int n, int n]"
    "ring_ok ARR_SIZE (s2_ring s) (s2_head s) (s2_tail s) n"
  shows "s2_inv s" "s2_contents s = ring_slice (s2_ring s) (s2_head s) n"
  using assms by (auto simp: s2_inv_def s2_count_def s2_contents_def ring_ok_def)

lemma s2_semop_eval:
  assumes "n \<le> ARR_SIZE"
  shows "semop s2_start_produce [int ARR_SIZE - int n, int n] =
           (if n = ARR_SIZE then Fail EAGAIN else Done [int ARR_SIZE - int n - 1, int n])"
    and "semop s2_start_consume [int ARR_SIZE - int n, int n] =
           (if n = 0 then Fail EAGAIN else Done [int ARR_SIZE - int n, int n - 1])"
    and "n < ARR_SIZE \<Longrightarrow> semop s2_stop_produce [int ARR_SIZE - int n - 1, int n] =
           Done [int ARR_SIZE - int n - 1, int n + 1]"
    and "0 < n \<Longrightarrow> semop s2_stop_consume [int ARR_SIZE - int n, int n - 1] =
           Done [int ARR_SIZE - int n + 1, int n - 1]"
  using assms by (auto simp: s2_ops semop_eval ARR_SIZE_def)

text \<open>Producing: refused with BUF\_FULL and no effect when full, else the letter is queued last.\<close>

lemma serve_p_full:
  assumes "s2_inv s" "s2_count s = ARR_SIZE"
  shows "serve_p req s = Cont (req\<lparr>req_status := ERR_BUF_FULL\<rparr>, s2_print ProdFull s)"
proof -
  have "semop s2_start_produce (s2_sems s) = Fail EAGAIN"
    using assms s2_semop_eval(1) [of "s2_count s"] by (simp add: s2_inv_def)
  then show ?thesis by (simp add: serve_p_def)
qed

lemma serve_p_room:
  assumes "s2_inv s" "s2_count s < ARR_SIZE"
  obtains s' where "serve_p req s = Cont (req\<lparr>req_status := OK\<rparr>, s')" "s2_inv s'"
    "s2_contents s' = s2_contents s @ [req_letter req]" "s2_log s' = s2_log s"
    "s2_flag s' = s2_flag s"
proof -
  let ?n = "s2_count s"
  let ?s = "s2_print (Prod (req_letter req))
     (s\<lparr>s2_sems := [int ARR_SIZE - int ?n - 1, int ?n + 1],
        s2_ring := (s2_ring s)[s2_tail s := req_letter req],
        s2_tail := (s2_tail s + 1) mod ARR_SIZE\<rparr>)"
  have sems: "s2_sems s = [int ARR_SIZE - int ?n, int ?n]"
    and ring: "ring_ok ARR_SIZE (s2_ring s) (s2_head s) (s2_tail s) ?n"
    using assms(1) by (simp_all add: s2_inv_def)
  have run: "serve_p req s = Cont (req\<lparr>req_status := OK\<rparr>, ?s)"
    using assms(2) by (simp add: serve_p_def s2_semop_eval sems Let_def s2_print_def)
  have new: "s2_sems ?s = [int ARR_SIZE - int (Suc ?n), int (Suc ?n)]"
    "ring_ok ARR_SIZE (s2_ring ?s) (s2_head ?s) (s2_tail ?s) (Suc ?n)"
    using ring_ok_put(1) [OF ring assms(2)] by (simp_all add: s2_print_def)
  show thesis
  proof (rule that [OF run])
    show "s2_contents ?s = s2_contents s @ [req_letter req]"
      using ring_ok_put(2) [OF ring assms(2)]
      unfolding s2_invI(2) [OF new] by (simp add: s2_print_def s2_contents_def)
  qed (rule s2_invI(1) [OF new], simp_all add: s2_print_def)
qed

text \<open>Consuming: refused with BUF\_EMPTY and no effect when empty, else the first letter.\<close>

lemma serve_c_empty:
  assumes "s2_inv s" "s2_count s = 0"
  shows "serve_c req s = Cont (req\<lparr>req_status := ERR_BUF_EMPTY\<rparr>, s2_print ConsEmpty s)"
proof -
  have "semop s2_start_consume (s2_sems s) = Fail EAGAIN"
    using assms s2_semop_eval(2) [of "s2_count s"] by (simp add: s2_inv_def)
  then show ?thesis by (simp add: serve_c_def)
qed

lemma serve_c_some:
  assumes "s2_inv s" "0 < s2_count s"
  obtains s' c where "serve_c req s = Cont (req\<lparr>req_letter := c, req_status := OK\<rparr>, s')"
    "s2_inv s'" "s2_contents s = c # s2_contents s'" "s2_log s' = s2_log s"
    "s2_flag s' = s2_flag s"
proof -
  obtain n where n: "s2_count s = Suc n" using assms(2) by (cases "s2_count s") auto
  let ?c = "s2_ring s ! s2_head s"
  let ?s = "s2_print (Cons_got ?c)
     (s\<lparr>s2_sems := [int ARR_SIZE - int (Suc n) + 1, int n],
        s2_head := (s2_head s + 1) mod ARR_SIZE\<rparr>)"
  have sems: "s2_sems s = [int ARR_SIZE - int (Suc n), int (Suc n)]" and le: "Suc n \<le> ARR_SIZE"
    and ring: "ring_ok ARR_SIZE (s2_ring s) (s2_head s) (s2_tail s) (Suc n)"
    using assms(1) by (simp_all add: s2_inv_def n)
  have run: "serve_c req s = Cont (req\<lparr>req_letter := ?c, req_status := OK\<rparr>, ?s)"
    using s2_semop_eval(2,4) [OF le] by (simp add: serve_c_def sems Let_def s2_print_def)
  have new: "s2_sems ?s = [int ARR_SIZE - int n, int n]"
    "ring_ok ARR_SIZE (s2_ring ?s) (s2_head ?s) (s2_tail ?s) n"
    using ring_ok_get(1) [OF ring] by (simp_all add: s2_print_def)
  show thesis
  proof (rule that [OF run])
    show "s2_contents s = ?c # s2_contents ?s"
      using ring_ok_get(2) [OF ring]
      unfolding s2_invI(2) [OF new] by (simp add: s2_print_def s2_contents_def n)
  qed (rule s2_invI(1) [OF new], simp_all add: s2_print_def)
qed


text \<open>One request, whatever its type: the invariant stays and the server never exits.\<close>

lemma serve_switch_ok:
  assumes "s2_inv s"
  shows "\<exists>reply s'. serve_switch req s = Cont (reply, s') \<and> s2_inv s' \<and> s2_flag s' = s2_flag s \<and>
     req_type reply = req_type req \<and> s2_log s' = s2_log s"
proof -
  have print: "s2_inv (s2_print l s) = s2_inv s" "s2_flag (s2_print l s) = s2_flag s"
    "s2_log (s2_print l s) = s2_log s" for l
    by (simp_all add: s2_print_def s2_inv_def s2_count_def)
  show ?thesis
  proof (cases "req_type req = ch CHR ''p''")
    case True
    show ?thesis
    proof (cases "s2_count s = ARR_SIZE")
      case full: True
      show ?thesis
        using serve_p_full [OF assms full] assms True by (simp add: serve_switch_def print)
    next
      case False
      then have "s2_count s < ARR_SIZE" using assms by (simp add: s2_inv_def)
      then obtain s' where "serve_p req s = Cont (req\<lparr>req_status := OK\<rparr>, s')" "s2_inv s'"
        "s2_flag s' = s2_flag s" "s2_log s' = s2_log s"
        using serve_p_room [OF assms, of req] by blast
      then show ?thesis using True by (simp add: serve_switch_def)
    qed
  next
    case False
    show ?thesis
    proof (cases "s2_count s = 0")
      case empty: True
      show ?thesis
        using serve_c_empty [OF assms empty] assms False by (simp add: serve_switch_def print)
    next
      case some: False
      then obtain s' c where "serve_c req s = Cont (req\<lparr>req_letter := c, req_status := OK\<rparr>, s')"
        "s2_inv s'" "s2_flag s' = s2_flag s" "s2_log s' = s2_log s"
        using serve_c_some [OF assms, of req] by blast
      then show ?thesis using False assms by (simp add: serve_switch_def)
    qed
  qed
qed

section \<open>The server as a bounded FIFO service\<close>

definition s2_put :: "c_char \<Rightarrow> server2 \<Rightarrow> bool \<times> server2" where
  "s2_put c s =
     (case serve_switch \<lparr>req_type = ch CHR ''p'', req_status = OK, req_letter = c\<rparr> s of
        Cont (reply, s') \<Rightarrow> (req_status reply = OK, s') | _ \<Rightarrow> (False, s))"

definition s2_get :: "server2 \<Rightarrow> c_char option \<times> server2" where
  "s2_get s =
     (case serve_switch \<lparr>req_type = ch CHR ''c'', req_status = OK, req_letter = 0\<rparr> s of
        Cont (reply, s') \<Rightarrow> (if req_status reply = OK then Some (req_letter reply) else None, s')
      | _ \<Rightarrow> (None, s))"

lemma s2_print_inv [simp]:
  "s2_inv (s2_print l s) = s2_inv s" "s2_contents (s2_print l s) = s2_contents s"
  by (simp_all add: s2_print_def s2_inv_def s2_count_def s2_contents_def)

lemma server2_answer_p:
  assumes "s2_inv s"
  shows "\<exists>s'. serve_switch \<lparr>req_type = ch CHR ''p'', req_status = st, req_letter = c\<rparr> s =
           Cont (\<lparr>req_type = ch CHR ''p'',
                  req_status = (if length (s2_contents s) = ARR_SIZE then ERR_BUF_FULL else OK),
                  req_letter = c\<rparr>, s') \<and> s2_inv s' \<and>
           s2_contents s' = s2_contents s @ (if length (s2_contents s) = ARR_SIZE then [] else [c])"
    (is "\<exists>s'. serve_switch ?p s = _ \<and> _ \<and> _")
proof (cases "s2_count s = ARR_SIZE")
  case True
  then show ?thesis using serve_p_full [OF assms True] assms by (simp add: serve_switch_def)
next
  case False
  then have "s2_count s < ARR_SIZE" using assms by (simp add: s2_inv_def)
  then obtain s' where "serve_p ?p s = Cont (?p\<lparr>req_status := OK\<rparr>, s')" "s2_inv s'"
    "s2_contents s' = s2_contents s @ [req_letter ?p]"
    using serve_p_room [OF assms, of ?p] by blast
  then show ?thesis using False by (simp add: serve_switch_def)
qed

lemma server2_answer_c:
  assumes "s2_inv s"
  shows "\<exists>s'. serve_switch \<lparr>req_type = ch CHR ''c'', req_status = st, req_letter = c\<rparr> s =
           Cont (\<lparr>req_type = ch CHR ''c'',
                  req_status = (if s2_contents s = [] then ERR_BUF_EMPTY else OK),
                  req_letter = (if s2_contents s = [] then c else hd (s2_contents s))\<rparr>, s') \<and>
           s2_inv s' \<and> s2_contents s' = tl (s2_contents s)"
    (is "\<exists>s'. serve_switch ?c s = _ \<and> _ \<and> _")
proof (cases "s2_count s = 0")
  case True
  then have "s2_contents s = []" by (simp flip: length_0_conv)
  then show ?thesis using serve_c_empty [OF assms True] assms by (simp add: serve_switch_def)
next
  case False
  then have "0 < s2_count s" by simp
  then obtain s' x where "serve_c ?c s = Cont (?c\<lparr>req_letter := x, req_status := OK\<rparr>, s')"
    "s2_inv s'" "s2_contents s = x # s2_contents s'"
    using serve_c_some [OF assms, of ?c] by blast
  then show ?thesis by (simp add: serve_switch_def)
qed

lemma s2_count_less: "s2_inv s \<Longrightarrow> s2_count s < ARR_SIZE \<longleftrightarrow> s2_count s \<noteq> ARR_SIZE"
  by (auto simp: s2_inv_def)

interpretation s2: fifo_service s2_put s2_get s2_contents ARR_SIZE s2_inv
proof unfold_locales
  show "s2_inv s' \<and> b = (length (s2_contents s) < ARR_SIZE) \<and>
      s2_contents s' = s2_contents s @ (if b then [x] else [])"
    if "s2_inv s" "s2_put x s = (b, s')" for s x b s'
    using server2_answer_p [OF that(1), of OK x] that
    by (auto simp: s2_put_def s2_count_less status_defs split: if_splits)
  show "s2_inv s' \<and> (case r of None \<Rightarrow> s2_contents s = [] \<and> s2_contents s' = []
      | Some x \<Rightarrow> s2_contents s = x # s2_contents s')"
    if "s2_inv s" "s2_get s = (r, s')" for s r s'
    using server2_answer_c [OF that(1), of OK 0] that
    by (auto simp: s2_get_def status_defs split: if_splits)
  show "length (s2_contents s) \<le> ARR_SIZE" if "s2_inv s" for s
    using that by (simp add: s2_inv_def)
qed

lemma s2_boot_inv: "s2_inv s2_boot"
  by (simp add: s2_inv_def s2_boot_def s2_count_def ring_ok_def ARR_SIZE_def)

lemma s2_log_inv [simp]: "s2_inv (s\<lparr>s2_log := l\<rparr>) = s2_inv s"
  by (simp add: s2_inv_def s2_count_def)

section \<open>Properties\<close>

text \<open>
  (C4) FIFO delivery of the event-driven server: over any sequence of produce and consume
  requests from the start, the letters accepted are exactly the letters handed out, in
  order, followed by the letters still stored, of which there are at most 26.
\<close>

theorem server2_fifo:
  assumes "fifo_run s2_put s2_get ops s2_boot = (accepted, handed_out, s)"
  shows "accepted = handed_out @ s2_contents s \<and> length (s2_contents s) \<le> ARR_SIZE"
proof -
  have "s2_contents s2_boot = []" by (simp add: s2_contents_def s2_count_def s2_boot_def)
  then show ?thesis using s2.fifo_balance [OF s2_boot_inv _ assms] by simp
qed

definition s2_demo :: "c_char list \<times> c_char list \<times> server2" where
  "s2_demo = fifo_run s2_put s2_get [Put 97, Get, Get, Put 98, Put 99, Get] s2_boot"

theorem server2_fifo_witness:
  "fst s2_demo = [97, 98, 99] \<and> fst (snd s2_demo) = [97, 98] \<and>
   [97, 98, 99] = [97, 98] @ s2_contents (snd (snd s2_demo))"
proof -
  have r: "fst s2_demo = [97, 98, 99]" "fst (snd s2_demo) = [97, 98]" by code_simp+
  have "fifo_run s2_put s2_get [Put 97, Get, Get, Put 98, Put 99, Get] s2_boot
      = (fst s2_demo, fst (snd s2_demo), snd (snd s2_demo))"
    by (simp add: s2_demo_def)
  from server2_fifo [OF this] show ?thesis using r by simp
qed

text \<open>
  Every answer of the event-driven server: a produce request is refused with
  BUF\_FULL exactly when 26 letters are stored, and then nothing is stored; otherwise it is
  answered OK and the letter is queued last. A consume request is refused with BUF\_EMPTY
  exactly when nothing is stored; otherwise it is answered OK with the oldest letter.
\<close>

lemma server2_answers:
  assumes "s2_inv s"
  shows "(\<exists>s'. serve_switch \<lparr>req_type = ch CHR ''p'', req_status = st, req_letter = c\<rparr> s =
           Cont (\<lparr>req_type = ch CHR ''p'',
                  req_status = (if length (s2_contents s) = ARR_SIZE then ERR_BUF_FULL else OK),
                  req_letter = c\<rparr>, s') \<and> s2_inv s' \<and>
           s2_contents s' = s2_contents s @ (if length (s2_contents s) = ARR_SIZE then [] else [c])) \<and>
         (\<exists>s'. serve_switch \<lparr>req_type = ch CHR ''c'', req_status = st, req_letter = c\<rparr> s =
           Cont (\<lparr>req_type = ch CHR ''c'',
                  req_status = (if s2_contents s = [] then ERR_BUF_EMPTY else OK),
                  req_letter = (if s2_contents s = [] then c else hd (s2_contents s))\<rparr>, s') \<and>
           s2_inv s' \<and> s2_contents s' = tl (s2_contents s))"
  using server2_answer_p [OF assms] server2_answer_c [OF assms] by blast

lemma server2_answers_witness:
  "\<exists>s'. serve_switch \<lparr>req_type = ch CHR ''c'', req_status = 7, req_letter = 120\<rparr> s2_boot =
     Cont (\<lparr>req_type = ch CHR ''c'', req_status = ERR_BUF_EMPTY, req_letter = 120\<rparr>, s') \<and> s2_inv s'"
proof -
  have "s2_contents s2_boot = []" by (simp add: s2_contents_def s2_count_def s2_boot_def)
  then show ?thesis using server2_answers [OF s2_boot_inv, of 7 120] by auto
qed

text \<open>
  A connection is always served to its end: whatever requests a client sends before it
  closes, each one is answered, the type field of every request comes back, one line per
  request is logged, the ring stays consistent and the server neither blocks nor exits.
\<close>

lemma server2_serves_connection:
  assumes "s2_inv s"
  shows "\<exists>replies s'. serve (map (\<lambda>(q, t0, t1). Msg q t0 t1) msgs @ [Eof]) s = Cont (replies, s') \<and>
     s2_inv s' \<and> map req_type replies = map (\<lambda>(q, t0, t1). req_type q) msgs \<and>
     length (s2_log s') = length (s2_log s) + length msgs"
  using assms
proof (induction msgs arbitrary: s)
  case Nil
  then show ?case by simp
next
  case (Cons m msgs)
  obtain q t0 t1 where m: "m = (q, t0, t1)" by (cases m)
  obtain reply s' where r: "serve_switch q s = Cont (reply, s')" "s2_inv s'"
    "req_type reply = req_type q" "s2_log s' = s2_log s"
    using serve_switch_ok [OF Cons.prems, of q] by blast
  from Cons.IH [of "s'\<lparr>s2_log := s2_log s' @ [(req_type reply, elapsed_ns t0 t1)]\<rparr>"] r
  show ?case by (auto simp: m)
qed

lemma server2_serves_connection_witness:
  "\<exists>replies s'. serve (map (\<lambda>(q, t0, t1). Msg q t0 t1)
       [(\<lparr>req_type = ch CHR ''p'', req_status = 0, req_letter = 97\<rparr>, (0, 1), (0, 5))] @ [Eof]) s2_boot
     = Cont (replies, s') \<and> s2_inv s' \<and> map req_type replies = [ch CHR ''p'']"
  using server2_serves_connection [OF s2_boot_inv,
      of "[(\<lparr>req_type = ch CHR ''p'', req_status = 0, req_letter = 97\<rparr>, (0, 1), (0, 5))]"]
  by auto

text \<open>
  Fatal events of the event loop: a single failed \<open>accept\<close> ends the server with status
  1, because \<open>serve\<close> runs on descriptor -1, and a signal that interrupts \<open>epoll_wait\<close> ends it
  with status 1 as well, so the orderly exit with status 0 is not reached that way.
\<close>

lemma server2_fatal_events:
  assumes "s2_flag s"
  shows "s2_main_loop (Ready ((-1, rs) # evs) # ws) s = Exit 1 \<and>
         s2_main_loop (Interrupted # ws) s = Exit 1"
  using assms by (simp add: s2_main_loop.simps)

lemma server2_fatal_events_witness:
  "s2_main_loop [Ready [(-1, [Eof])]] s2_boot = Exit 1 \<and> s2_main_loop [Ready [(5, [Eof])]] s2_boot = Blocked"
proof -
  have "s2_flag s2_boot" by (simp add: s2_boot_def)
  then show ?thesis
    using server2_fatal_events [of s2_boot "[Eof]" "[]" "[]"] by (simp add: s2_main_loop.simps)
qed

end
