(* ===== verification/Mux_Server.thy ===== *)
theory Mux_Server
  imports SysV_Sem Ring_Buffer
begin

text \<open>
  \<open>lab_sockets/lab_03/multiplex\<close>: the single-threaded \<open>epoll\<close> server that keeps the letters in
  a ring guarded by two counting semaphores, its event loop, and the client that retries a
  refused request. Requests and replies are byte buffers here, and \<open>main\<close> reuses one
  buffer for every connection.
\<close>

section \<open>Constants of \<open>common.h\<close> and state\<close>

definition BUF_SIZE :: nat where "BUF_SIZE = 64"
definition MUX_ARR_SIZE :: nat where "MUX_ARR_SIZE = 26"
definition MUX_OK :: int where "MUX_OK = 0"
definition BUFFER_FULL_ERR :: int where "BUFFER_FULL_ERR = 3"
definition BUFFER_EMPTY_ERR :: int where "BUFFER_EMPTY_ERR = 4"

lemmas mux_consts = BUF_SIZE_def MUX_ARR_SIZE_def MUX_OK_def BUFFER_FULL_ERR_def BUFFER_EMPTY_ERR_def

datatype mux_line = BufferFull | ProducerPut c_char | BufferEmpty | ConsumerGot c_char
  | NewConnection int | Disconnected int

record mux =
  m_sems :: semset
  m_ring :: "c_char list"
  m_head :: nat
  m_tail :: nat
  m_buf :: "c_char list"
  m_watched :: "int list"
  m_out :: "mux_line list"
  m_log :: "(c_char \<times> int) list"

definition mux_start_produce :: "sembuf list" where
  "mux_start_produce = [sb_nowait 0 (-1)]"

definition mux_stop_produce :: "sembuf list" where
  "mux_stop_produce = [sb 1 1]"

definition mux_start_consume :: "sembuf list" where
  "mux_start_consume = [sb_nowait 1 (-1)]"

definition mux_stop_consume :: "sembuf list" where
  "mux_stop_consume = [sb 0 1]"

lemmas mux_ops = mux_start_produce_def mux_stop_produce_def mux_start_consume_def mux_stop_consume_def

text \<open>
  What a reply puts on the wire: the four bytes of an \<open>int\<close> status, or the first
  \<open>sizeof(buf)\<close> bytes of the buffer. In \<open>handle_client_command\<close> \<open>buf\<close> is a parameter, a
  pointer of 8 bytes.
\<close>

datatype mux_reply = SentInt int | SentBytes "c_char list"

definition sizeof_pointer :: nat where "sizeof_pointer = 8"

definition mux_send_buf :: "mux \<Rightarrow> mux_reply" where
  "mux_send_buf s = SentBytes (take sizeof_pointer (m_buf s))"

section \<open>The command handler\<close>

definition mux_print :: "mux_line \<Rightarrow> mux \<Rightarrow> mux" where
  "mux_print l s = s\<lparr>m_out := m_out s @ [l]\<rparr>"

text \<open>The result of the stop operation is not tested by the code.\<close>

definition semop_ignore :: "sembuf list \<Rightarrow> semset \<Rightarrow> semset" where
  "semop_ignore ops vs = (case semop ops vs of Done us \<Rightarrow> us | _ \<Rightarrow> vs)"

definition mux_case_P :: "mux \<Rightarrow> (mux_reply option \<times> mux) outcome" where
  "mux_case_P s =
     (let item = m_buf s ! 1 in
      case semop mux_start_produce (m_sems s) of
        Block \<Rightarrow> Blocked
      | Fail e \<Rightarrow>
          (if e = EAGAIN then Cont (Some (SentInt BUFFER_FULL_ERR), mux_print BufferFull s)
           else Exit EXIT_FAILURE)
      | Done vs \<Rightarrow>
          Cont (Some (SentInt MUX_OK),
            (mux_print (ProducerPut item)
              (s\<lparr>m_ring := (m_ring s)[m_tail s := item],
                 m_tail := (m_tail s + 1) mod MUX_ARR_SIZE\<rparr>))
            \<lparr>m_sems := semop_ignore mux_stop_produce vs\<rparr>))"

definition mux_case_C :: "mux \<Rightarrow> (mux_reply option \<times> mux) outcome" where
  "mux_case_C s =
     (case semop mux_start_consume (m_sems s) of
        Block \<Rightarrow> Blocked
      | Fail e \<Rightarrow>
          (if e = EAGAIN then
             (let s1 = (mux_print BufferEmpty s)
                        \<lparr>m_buf := (m_buf s)[0 := word_of_int BUFFER_EMPTY_ERR, 1 := 0]\<rparr>
              in Cont (Some (mux_send_buf s1), s1))
           else Exit EXIT_FAILURE)
      | Done vs \<Rightarrow>
          (let item = m_ring s ! m_head s;
               s1 = (mux_print (ConsumerGot item) (s\<lparr>m_head := (m_head s + 1) mod MUX_ARR_SIZE\<rparr>))
                     \<lparr>m_sems := semop_ignore mux_stop_consume vs,
                      m_buf := (m_buf s)[0 := word_of_int MUX_OK, 1 := item]\<rparr>
           in Cont (Some (mux_send_buf s1), s1)))"

definition handle_client_command :: "int \<Rightarrow> mux \<Rightarrow> (mux_reply option \<times> mux) outcome" where
  "handle_client_command ns s =
     (case (if m_buf s ! 0 = ch CHR ''P'' then mux_case_P s
            else if m_buf s ! 0 = ch CHR ''C'' then mux_case_C s
            else Cont (None, s)) of
        Cont (reply, s') \<Rightarrow> Cont (reply, s'\<lparr>m_log := m_log s' @ [(m_buf s' ! 0, ns)]\<rparr>)
      | Blocked \<Rightarrow> Blocked | Exit c \<Rightarrow> Exit c | UB \<Rightarrow> UB)"

section \<open>The event loop\<close>

text \<open>
  One entry of the \<open>events\<close> array: the listening descriptor with what \<open>accept\<close> returns and
  whether \<open>epoll_ctl\<close> succeeds, or a connection with the bytes \<open>recv\<close> delivers (none when
  the peer closed it or the call failed).
\<close>

datatype mux_event = Listen int bool | Ready int "c_char list" int

fun mux_event_step :: "mux_event \<Rightarrow> mux \<Rightarrow> (mux_reply option \<times> mux) outcome" where
  "mux_event_step (Listen connfd ctl_ok) s =
     (if connfd = -1 then Cont (None, s)
      else if \<not> ctl_ok then Exit EXIT_FAILURE
      else Cont (None, mux_print (NewConnection connfd) (s\<lparr>m_watched := m_watched s @ [connfd]\<rparr>)))"
| "mux_event_step (Ready fd bytes ns) s =
     (if bytes = [] then
        Cont (None, (mux_print (Disconnected fd) s)\<lparr>m_watched := removeAll fd (m_watched s)\<rparr>)
      else handle_client_command ns (s\<lparr>m_buf := recv_into bytes (m_buf s)\<rparr>))"

text \<open>
  How the loop can stop: the process exits, or is killed by SIGPIPE, which \<open>send\<close> raises on a connection that the peer has closed
  (the result of \<open>send\<close> itself is not tested).  The loop of line 176 over one array of events, each with whether its connection is broken when
  a reply is sent; then the loop of line 171 over the results of \<open>epoll_wait\<close>, \<open>None\<close> when it fails.
\<close>

datatype mux_stop = Stop_exit int | Stop_sigpipe | Stop_blocked | Stop_ub

fun mux_events :: "(mux_event \<times> bool) list \<Rightarrow> mux \<Rightarrow> mux_stop + mux_reply option list \<times> mux" where
  "mux_events [] s = Inr ([], s)"
| "mux_events ((e, broken) # es) s =
     (case mux_event_step e s of
        Cont (r, s') \<Rightarrow>
          (if r \<noteq> None \<and> broken then Inl Stop_sigpipe
           else case mux_events es s' of
             Inl x \<Rightarrow> Inl x
           | Inr (rs, s'') \<Rightarrow> Inr (r # rs, s''))
      | Blocked \<Rightarrow> Inl Stop_blocked | Exit c \<Rightarrow> Inl (Stop_exit c) | UB \<Rightarrow> Inl Stop_ub)"

fun mux_loop :: "(mux_event \<times> bool) list option list \<Rightarrow> mux \<Rightarrow> mux_stop + mux_reply option list \<times> mux" where
  "mux_loop [] s = Inr ([], s)"
| "mux_loop (None # ws) s = Inl (Stop_exit EXIT_FAILURE)"
| "mux_loop (Some es # ws) s =
     (case mux_events es s of
        Inl x \<Rightarrow> Inl x
      | Inr (rs, s') \<Rightarrow>
          (case mux_loop ws s' of Inl x \<Rightarrow> Inl x | Inr (rs', s'') \<Rightarrow> Inr (rs @ rs', s'')))"

definition mux_boot :: "c_char list \<Rightarrow> mux" where
  "mux_boot buf0 = \<lparr>m_sems = [int MUX_ARR_SIZE, 0], m_ring = replicate MUX_ARR_SIZE 0, m_head = 0,
     m_tail = 0, m_buf = buf0, m_watched = [], m_out = [], m_log = []\<rparr>"

section \<open>The client\<close>

text \<open>
  One attempt of \<open>produce\<close> (lines 34 to 39): the letter is sent in a full buffer and the
  status comes back as an \<open>int\<close>; one attempt of \<open>consume\<close> (58 to 62): the reply overwrites
  the first bytes of the buffer. The rest of the 64 bytes is whatever the buffer held.
\<close>

definition produce_request :: "c_char \<Rightarrow> c_char list \<Rightarrow> c_char list" where
  "produce_request letter buf = buf[0 := ch CHR ''P'', 1 := letter]"

definition consume_request :: "c_char list \<Rightarrow> c_char list" where
  "consume_request buf = buf[0 := ch CHR ''C'']"

definition recv_reply :: "mux_reply option \<Rightarrow> c_char list \<Rightarrow> c_char list" where
  "recv_reply r buf = (case r of Some (SentBytes bs) \<Rightarrow> recv_into bs buf | _ \<Rightarrow> buf)"

definition next_letter :: "c_char \<Rightarrow> c_char" where
  "next_letter letter = (if letter = ch CHR ''z'' then ch CHR ''a'' else letter + 1)"

text \<open>
  \<open>produce\<close> and \<open>consume\<close> against a server that no other client changes between two attempts; \<open>conn n\<close> says whether connection
  number \<open>n\<close> is made.  The function returns with the server's state, the letter and the number of the next connection, or ends in one of
  the other ways: the client exits in \<open>do_connect\<close>, waits in \<open>recv\<close> for a reply that does not come, the server
  ends during the attempt, or what happens is not defined (also for a reply of the wrong kind).  Not returning
  at all, \<open>None\<close>, is the retry loop going on for ever.
\<close>

datatype 'a tried = Returned 'a | Client_exits int | No_reply | Server_gone | Not_defined

partial_function (option) mux_produce ::
  "(nat \<Rightarrow> bool) \<Rightarrow> nat \<Rightarrow> int \<Rightarrow> c_char list \<Rightarrow> c_char \<Rightarrow> mux \<Rightarrow> (mux \<times> c_char \<times> nat) tried option" where
  "mux_produce conn n ns buf letter s =
     (if \<not> conn n then Some (Client_exits 1)
      else case mux_event_step (Ready 5 (produce_request letter buf) ns) s of
        Cont (Some (SentInt st), s') \<Rightarrow>
          (if st = BUFFER_FULL_ERR then mux_produce conn (Suc n) ns buf letter s'
           else Some (Returned (s', next_letter letter, Suc n)))
      | Cont (Some (SentBytes _), _) \<Rightarrow> Some Not_defined
      | Cont (None, _) \<Rightarrow> Some No_reply
      | Blocked \<Rightarrow> Some No_reply
      | Exit _ \<Rightarrow> Some Server_gone
      | UB \<Rightarrow> Some Not_defined)"

partial_function (option) mux_consume ::
  "(nat \<Rightarrow> bool) \<Rightarrow> nat \<Rightarrow> int \<Rightarrow> c_char list \<Rightarrow> mux \<Rightarrow> (mux \<times> c_char \<times> nat) tried option" where
  "mux_consume conn n ns buf s =
     (if \<not> conn n then Some (Client_exits 1)
      else case mux_event_step (Ready 5 (consume_request buf) ns) s of
        Cont (Some (SentBytes bs), s') \<Rightarrow>
          (let buf' = recv_reply (Some (SentBytes bs)) (consume_request buf) in
           if uint (buf' ! 0) = BUFFER_EMPTY_ERR then mux_consume conn (Suc n) ns buf' s'
           else Some (Returned (s', buf' ! 1, Suc n)))
      | Cont (Some (SentInt _), _) \<Rightarrow> Some Not_defined
      | Cont (None, _) \<Rightarrow> Some No_reply
      | Blocked \<Rightarrow> Some No_reply
      | Exit _ \<Rightarrow> Some Server_gone
      | UB \<Rightarrow> Some Not_defined)"

section \<open>Invariant\<close>

definition m_count :: "mux \<Rightarrow> nat" where
  "m_count s = nat (m_sems s ! 1)"

definition m_contents :: "mux \<Rightarrow> c_char list" where
  "m_contents s = ring_slice (m_ring s) (m_head s) (m_count s)"

definition mux_inv :: "mux \<Rightarrow> bool" where
  "mux_inv s \<longleftrightarrow> length (m_buf s) = BUF_SIZE \<and>
     m_sems s = [int MUX_ARR_SIZE - int (m_count s), int (m_count s)] \<and>
     ring_ok MUX_ARR_SIZE (m_ring s) (m_head s) (m_tail s) (m_count s)"

lemma m_contents_length [simp]: "length (m_contents s) = m_count s"
  by (simp add: m_contents_def)

lemma m_contents_Nil: "m_contents s = [] \<longleftrightarrow> m_count s = 0"
  by (simp flip: length_0_conv)

lemma mux_count_le: "mux_inv s \<Longrightarrow> m_count s \<le> MUX_ARR_SIZE"
  by (simp add: mux_inv_def ring_ok_def)

lemma mux_invI:
  assumes "m_sems s = [int MUX_ARR_SIZE - int n, int n]" "length (m_buf s) = BUF_SIZE"
    "ring_ok MUX_ARR_SIZE (m_ring s) (m_head s) (m_tail s) n"
  shows "mux_inv s" "m_contents s = ring_slice (m_ring s) (m_head s) n"
  using assms by (auto simp: mux_inv_def m_count_def m_contents_def)

lemma mux_frame:
  "mux_inv (s\<lparr>m_log := l\<rparr>) = mux_inv s" "m_contents (s\<lparr>m_log := l\<rparr>) = m_contents s"
  "mux_inv (s\<lparr>m_watched := w\<rparr>) = mux_inv s" "m_contents (s\<lparr>m_watched := w\<rparr>) = m_contents s"
  "mux_inv (mux_print p s) = mux_inv s" "m_contents (mux_print p s) = m_contents s"
  "m_contents (s\<lparr>m_buf := b\<rparr>) = m_contents s" "m_count (s\<lparr>m_buf := b\<rparr>) = m_count s"
  "m_buf (mux_print p s) = m_buf s" "m_count (mux_print p s) = m_count s"
  by (simp_all add: mux_inv_def m_count_def m_contents_def mux_print_def)

lemma mux_buf_inv: "mux_inv s \<Longrightarrow> length b = BUF_SIZE \<Longrightarrow> mux_inv (s\<lparr>m_buf := b\<rparr>)"
  by (simp add: mux_inv_def m_count_def)

lemma mux_semop_eval:
  assumes "n \<le> MUX_ARR_SIZE"
  shows "semop mux_start_produce [int MUX_ARR_SIZE - int n, int n] =
           (if n = MUX_ARR_SIZE then Fail EAGAIN else Done [int MUX_ARR_SIZE - int n - 1, int n])"
    and "semop mux_start_consume [int MUX_ARR_SIZE - int n, int n] =
           (if n = 0 then Fail EAGAIN else Done [int MUX_ARR_SIZE - int n, int n - 1])"
    and "n < MUX_ARR_SIZE \<Longrightarrow> semop_ignore mux_stop_produce [int MUX_ARR_SIZE - int n - 1, int n] =
           [int MUX_ARR_SIZE - int n - 1, int n + 1]"
    and "0 < n \<Longrightarrow> semop_ignore mux_stop_consume [int MUX_ARR_SIZE - int n, int n - 1] =
           [int MUX_ARR_SIZE - int n + 1, int n - 1]"
  using assms by (auto simp: mux_ops semop_ignore_def semop_eval MUX_ARR_SIZE_def)

lemma mux_P_full:
  assumes "mux_inv s" "m_count s = MUX_ARR_SIZE"
  shows "mux_case_P s = Cont (Some (SentInt BUFFER_FULL_ERR), mux_print BufferFull s)"
proof -
  have "semop mux_start_produce (m_sems s) = Fail EAGAIN"
    using assms mux_semop_eval(1) [of "m_count s"] by (simp add: mux_inv_def)
  then show ?thesis by (simp add: mux_case_P_def)
qed

lemma mux_P_room:
  assumes "mux_inv s" "m_count s < MUX_ARR_SIZE"
  shows "\<exists>s'. mux_case_P s = Cont (Some (SentInt MUX_OK), s') \<and> mux_inv s' \<and>
    m_contents s' = m_contents s @ [m_buf s ! 1] \<and> m_buf s' = m_buf s"
proof -
  let ?n = "m_count s"
  let ?s = "(mux_print (ProducerPut (m_buf s ! 1))
     (s\<lparr>m_ring := (m_ring s)[m_tail s := m_buf s ! 1], m_tail := (m_tail s + 1) mod MUX_ARR_SIZE\<rparr>))
     \<lparr>m_sems := [int MUX_ARR_SIZE - int ?n - 1, int ?n + 1]\<rparr>"
  have sems: "m_sems s = [int MUX_ARR_SIZE - int ?n, int ?n]" and buf: "length (m_buf s) = BUF_SIZE"
    and ring: "ring_ok MUX_ARR_SIZE (m_ring s) (m_head s) (m_tail s) ?n"
    using assms(1) by (simp_all add: mux_inv_def)
  have run: "mux_case_P s = Cont (Some (SentInt MUX_OK), ?s)"
    using assms(2) by (simp add: mux_case_P_def mux_semop_eval sems Let_def)
  have new: "m_sems ?s = [int MUX_ARR_SIZE - int (Suc ?n), int (Suc ?n)]"
    "length (m_buf ?s) = BUF_SIZE"
    "ring_ok MUX_ARR_SIZE (m_ring ?s) (m_head ?s) (m_tail ?s) (Suc ?n)"
    using ring_ok_put(1) [OF ring assms(2)] buf by (simp_all add: mux_print_def)
  have "m_contents ?s = m_contents s @ [m_buf s ! 1]"
    using ring_ok_put(2) [OF ring assms(2)] unfolding mux_invI(2) [OF new]
    by (simp add: mux_print_def m_contents_def)
  moreover have "m_buf ?s = m_buf s" by (simp add: mux_print_def)
  ultimately show ?thesis using run mux_invI(1) [OF new] by blast
qed

lemma mux_C_empty:
  assumes "mux_inv s" "m_count s = 0"
  shows "\<exists>s'. mux_case_C s = Cont (Some (mux_send_buf s'), s') \<and> mux_inv s' \<and> m_contents s' = [] \<and>
    m_buf s' = (m_buf s)[0 := 4, 1 := 0]"
proof -
  have fail: "semop mux_start_consume (m_sems s) = Fail EAGAIN"
    using assms mux_semop_eval(2) [of "m_count s"] by (simp add: mux_inv_def)
  let ?s = "(mux_print BufferEmpty s)\<lparr>m_buf := (m_buf s)[0 := 4, 1 := 0]\<rparr>"
  have "mux_case_C s = Cont (Some (mux_send_buf ?s), ?s)"
    by (simp add: mux_case_C_def fail Let_def BUFFER_EMPTY_ERR_def)
  moreover have "mux_inv ?s"
    using assms(1) by (intro mux_buf_inv) (simp_all add: mux_frame, simp add: mux_inv_def)
  moreover have "m_contents ?s = []" using assms(2) by (simp add: mux_frame m_contents_Nil)
  ultimately show ?thesis by (metis mux.select_convs(5) mux.surjective mux.update_convs(5))
qed

lemma mux_C_some:
  assumes "mux_inv s" "0 < m_count s"
  shows "\<exists>s' c. mux_case_C s = Cont (Some (mux_send_buf s'), s') \<and> mux_inv s' \<and>
    m_contents s = c # m_contents s' \<and> m_buf s' = (m_buf s)[0 := 0, 1 := c]"
proof -
  obtain n where n: "m_count s = Suc n" using assms(2) by (cases "m_count s") auto
  let ?c = "m_ring s ! m_head s"
  let ?s = "(mux_print (ConsumerGot ?c) (s\<lparr>m_head := (m_head s + 1) mod MUX_ARR_SIZE\<rparr>))
     \<lparr>m_sems := [int MUX_ARR_SIZE - int n, int n], m_buf := (m_buf s)[0 := 0, 1 := ?c]\<rparr>"
  have sems: "m_sems s = [int MUX_ARR_SIZE - int (Suc n), int (Suc n)]" and le: "Suc n \<le> MUX_ARR_SIZE"
    and buf: "length (m_buf s) = BUF_SIZE"
    and ring: "ring_ok MUX_ARR_SIZE (m_ring s) (m_head s) (m_tail s) (Suc n)"
    using assms(1) mux_count_le [OF assms(1)] by (simp_all add: mux_inv_def n)
  have run: "mux_case_C s = Cont (Some (mux_send_buf ?s), ?s)"
    using mux_semop_eval(2,4) [OF le] by (simp add: mux_case_C_def sems Let_def MUX_OK_def)
  have new: "m_sems ?s = [int MUX_ARR_SIZE - int n, int n]" "length (m_buf ?s) = BUF_SIZE"
    "ring_ok MUX_ARR_SIZE (m_ring ?s) (m_head ?s) (m_tail ?s) n"
    using ring_ok_get(1) [OF ring] buf by (simp_all add: mux_print_def)
  have "m_contents s = ?c # m_contents ?s"
    using ring_ok_get(2) [OF ring] unfolding mux_invI(2) [OF new]
    by (simp add: mux_print_def m_contents_def n)
  moreover have "m_buf ?s = (m_buf s)[0 := 0, 1 := ?c]" by simp
  ultimately show ?thesis using run mux_invI(1) [OF new] by blast
qed

section \<open>One command\<close>

lemma handle_P:
  assumes "mux_inv s" "m_buf s ! 0 = ch CHR ''P''"
  shows "\<exists>s'. handle_client_command ns s =
      Cont (Some (SentInt (if m_count s = MUX_ARR_SIZE then BUFFER_FULL_ERR else MUX_OK)), s') \<and>
    mux_inv s' \<and>
    m_contents s' = m_contents s @ (if m_count s = MUX_ARR_SIZE then [] else [m_buf s ! 1])"
proof (cases "m_count s = MUX_ARR_SIZE")
  case True
  then show ?thesis
    using mux_P_full [OF assms(1) True] assms by (simp add: handle_client_command_def mux_frame)
next
  case False
  then have "m_count s < MUX_ARR_SIZE" using mux_count_le [OF assms(1)] by simp
  from mux_P_room [OF assms(1) this] False assms(2) show ?thesis
    by (auto simp: handle_client_command_def mux_frame)
qed

lemma handle_C:
  assumes "mux_inv s" "m_buf s ! 0 = ch CHR ''C''"
  shows "\<exists>s'. handle_client_command ns s = Cont (Some (mux_send_buf s'), s') \<and> mux_inv s' \<and>
    m_contents s' = tl (m_contents s) \<and>
    m_buf s' = (if m_count s = 0 then (m_buf s)[0 := 4, 1 := 0]
                else (m_buf s)[0 := 0, 1 := hd (m_contents s)]) \<and>
    m_log s' = m_log s @ [(if m_count s = 0 then 4 else 0, ns)]"
proof -
  have len: "0 < length (m_buf s)" "1 < length (m_buf s)"
    using assms(1) by (simp_all add: mux_inv_def BUF_SIZE_def)
  have neq: "m_buf s ! 0 \<noteq> ch CHR ''P''" using assms(2) by simp
  have send: "mux_send_buf (x\<lparr>m_log := l\<rparr>) = mux_send_buf x" for x l
    by (simp add: mux_send_buf_def)
  have log: "m_log s' = m_log s" if "mux_case_C s = Cont (r, s')" for r s'
    using that by (auto simp: mux_case_C_def mux_print_def Let_def split: semop_result.splits if_splits)
  show ?thesis
  proof (cases "m_count s = 0")
    case True
    then have "m_contents s = []" by (simp add: m_contents_Nil)
    with mux_C_empty [OF assms(1) True] True len log neq assms(2) show ?thesis
      by (fastforce simp: handle_client_command_def mux_frame send)
  next
    case False
    then have "0 < m_count s" by simp
    from mux_C_some [OF assms(1) this] False len log neq assms(2) show ?thesis
      by (fastforce simp: handle_client_command_def mux_frame send)
  qed
qed

lemma handle_other:
  assumes "mux_inv s" "m_buf s ! 0 \<noteq> ch CHR ''P''" "m_buf s ! 0 \<noteq> ch CHR ''C''"
  shows "\<exists>s'. handle_client_command ns s = Cont (None, s') \<and> mux_inv s' \<and> m_contents s' = m_contents s"
  using assms by (simp add: handle_client_command_def mux_frame)

lemma recv_into_full: "length bs = length buf \<Longrightarrow> recv_into bs buf = bs"
  by (simp add: recv_into_def)

text \<open>A request of the client, as the server's buffer holds it after \<open>recv\<close>.\<close>

lemma mux_step_produce:
  assumes "mux_inv s" "length buf = BUF_SIZE"
  shows "\<exists>s'. mux_event_step (Ready fd (produce_request c buf) ns) s =
      Cont (Some (SentInt (if m_count s = MUX_ARR_SIZE then BUFFER_FULL_ERR else MUX_OK)), s') \<and>
    mux_inv s' \<and> m_contents s' = m_contents s @ (if m_count s = MUX_ARR_SIZE then [] else [c])"
proof -
  let ?s = "s\<lparr>m_buf := recv_into (produce_request c buf) (m_buf s)\<rparr>"
  have len: "length (m_buf s) = BUF_SIZE" using assms(1) by (simp add: mux_inv_def)
  then have buf: "m_buf ?s = produce_request c buf"
    using assms(2) by (simp add: recv_into_full produce_request_def)
  have two: "buf \<noteq> []" "Suc 0 < length buf" using assms(2) by (auto simp: BUF_SIZE_def)
  then have "m_buf ?s ! 0 = ch CHR ''P''" "m_buf ?s ! 1 = c"
    unfolding buf by (simp_all add: produce_request_def nth_list_update)
  moreover have "mux_inv ?s" using assms(1) len by (simp add: mux_buf_inv)
  moreover have "produce_request c buf \<noteq> []" using two by (auto simp: produce_request_def)
  ultimately show ?thesis
    using handle_P [of ?s ns] by (cases "m_count s = MUX_ARR_SIZE") (simp_all add: mux_frame)
qed

lemma recv_into_head:
  assumes "sizeof_pointer \<le> length xs"
  shows "recv_into (take sizeof_pointer (xs[0 := a, Suc 0 := b])) (xs[0 := c])
    = xs[0 := a, Suc 0 := b]"
  using assms
  by (intro nth_equalityI)
    (auto simp: recv_into_def sizeof_pointer_def nth_append nth_list_update min_def)

lemma mux_step_consume:
  assumes "mux_inv s" "length buf = BUF_SIZE"
  shows "\<exists>r bs s'. mux_event_step (Ready fd (consume_request buf) ns) s = Cont (r, s') \<and> r = Some (SentBytes bs) \<and> mux_inv s' \<and>
    m_contents s' = tl (m_contents s) \<and>
    recv_reply r (consume_request buf)
      = (if m_count s = 0 then buf[0 := 4, 1 := 0] else buf[0 := 0, 1 := hd (m_contents s)])"
proof -
  let ?s = "s\<lparr>m_buf := recv_into (consume_request buf) (m_buf s)\<rparr>"
  have len: "length (m_buf s) = BUF_SIZE" using assms(1) by (simp add: mux_inv_def)
  then have buf: "m_buf ?s = consume_request buf"
    using assms(2) by (simp add: recv_into_full consume_request_def)
  have two: "buf \<noteq> []" "sizeof_pointer \<le> length buf"
    using assms(2) by (auto simp: BUF_SIZE_def sizeof_pointer_def)
  then have "m_buf ?s ! 0 = ch CHR ''C''"
    unfolding buf by (simp add: consume_request_def nth_list_update)
  moreover have "mux_inv ?s" using assms(1) len by (simp add: mux_buf_inv)
  ultimately obtain s' where s': "handle_client_command ns ?s = Cont (Some (mux_send_buf s'), s')"
    "mux_inv s'" "m_contents s' = tl (m_contents s)"
    "m_buf s' = (if m_count s = 0 then (consume_request buf)[0 := 4, 1 := 0]
       else (consume_request buf)[0 := 0, 1 := hd (m_contents s)])"
    using handle_C [of ?s ns] unfolding buf by (auto simp: mux_frame)
  have "recv_reply (Some (mux_send_buf s')) (consume_request buf) = m_buf s'"
    using two s'(4) by (auto simp: recv_reply_def mux_send_buf_def consume_request_def
        recv_into_head [where c = "ch CHR ''C''", simplified])
  then show ?thesis
    using s' two by (auto simp: consume_request_def mux_send_buf_def)
qed

section \<open>The server as a bounded FIFO service\<close>

text \<open>One attempt of the client, with the request in a zeroed buffer.\<close>

definition mux_put :: "c_char \<Rightarrow> mux \<Rightarrow> bool \<times> mux" where
  "mux_put c s =
     (case mux_event_step (Ready 5 (produce_request c (replicate BUF_SIZE 0)) 0) s of
        Cont (Some (SentInt st), s') \<Rightarrow> (st = MUX_OK, s') | _ \<Rightarrow> (False, s))"

definition mux_get :: "mux \<Rightarrow> c_char option \<times> mux" where
  "mux_get s =
     (let req = consume_request (replicate BUF_SIZE 0) in
      case mux_event_step (Ready 5 req 0) s of
        Cont (r, s') \<Rightarrow>
          (if uint (recv_reply r req ! 0) = BUFFER_EMPTY_ERR then None
           else Some (recv_reply r req ! 1), s')
      | _ \<Rightarrow> (None, s))"

lemma mux_put_law:
  assumes "mux_inv s"
  shows "\<exists>s'. mux_put x s = (m_count s \<noteq> MUX_ARR_SIZE, s') \<and> mux_inv s' \<and>
    m_contents s' = m_contents s @ (if m_count s = MUX_ARR_SIZE then [] else [x])"
proof -
  obtain s' where s': "mux_event_step (Ready 5 (produce_request x (replicate BUF_SIZE 0)) 0) s =
      Cont (Some (SentInt (if m_count s = MUX_ARR_SIZE then BUFFER_FULL_ERR else MUX_OK)), s')"
    "mux_inv s'" "m_contents s' = m_contents s @ (if m_count s = MUX_ARR_SIZE then [] else [x])"
    using mux_step_produce [OF assms, of "replicate BUF_SIZE 0" 5 x 0] by (auto simp del: mux_event_step.simps)
  show ?thesis unfolding mux_put_def s'(1) using s'(2,3) by (simp add: MUX_OK_def BUFFER_FULL_ERR_def)
qed

lemma mux_get_law:
  assumes "mux_inv s"
  shows "\<exists>s'. mux_get s = (if m_count s = 0 then None else Some (hd (m_contents s)), s') \<and> mux_inv s' \<and>
    m_contents s' = tl (m_contents s)"
proof -
  let ?req = "consume_request (replicate BUF_SIZE 0)"
  obtain r s' where s': "mux_event_step (Ready 5 ?req 0) s = Cont (r, s')" "mux_inv s'"
    "m_contents s' = tl (m_contents s)"
    and rep: "recv_reply r ?req = (if m_count s = 0 then (replicate BUF_SIZE 0)[0 := 4, 1 := 0]
        else (replicate BUF_SIZE 0)[0 := 0, 1 := hd (m_contents s)])"
    using mux_step_consume [OF assms, of "replicate BUF_SIZE 0" 5 0] by (auto simp del: mux_event_step.simps)
  have "mux_get s = (if uint (recv_reply r ?req ! 0) = BUFFER_EMPTY_ERR then None
      else Some (recv_reply r ?req ! 1), s')"
    unfolding mux_get_def Let_def s'(1) by simp
  also have "\<dots> = (if m_count s = 0 then None else Some (hd (m_contents s)), s')"
    unfolding rep by (simp add: BUFFER_EMPTY_ERR_def BUF_SIZE_def)
  finally show ?thesis using s' by blast
qed

interpretation mx: fifo_service mux_put mux_get m_contents MUX_ARR_SIZE mux_inv
proof unfold_locales
  fix s x b s'
  assume inv: "mux_inv s"
  show "length (m_contents s) \<le> MUX_ARR_SIZE" using mux_count_le [OF inv] by simp
  assume "mux_put x s = (b, s')"
  then show "mux_inv s' \<and> b = (length (m_contents s) < MUX_ARR_SIZE) \<and>
      m_contents s' = m_contents s @ (if b then [x] else [])"
    using mux_put_law [OF inv, of x] mux_count_le [OF inv] by auto
next
  fix s r s'
  assume inv: "mux_inv s" and get: "mux_get s = (r, s')"
  then show "mux_inv s' \<and> (case r of None \<Rightarrow> m_contents s = [] \<and> m_contents s' = []
      | Some x \<Rightarrow> m_contents s = x # m_contents s')"
    using mux_get_law [OF inv] m_contents_Nil [of s] by (cases "m_count s = 0") auto
qed

lemma mux_boot_inv: "length buf0 = BUF_SIZE \<Longrightarrow> mux_inv (mux_boot buf0)"
  by (simp add: mux_inv_def mux_boot_def m_count_def ring_ok_def MUX_ARR_SIZE_def)

lemma mux_boot_contents [simp]: "m_contents (mux_boot buf0) = []"
  by (simp add: m_contents_Nil m_count_def mux_boot_def)

text \<open>
  What ends the loop, whatever the state: \<open>epoll_wait\<close> fails, \<open>epoll_ctl\<close> refuses a new descriptor, or a request that is answered comes over a
  connection that is then broken.
\<close>

definition refused :: "mux_event \<Rightarrow> bool" where
  "refused e = (case e of Listen fd ctl_ok \<Rightarrow> fd \<noteq> -1 \<and> \<not> ctl_ok | Ready _ _ _ \<Rightarrow> False)"

definition asks :: "mux_event \<Rightarrow> bool" where
  "asks e = (case e of Listen _ _ \<Rightarrow> False | Ready _ bytes _ \<Rightarrow> bytes \<noteq> [] \<and> hd bytes \<in> {ch CHR ''P'', ch CHR ''C''})"

definition event_stop :: "mux_event \<times> bool \<Rightarrow> mux_stop option" where
  "event_stop x = (case x of (e, broken) \<Rightarrow>
     if refused e then Some (Stop_exit EXIT_FAILURE) else if asks e \<and> broken then Some Stop_sigpipe else None)"

fun events_stop :: "(mux_event \<times> bool) list \<Rightarrow> mux_stop option" where
  "events_stop [] = None"
| "events_stop (x # xs) = (case event_stop x of None \<Rightarrow> events_stop xs | Some y \<Rightarrow> Some y)"

fun loop_stop :: "(mux_event \<times> bool) list option list \<Rightarrow> mux_stop option" where
  "loop_stop [] = None"
| "loop_stop (None # ws) = Some (Stop_exit EXIT_FAILURE)"
| "loop_stop (Some es # ws) = (case events_stop es of None \<Rightarrow> loop_stop ws | Some y \<Rightarrow> Some y)"

lemma mux_event_inv:
  assumes "mux_inv s" "\<not> refused e"
  shows "\<exists>r s'. mux_event_step e s = Cont (r, s') \<and> mux_inv s' \<and> (r \<noteq> None \<longleftrightarrow> asks e)"
proof (cases e)
  case (Listen connfd ctl_ok)
  then show ?thesis using assms by (auto simp: mux_frame refused_def asks_def)
next
  case (Ready fd bytes ns)
  let ?s = "s\<lparr>m_buf := recv_into bytes (m_buf s)\<rparr>"
  have inv: "mux_inv ?s" using assms(1) by (simp add: mux_buf_inv mux_inv_def [of s])
  have "m_buf s \<noteq> []" using assms(1) by (auto simp: mux_inv_def BUF_SIZE_def)
  then have hd: "m_buf ?s ! 0 = hd bytes" if "bytes \<noteq> []"
    using that by (cases bytes; cases "m_buf s") (simp_all add: recv_into_def)
  show ?thesis
    using handle_P [OF inv, of ns] handle_C [OF inv, of ns] handle_other [OF inv, of ns] hd assms(1)
    unfolding Ready mux_event_step.simps asks_def by (cases "bytes = []") (auto simp: mux_frame)
qed

lemma refused_exits: "refused e \<Longrightarrow> mux_event_step e s = Exit EXIT_FAILURE"
  by (auto simp: refused_def split: mux_event.splits)

definition answered :: "(mux_event \<times> bool) list \<Rightarrow> mux_reply option list \<Rightarrow> bool" where
  "answered es rs \<longleftrightarrow> map (\<lambda>r. r \<noteq> None) rs = map (\<lambda>x. asks (fst x)) es"

lemma mux_events_inv:
  "mux_inv s \<Longrightarrow> (case events_stop es of Some x \<Rightarrow> mux_events es s = Inl x
     | None \<Rightarrow> \<exists>rs t. mux_events es s = Inr (rs, t) \<and> answered es rs \<and> mux_inv t)"
proof (induction es arbitrary: s)
  case (Cons x es)
  obtain e broken where x: "x = (e, broken)" by fastforce
  show ?case
  proof (cases "refused e")
    case True
    then show ?thesis by (simp add: x refused_exits event_stop_def)
  next
    case False
    then obtain q s' where s': "mux_event_step e s = Cont (q, s')" "mux_inv s'" "q \<noteq> None \<longleftrightarrow> asks e"
      using mux_event_inv [OF Cons.prems] by blast
    show ?thesis
    proof (cases "asks e \<and> broken")
      case True
      then show ?thesis using s' False by (simp add: x event_stop_def)
    next
      case nosend: False
      then have "event_stop x = None" "\<not> (q \<noteq> None \<and> broken)" using False s'(3) by (simp_all add: x event_stop_def)
      then show ?thesis using Cons.IH [OF s'(2)] s' by (auto simp: x answered_def split: option.splits)
    qed
  qed
qed (simp add: answered_def)

lemma mux_loop_inv:
  "mux_inv s \<Longrightarrow> (case loop_stop ws of Some x \<Rightarrow> mux_loop ws s = Inl x
     | None \<Rightarrow> \<exists>rs t. mux_loop ws s = Inr (rs, t) \<and> answered (concat (map the ws)) rs \<and> mux_inv t)"
proof (induction ws arbitrary: s rule: loop_stop.induct)
  case (3 es ws)
  show ?case
  proof (cases "events_stop es")
    case None
    then obtain rs t where t: "mux_events es s = Inr (rs, t)" "answered es rs" "mux_inv t"
      using mux_events_inv [OF 3(2), of es] by auto
    then show ?thesis using 3(1) [OF None t(3)] None by (auto simp: answered_def split: option.splits)
  next
    case (Some y)
    then show ?thesis using mux_events_inv [OF 3(2), of es] by simp
  qed
qed (simp_all add: answered_def)

lemma loop_stop_kinds: "loop_stop ws = Some x \<Longrightarrow> x = Stop_exit 1 \<or> x = Stop_sigpipe"
proof (induction ws rule: loop_stop.induct)
  case (3 es ws)
  have "events_stop es = Some x \<Longrightarrow> x = Stop_exit 1 \<or> x = Stop_sigpipe"
    by (induction es) (auto simp: event_stop_def split: option.splits if_splits)
  then show ?case using 3 by (auto split: option.splits)
qed simp_all

lemma mux_inv_index: "mux_inv s \<Longrightarrow> m_head s < length (m_ring s) \<and> m_tail s < length (m_ring s) \<and> length (m_contents s) \<le> MUX_ARR_SIZE"
  using ring_ok_bounds [of MUX_ARR_SIZE "m_ring s" "m_head s" "m_tail s" "m_count s"] mux_count_le [of s]
  by (simp add: mux_inv_def)

section \<open>The retry loops of the client\<close>

lemma mux_produce_full_diverges:
  assumes "mux_produce conn n ns buf l s = Some y"
  shows "mux_inv s \<and> length buf = BUF_SIZE \<and> (\<forall>n. conn n) \<longrightarrow> m_count s \<noteq> MUX_ARR_SIZE"
proof (rule mux_produce.raw_induct [OF _ assms], goal_cases)
  case (1 produce conn n ns buf l s y)
  show ?case
  proof (intro impI notI)
    assume inv: "mux_inv s \<and> length buf = BUF_SIZE \<and> (\<forall>n. conn n)" and full: "m_count s = MUX_ARR_SIZE"
    then obtain s' where s': "mux_event_step (Ready 5 (produce_request l buf) ns) s =
        Cont (Some (SentInt BUFFER_FULL_ERR), s')" "mux_inv s'" "m_contents s' = m_contents s"
      using mux_step_produce [of s buf 5 l ns] by (auto simp del: mux_event_step.simps)
    from 1(2) have "produce conn (Suc n) ns buf l s' = Some y" using inv unfolding s'(1) by simp
    moreover have "m_count s' = m_count s" using s'(3) m_contents_length by metis
    ultimately show False using 1(1) [of conn "Suc n" ns buf l s' y] s'(2) inv full by simp
  qed
qed

lemma mux_consume_empty_diverges:
  assumes "mux_consume conn n ns buf s = Some y"
  shows "mux_inv s \<and> length buf = BUF_SIZE \<and> (\<forall>n. conn n) \<longrightarrow> m_count s \<noteq> 0"
proof (rule mux_consume.raw_induct [OF _ assms], goal_cases)
  case (1 consume conn n ns buf s y)
  show ?case
  proof (intro impI notI)
    assume inv: "mux_inv s \<and> length buf = BUF_SIZE \<and> (\<forall>n. conn n)" and empty: "m_count s = 0"
    let ?buf = "buf[0 := 4, 1 := 0]"
    obtain bs s' where s': "mux_event_step (Ready 5 (consume_request buf) ns) s = Cont (Some (SentBytes bs), s')" "mux_inv s'"
      "m_contents s' = tl (m_contents s)" "recv_reply (Some (SentBytes bs)) (consume_request buf) = ?buf"
      using mux_step_consume [of s buf 5 ns] inv empty by (auto simp del: mux_event_step.simps)
    have "?buf ! 0 = 4" using inv by (simp add: BUF_SIZE_def)
    then have "consume conn (Suc n) ns ?buf s' = Some y"
      using 1(2) inv unfolding s'(1) by (simp add: s'(4) Let_def BUFFER_EMPTY_ERR_def)
    moreover have "m_count s' = 0"
      using s'(3) empty m_contents_length [of s'] m_contents_length [of s] by simp
    moreover have "length ?buf = BUF_SIZE" using inv by simp
    ultimately show False using 1(1) s'(2) inv by blast
  qed
qed

section \<open>Properties\<close>

text \<open>
  (C6) Whatever requests arrive, the letters that were answered \<open>OK\<close> to producers are, in this
  order, the letters handed to consumers followed by the letters still in the ring, and the ring
  never holds more than 26 of them.
\<close>

theorem mux_fifo:
  assumes "length buf0 = BUF_SIZE" "fifo_run mux_put mux_get ops (mux_boot buf0) = (ps, gs, t)"
  shows "ps = gs @ m_contents t \<and> length (m_contents t) \<le> 26"
  using mx.fifo_balance [OF mux_boot_inv [OF assms(1)] mux_boot_contents assms(2)]
  by (simp add: MUX_ARR_SIZE_def)

theorem mux_fifo_witness:
  "case fifo_run mux_put mux_get [Get, Put 97, Put 98, Get] (mux_boot (replicate 64 0)) of
     (ps, gs, t) \<Rightarrow> ps = gs @ m_contents t \<and> length (m_contents t) \<le> 26 \<and> gs = [97]"
proof -
  have run: "fst (snd (fifo_run mux_put mux_get [Get, Put 97, Put 98, Get] (mux_boot (replicate 64 0)))) = [97]"
    by code_simp
  show ?thesis
    using mux_fifo [of "replicate 64 0" "[Get, Put 97, Put 98, Get]"] run
    by (auto simp: BUF_SIZE_def split: prod.splits simp del: fifo_run.simps)
qed

text \<open>
  (C35) How the event loop ends and what it does until then, for any results of \<open>epoll_wait\<close> and any events.  It stops exactly at the first of:
  a failing \<open>epoll_wait\<close> or a new connection that \<open>epoll_ctl\<close> refuses, with exit status 1; a \<open>P\<close> or \<open>C\<close> request whose connection
  is broken when the reply is sent, killed by SIGPIPE.  It stops in no other way, never blocks in a semaphore operation
  and never leaves its arrays.  Without such an event each \<open>P\<close> and \<open>C\<close> request is answered, no other event is, and the ring
  indices are inside the ring.
\<close>

theorem mux_loop_total:
  assumes "length buf0 = BUF_SIZE"
  shows "(case loop_stop ws of
      Some x \<Rightarrow> mux_loop ws (mux_boot buf0) = Inl x \<and> (x = Stop_exit 1 \<or> x = Stop_sigpipe)
    | None \<Rightarrow> \<exists>rs t. mux_loop ws (mux_boot buf0) = Inr (rs, t) \<and>
        map (\<lambda>r. r \<noteq> None) rs = map (\<lambda>x. asks (fst x)) (concat (map the ws)) \<and>
        m_head t < length (m_ring t) \<and> m_tail t < length (m_ring t) \<and> length (m_ring t) = 26)"
proof -
  have "length (m_ring t) = 26" if "mux_inv t" for t
    using that by (simp add: mux_inv_def ring_ok_def MUX_ARR_SIZE_def)
  then show ?thesis
    using mux_loop_inv [OF mux_boot_inv [OF assms], of ws] loop_stop_kinds [of ws] mux_inv_index
    by (fastforce simp: answered_def split: option.splits)
qed

theorem mux_loop_total_witness:
  "(\<exists>rs t. mux_loop [Some [(Listen 5 True, False)], Some [(Ready 5 [ch CHR ''P'', 97] 3, False), (Ready 6 [] 0, True)]] (mux_boot (replicate 64 0)) =
     Inr (rs, t) \<and> map (\<lambda>r. r \<noteq> None) rs = [False, True, False]) \<and>
   mux_loop [Some [(Ready 5 [ch CHR ''P'', 97] 3, True)], None] (mux_boot (replicate 64 0)) = Inl Stop_sigpipe \<and>
   mux_loop [Some [], None] (mux_boot (replicate 64 0)) = Inl (Stop_exit 1)"
proof -
  have len: "length (replicate 64 0) = BUF_SIZE" by (simp add: BUF_SIZE_def)
  note facts = refused_def asks_def event_stop_def
  show ?thesis
    using mux_loop_total [OF len, of "[Some [(Listen 5 True, False)], Some [(Ready 5 [ch CHR ''P'', 97] 3, False), (Ready 6 [] 0, True)]]"]
      mux_loop_total [OF len, of "[Some [(Ready 5 [ch CHR ''P'', 97] 3, True)], None]"] mux_loop_total [OF len, of "[Some [], None]"]
    by (auto simp: facts simp del: mux_loop.simps)
qed

text \<open>
  The retry loop of \<open>produce\<close>, against a server nobody else talks to and whose connections are made, goes on for ever exactly when
  the ring is full; with room the letter is stored last and the next letter follows it in the
  alphabet.
\<close>

lemma mux_produce_returns:
  assumes "mux_inv s" "length buf = BUF_SIZE" "\<forall>n. conn n"
  shows "(mux_produce conn n ns buf letter s = None \<longleftrightarrow> length (m_contents s) = MUX_ARR_SIZE) \<and>
    (length (m_contents s) < MUX_ARR_SIZE \<longrightarrow>
       (\<exists>s'. mux_produce conn n ns buf letter s = Some (Returned (s', next_letter letter, Suc n)) \<and> mux_inv s' \<and>
          m_contents s' = m_contents s @ [letter]))"
proof (cases "m_count s = MUX_ARR_SIZE")
  case True
  then have "mux_produce conn n ns buf letter s = None"
    using mux_produce_full_diverges [of conn n ns buf letter s] assms by (cases "mux_produce conn n ns buf letter s") blast+
  then show ?thesis using True by simp
next
  case False
  then obtain s' where s': "mux_event_step (Ready 5 (produce_request letter buf) ns) s =
      Cont (Some (SentInt MUX_OK), s')" "mux_inv s'" "m_contents s' = m_contents s @ [letter]"
    using mux_step_produce [OF assms(1,2), of 5 letter ns] by (auto simp del: mux_event_step.simps)
  have "mux_produce conn n ns buf letter s = Some (Returned (s', next_letter letter, Suc n))"
    using assms(3) by (subst mux_produce.simps, unfold s'(1)) (simp add: MUX_OK_def BUFFER_FULL_ERR_def)
  then show ?thesis using s' False by simp
qed

text \<open>
  The retry loop of \<open>consume\<close> goes on for ever exactly when the ring is empty; otherwise it returns with the
  oldest letter, although only 8 bytes of the reply are sent.
\<close>

lemma mux_consume_returns:
  assumes "mux_inv s" "length buf = BUF_SIZE" "\<forall>n. conn n"
  shows "(mux_consume conn n ns buf s = None \<longleftrightarrow> m_contents s = []) \<and>
    (m_contents s \<noteq> [] \<longrightarrow> (\<exists>s'. mux_consume conn n ns buf s = Some (Returned (s', hd (m_contents s), Suc n)) \<and>
       mux_inv s' \<and> m_contents s' = tl (m_contents s)))"
proof (cases "m_count s = 0")
  case True
  then have "mux_consume conn n ns buf s = None"
    using mux_consume_empty_diverges [of conn n ns buf s] assms by (cases "mux_consume conn n ns buf s") blast+
  then show ?thesis using True by (simp add: m_contents_Nil)
next
  case False
  then obtain bs s' where s': "mux_event_step (Ready 5 (consume_request buf) ns) s = Cont (Some (SentBytes bs), s')" "mux_inv s'"
    "m_contents s' = tl (m_contents s)" "recv_reply (Some (SentBytes bs)) (consume_request buf) = buf[0 := 0, 1 := hd (m_contents s)]"
    using mux_step_consume [OF assms(1,2), of 5 ns] by (auto simp del: mux_event_step.simps)
  have "Suc 0 < length buf" "buf \<noteq> []" using assms(2) by (auto simp: BUF_SIZE_def)
  then have "mux_consume conn n ns buf s = Some (Returned (s', hd (m_contents s), Suc n))"
    using assms(3) by (subst mux_consume.simps, unfold s'(1)) (simp add: s'(4) Let_def BUFFER_EMPTY_ERR_def)
  then show ?thesis using s' False by (simp add: m_contents_Nil)
qed

text \<open>A connection that is not made ends the client.\<close>

lemma mux_client_exits:
  "\<not> conn n \<Longrightarrow> mux_produce conn n ns buf l s = Some (Client_exits 1) \<and> mux_consume conn n ns buf s = Some (Client_exits 1)"
  by (simp add: mux_produce.simps mux_consume.simps)

text \<open>
  The time log labels a request with \<open>buf[0]\<close> after the switch, when the reply to a
  consumer has overwritten it: a consume request is logged with byte 0 or 4, never with \<open>'C'\<close>.
\<close>

lemma mux_consume_log_label:
  assumes "mux_inv s" "m_buf s ! 0 = ch CHR ''C''" "handle_client_command ns s = Cont (r, s')"
  shows "m_log s' = m_log s @ [(if m_contents s = [] then 4 else 0, ns)]"
  using handle_C [OF assms(1,2), of ns] assms(3) by (auto simp: m_contents_Nil)

lemma mux_consume_log_label_witness:
  "\<exists>r s'. handle_client_command 9 (mux_boot (ch CHR ''C'' # replicate 63 0)) = Cont (r, s') \<and> m_log s' = [(4, 9)]"
proof -
  let ?s = "mux_boot (ch CHR ''C'' # replicate 63 0)"
  have inv: "mux_inv ?s" by (rule mux_boot_inv) (simp add: BUF_SIZE_def)
  obtain r s' where run: "handle_client_command 9 ?s = Cont (r, s')"
    using handle_C [OF inv, of 9] by (auto simp: mux_boot_def)
  moreover have "m_log ?s = []" "m_buf ?s ! 0 = ch CHR ''C''" by (simp_all add: mux_boot_def)
  ultimately show ?thesis using mux_consume_log_label [OF inv _ run] by simp
qed

end
