(* ===== verification/RW_Lock.thy ===== *)
theory RW_Lock
  imports SysV_Sem
begin

text \<open>
  Readers and writers. The specification is a table of phases in which a writer is alone; the
  locale \<open>rw_lock\<close> is what a program's four \<open>semop\<close> arrays have to satisfy on its semaphore set
  so that they implement it. \<open>Letters_Server\<close> (\<open>lab_sockets/lab_03/mt/server.c\<close>) and
  \<open>Reader_Writer\<close> (\<open>sem_05/lab_03/reader-writer/main.c\<close>) interpret it.
\<close>

section \<open>Specification\<close>

datatype rw_phase = RwOut | Reading | Writing

abbreviation readers :: "rw_phase list \<Rightarrow> int" where
  "readers phs \<equiv> cnt (\<lambda>p. p = Reading) phs"

abbreviation writers :: "rw_phase list \<Rightarrow> int" where
  "writers phs \<equiv> cnt (\<lambda>p. p = Writing) phs"

definition rw_excl :: "rw_phase list \<Rightarrow> bool" where
  "rw_excl phs \<longleftrightarrow> writers phs = 0 \<or> writers phs = 1 \<and> readers phs = 0"

inductive rw_spec_step :: "rw_phase list \<Rightarrow> rw_phase list \<Rightarrow> bool" where
  begin_read: "i < length phs \<Longrightarrow> phs ! i = RwOut \<Longrightarrow> writers phs = 0 \<Longrightarrow>
    rw_spec_step phs (phs[i := Reading])"
| end_read: "i < length phs \<Longrightarrow> phs ! i = Reading \<Longrightarrow> rw_spec_step phs (phs[i := RwOut])"
| begin_write: "i < length phs \<Longrightarrow> phs ! i = RwOut \<Longrightarrow> writers phs = 0 \<Longrightarrow> readers phs = 0 \<Longrightarrow>
    rw_spec_step phs (phs[i := Writing])"
| end_write: "i < length phs \<Longrightarrow> phs ! i = Writing \<Longrightarrow> rw_spec_step phs (phs[i := RwOut])"
| spawn: "rw_spec_step phs (phs @ [RwOut])"

definition rw_spec_init :: "rw_phase list \<Rightarrow> bool" where
  "rw_spec_init phs \<longleftrightarrow> (\<forall>p \<in> set phs. p = RwOut)"

lemma rw_spec_excl: "rw_spec_step phs phs' \<Longrightarrow> rw_excl phs \<Longrightarrow> rw_excl phs'"
proof (induction rule: rw_spec_step.induct)
  case (end_read i phs)
  then have "1 \<le> readers phs" by (auto intro: cnt_ge_1)
  then show ?case using end_read by (auto simp: rw_excl_def cnt_update)
next
  case (end_write i phs)
  then have "1 \<le> writers phs" by (auto intro: cnt_ge_1)
  then show ?case using end_write by (auto simp: rw_excl_def cnt_update)
qed (auto simp: rw_excl_def cnt_update)

interpretation rw_spec: invariant_system rw_spec_init rw_spec_step rw_excl
proof unfold_locales
  fix phs
  assume "rw_spec_init phs"
  then have "writers phs = 0" unfolding rw_spec_init_def cnt_0_iff by fastforce
  then show "rw_excl phs" by (simp add: rw_excl_def)
qed (auto intro: rw_spec_excl)

text \<open>A writer is alone: no other entry of the table is inside.\<close>

lemma rw_excl_writer_alone:
  assumes "rw_excl phs" "i < length phs" "phs ! i = Writing" "j < length phs" "j \<noteq> i"
  shows "phs ! j = RwOut"
proof -
  have one: "1 \<le> writers phs" using assms(2,3) by (auto intro: cnt_ge_1)
  then have "phs ! j \<noteq> Reading"
    using assms cnt_ge_1 [of j phs "\<lambda>p. p = Reading"] by (auto simp: rw_excl_def)
  moreover have "phs ! j \<noteq> Writing"
    using assms one cnt_ge_2 [of i phs j "\<lambda>p. p = Writing"] by (auto simp: rw_excl_def)
  ultimately show ?thesis by (cases "phs ! j") auto
qed

lemma no_writer: "writers phs = 0 \<Longrightarrow> i < length phs \<Longrightarrow> phs ! i \<noteq> Writing"
  by (auto simp: cnt_0_iff)

lemma no_reader: "readers phs = 0 \<Longrightarrow> i < length phs \<Longrightarrow> phs ! i \<noteq> Reading"
  by (auto simp: cnt_0_iff)

section \<open>The implementation contract\<close>

text \<open>\<open>enc r w\<close> is the value of the semaphore set with \<open>r\<close> readers and \<open>w\<close> writers inside.\<close>

definition rw_coupled :: "(int \<Rightarrow> int \<Rightarrow> semset) \<Rightarrow> semset \<Rightarrow> rw_phase list \<Rightarrow> bool" where
  "rw_coupled enc vs phs \<longleftrightarrow>
     vs = enc (readers phs) (writers phs) \<and> rw_excl phs \<and> readers phs \<le> SEMVMX"

locale rw_lock =
  fixes start_rd stop_rd start_wr stop_wr :: "sembuf list" and enc :: "int \<Rightarrow> int \<Rightarrow> semset"
  assumes start_rd_law: "0 \<le> r \<Longrightarrow> w = 0 \<or> w = 1 \<Longrightarrow> semop start_rd (enc r w) =
      (if w = 1 then Block else if SEMVMX \<le> r then Fail ERANGE else Done (enc (r + 1) w))"
    and stop_rd_law: "1 \<le> r \<Longrightarrow> r \<le> SEMVMX \<Longrightarrow> w = 0 \<or> w = 1 \<Longrightarrow>
      semop stop_rd (enc r w) = Done (enc (r - 1) w)"
    and start_wr_law: "0 \<le> r \<Longrightarrow> w = 0 \<or> w = 1 \<Longrightarrow> semop start_wr (enc r w) =
      (if r = 0 \<and> w = 0 then Done (enc 0 1) else Block)"
    and stop_wr_law: "semop stop_wr (enc 0 1) = Done (enc 0 0)"
begin

lemma coupled_cases:
  assumes "rw_coupled enc vs phs"
  shows "writers phs = 0 \<or> writers phs = 1 \<and> readers phs = 0" "vs = enc (readers phs) (writers phs)"
    "readers phs \<le> SEMVMX"
  using assms by (auto simp: rw_coupled_def rw_excl_def)

lemma start_rd_done:
  assumes "rw_coupled enc vs phs" "semop start_rd vs = Done vs'" "i < length phs" "phs ! i = RwOut"
  shows "writers phs = 0" "rw_coupled enc vs' (phs[i := Reading])"
proof -
  have w: "writers phs = 0 \<or> writers phs = 1" using coupled_cases(1) [OF assms(1)] by auto
  have run: "semop start_rd (enc (readers phs) (writers phs)) = Done vs'"
    using assms(2) coupled_cases(2) [OF assms(1)] by simp
  then show "writers phs = 0"
    using start_rd_law [OF cnt_nonneg [of "\<lambda>p. p = Reading" phs] w] w by auto
  then show "rw_coupled enc vs' (phs[i := Reading])"
    using run start_rd_law [OF cnt_nonneg [of "\<lambda>p. p = Reading" phs] w] assms(3,4)
    by (auto simp: rw_coupled_def rw_excl_def cnt_update split: if_splits)
qed

lemma start_wr_done:
  assumes "rw_coupled enc vs phs" "semop start_wr vs = Done vs'" "i < length phs" "phs ! i = RwOut"
  shows "writers phs = 0" "readers phs = 0" "rw_coupled enc vs' (phs[i := Writing])"
proof -
  have w: "writers phs = 0 \<or> writers phs = 1" using coupled_cases(1) [OF assms(1)] by auto
  have run: "semop start_wr (enc (readers phs) (writers phs)) = Done vs'"
    using assms(2) coupled_cases(2) [OF assms(1)] by simp
  then show *: "writers phs = 0" "readers phs = 0"
    using start_wr_law [OF cnt_nonneg [of "\<lambda>p. p = Reading" phs] w] by (auto split: if_splits)
  then show "rw_coupled enc vs' (phs[i := Writing])"
    using run start_wr_law [OF cnt_nonneg [of "\<lambda>p. p = Reading" phs] w] assms(3,4)
    by (auto simp: rw_coupled_def rw_excl_def cnt_update SEMVMX_def)
qed

text \<open>
  The stop arrays always succeed for a thread inside; a start array fails only when the reader
  count reaches the kernel's limit, which needs more than \<open>SEMVMX\<close> threads.
\<close>

lemma readers_le: "readers phs \<le> int (length phs)"
  by (simp add: cnt_def)

lemma stop_rd_done:
  assumes "rw_coupled enc vs phs" "i < length phs" "phs ! i = Reading"
  shows "\<exists>vs'. semop stop_rd vs = Done vs' \<and> rw_coupled enc vs' (phs[i := RwOut])"
proof -
  have r: "1 \<le> readers phs" using assms(2,3) by (auto intro: cnt_ge_1)
  then have w: "writers phs = 0" using coupled_cases(1) [OF assms(1)] by auto
  have "semop stop_rd vs = Done (enc (readers phs - 1) (writers phs))"
    using stop_rd_law [OF r] w coupled_cases(2,3) [OF assms(1)] by simp
  moreover have "rw_coupled enc (enc (readers phs - 1) (writers phs)) (phs[i := RwOut])"
    using assms(2,3) w coupled_cases(3) [OF assms(1)] by (simp add: rw_coupled_def rw_excl_def cnt_update)
  ultimately show ?thesis by blast
qed

lemma stop_wr_done:
  assumes "rw_coupled enc vs phs" "i < length phs" "phs ! i = Writing"
  shows "\<exists>vs'. semop stop_wr vs = Done vs' \<and> rw_coupled enc vs' (phs[i := RwOut])"
proof -
  have "1 \<le> writers phs" using assms(2,3) by (auto intro: cnt_ge_1)
  then have *: "writers phs = 1" "readers phs = 0" using coupled_cases(1) [OF assms(1)] by auto
  then have "semop stop_wr vs = Done (enc 0 0)"
    using stop_wr_law coupled_cases(2) [OF assms(1)] by simp
  moreover have "rw_coupled enc (enc 0 0) (phs[i := RwOut])"
    using assms(2,3) * by (simp add: rw_coupled_def rw_excl_def cnt_update SEMVMX_def)
  ultimately show ?thesis by blast
qed

lemma start_never_fails:
  assumes "rw_coupled enc vs phs" "int (length phs) \<le> SEMVMX" "i < length phs" "phs ! i = RwOut"
  shows "semop start_rd vs = (if writers phs = 0 then Done (enc (readers phs + 1) 0) else Block)"
    "semop start_wr vs = (if writers phs = 0 \<and> readers phs = 0 then Done (enc 0 1) else Block)"
proof -
  have w: "writers phs = 0 \<or> writers phs = 1" using coupled_cases(1) [OF assms(1)] by auto
  have "readers (phs[i := Reading]) \<le> int (length (phs[i := Reading]))" by (rule readers_le)
  then have "readers phs < SEMVMX" using assms(2-4) by (simp add: cnt_update)
  then show "semop start_rd vs = (if writers phs = 0 then Done (enc (readers phs + 1) 0) else Block)"
    "semop start_wr vs = (if writers phs = 0 \<and> readers phs = 0 then Done (enc 0 1) else Block)"
    using start_rd_law [OF cnt_nonneg [of "\<lambda>p. p = Reading" phs] w] start_wr_law [OF cnt_nonneg [of "\<lambda>p. p = Reading" phs] w] w coupled_cases(2) [OF assms(1)]
    by auto
qed

text \<open>When nobody is inside, whoever asks next enters: the lock cannot be stuck.\<close>

lemma idle_enters:
  assumes "rw_coupled enc vs phs" "\<forall>p \<in> set phs. p = RwOut"
  shows "semop start_rd vs = Done (enc 1 0)" "semop start_wr vs = Done (enc 0 1)"
proof -
  have z: "writers phs = 0" "readers phs = 0" using assms(2) by (auto simp: cnt_0_iff)
  then have "vs = enc 0 0" using coupled_cases(2) [OF assms(1)] by simp
  then show "semop start_rd vs = Done (enc 1 0)" "semop start_wr vs = Done (enc 0 1)"
    using start_rd_law [of 0 0] start_wr_law [of 0 0] by (auto simp: SEMVMX_def)
qed

lemma coupled_spawn: "rw_coupled enc vs phs \<Longrightarrow> rw_coupled enc vs (phs @ [RwOut])"
  by (simp add: rw_coupled_def rw_excl_def)

lemma coupled_same: "rw_coupled enc vs phs \<Longrightarrow> phs ! i = p \<Longrightarrow> rw_coupled enc vs (phs[i := p])"
  by auto

end

end
