(* ===== verification/Letters_Server.thy ===== *)
theory Letters_Server
  imports RW_Lock
begin

text \<open>
  \<open>lab_sockets/lab_03/mt\<close>: a server that lets clients read a table of 20 letters and reserve
  one of them, with a thread per connection and a readers/writers lock made of five
  semaphores. The model goes statement by statement, so that threads interleave between any
  two statements of \<open>process_client\<close>.
\<close>

section \<open>Constants and data\<close>

definition LS_ARR_SIZE :: nat where "LS_ARR_SIZE = 20"
definition LS_BUF_SIZE :: nat where "LS_BUF_SIZE = 200"

datatype response_type_t = LsOK | ALREADLY_RESERVED | ERROR

definition ls_start_rd :: "sembuf list" where
  "ls_start_rd = [sb 0 1, sb 1 0, sb 4 0, sb 2 1, sb 0 (-1)]"

definition ls_stop_rd :: "sembuf list" where
  "ls_stop_rd = [sb 2 (-1)]"

definition ls_start_wr :: "sembuf list" where
  "ls_start_wr = [sb 1 1, sb 2 0, sb 3 (-1), sb 4 1, sb 1 (-1)]"

definition ls_stop_wr :: "sembuf list" where
  "ls_stop_wr = [sb 4 (-1), sb 3 1]"

lemmas ls_ops = ls_start_rd_def ls_stop_rd_def ls_start_wr_def ls_stop_wr_def

text \<open>
  Program points of \<open>process_client\<close>: fetching the argument, \<open>recv\<close> and the switch, the reader
  branch (the copy loop at index \<open>i\<close>), the writer branch (the test of line 110, the assignment,
  the \<open>else\<close> branch, the loop that tests whether all letters are taken) and the end.
\<close>

datatype ls_pc = L_args | L_recv
  | L_start_rd | L_copy nat | L_send_rd | L_stop_rd
  | L_start_wr | L_test | L_mark | L_else | L_full nat | L_kill | L_send_wr | L_stop_wr
  | L_done

record ls_thread =
  l_pc :: ls_pc
  l_connfd :: int
  l_buf :: "c_char list"
  l_index :: c_int
  l_status :: response_type_t

datatype ls_reply = Letters "c_char list" | Status response_type_t

datatype ls_line = Reserved nat | AlreadyReserved nat | InvalidLetter nat | AllReserved

record ls =
  ls_sems :: semset
  ls_arr :: "c_char list"
  ls_connfd :: int
  ls_threads :: "ls_thread list"
  ls_sent :: "(int \<times> ls_reply) list"
  ls_out :: "ls_line list"
  ls_kills :: nat

text \<open>What the environment supplies to a step: the bytes of \<open>recv\<close>, the result of \<open>send\<close>.\<close>

record ls_input =
  in_bytes :: "c_char list option"
  in_send_ok :: bool

definition ls_blank :: c_char where "ls_blank = ch CHR '' ''"

section \<open>Operations\<close>

definition ls_set :: "nat \<Rightarrow> ls_thread \<Rightarrow> ls \<Rightarrow> ls" where
  "ls_set i t s = s\<lparr>ls_threads := (ls_threads s)[i := t]\<rparr>"

definition ls_semop :: "sembuf list \<Rightarrow> nat \<Rightarrow> ls_thread \<Rightarrow> ls \<Rightarrow> ls outcome" where
  "ls_semop ops i t s =
     (case semop ops (ls_sems s) of
        Done vs \<Rightarrow> Cont (ls_set i t (s\<lparr>ls_sems := vs\<rparr>))
      | Block \<Rightarrow> Blocked
      | Fail e \<Rightarrow> Exit EXIT_FAILURE)"

definition ls_send :: "ls_input \<Rightarrow> ls_reply \<Rightarrow> nat \<Rightarrow> ls_thread \<Rightarrow> ls \<Rightarrow> ls outcome" where
  "ls_send inp r i t s =
     (if in_send_ok inp then Cont (ls_set i t (s\<lparr>ls_sent := ls_sent s @ [(l_connfd t, r)]\<rparr>))
      else Exit EXIT_FAILURE)"

definition ls_print :: "ls_line \<Rightarrow> ls \<Rightarrow> ls" where
  "ls_print l s = s\<lparr>ls_out := ls_out s @ [l]\<rparr>"

text \<open>
  \<open>index = (int) buf[1]\<close> sign-extends a \<open>char\<close> and stores it in an \<open>unsigned\<close>.
\<close>

definition ls_index_of :: "c_char list \<Rightarrow> c_int" where
  "ls_index_of buf = word_of_int (sint (buf ! 1))"

definition ls_switch :: "ls_thread \<Rightarrow> ls_thread" where
  "ls_switch t =
     (if l_buf t ! 0 = ch CHR ''r'' then t\<lparr>l_pc := L_start_rd\<rparr>
      else if l_buf t ! 0 = ch CHR ''w'' then t\<lparr>l_index := ls_index_of (l_buf t), l_pc := L_start_wr\<rparr>
      else t\<lparr>l_pc := L_recv\<rparr>)"

definition ls_process_client :: "ls_input \<Rightarrow> nat \<Rightarrow> ls \<Rightarrow> ls outcome" where
  "ls_process_client inp i s =
     (let t = ls_threads s ! i; k = unat (l_index t) in
      case l_pc t of
        L_args \<Rightarrow> Cont (ls_set i (t\<lparr>l_connfd := ls_connfd s, l_pc := L_recv\<rparr>) s)
      | L_recv \<Rightarrow>
          (case in_bytes inp of
             None \<Rightarrow> Cont (ls_set i (t\<lparr>l_pc := L_done\<rparr>) s)
           | Some bytes \<Rightarrow> Cont (ls_set i (ls_switch (t\<lparr>l_buf := recv_into bytes (l_buf t)\<rparr>)) s))
      | L_start_rd \<Rightarrow> ls_semop ls_start_rd i (t\<lparr>l_pc := L_copy 0\<rparr>) s
      | L_copy n \<Rightarrow>
          (if n < LS_ARR_SIZE
           then Cont (ls_set i (t\<lparr>l_buf := (l_buf t)[n := ls_arr s ! n], l_pc := L_copy (Suc n)\<rparr>) s)
           else Cont (ls_set i (t\<lparr>l_pc := L_send_rd\<rparr>) s))
      | L_send_rd \<Rightarrow> ls_send inp (Letters (l_buf t)) i (t\<lparr>l_pc := L_stop_rd\<rparr>) s
      | L_stop_rd \<Rightarrow> ls_semop ls_stop_rd i (t\<lparr>l_pc := L_recv\<rparr>) s
      | L_start_wr \<Rightarrow> ls_semop ls_start_wr i (t\<lparr>l_pc := L_test\<rparr>) s
      | L_test \<Rightarrow>
          (if k < LS_ARR_SIZE \<and> ls_arr s ! k \<noteq> ls_blank then Cont (ls_set i (t\<lparr>l_pc := L_mark\<rparr>) s)
           else Cont (ls_set i (t\<lparr>l_pc := L_else\<rparr>) s))
      | L_mark \<Rightarrow> Cont (ls_print (Reserved k) (ls_set i (t\<lparr>l_status := LsOK, l_pc := L_full 0\<rparr>)
                     (s\<lparr>ls_arr := (ls_arr s)[k := ls_blank]\<rparr>)))
      | L_else \<Rightarrow>
          (if LS_ARR_SIZE \<le> k then UB
           else if ls_arr s ! k = ls_blank
           then Cont (ls_print (AlreadyReserved k)
                  (ls_set i (t\<lparr>l_status := ALREADLY_RESERVED, l_pc := L_full 0\<rparr>) s))
           else Cont (ls_print (InvalidLetter k)
                  (ls_set i (t\<lparr>l_status := ERROR, l_pc := L_full 0\<rparr>) s)))
      | L_full n \<Rightarrow>
          (if n < LS_ARR_SIZE
           then (if ls_arr s ! n \<noteq> ls_blank then Cont (ls_set i (t\<lparr>l_pc := L_send_wr\<rparr>) s)
                 else Cont (ls_set i (t\<lparr>l_pc := L_full (Suc n)\<rparr>) s))
           else Cont (ls_print AllReserved (ls_set i (t\<lparr>l_pc := L_kill\<rparr>) s)))
      | L_kill \<Rightarrow> Cont (ls_set i (t\<lparr>l_pc := L_send_wr\<rparr>) (s\<lparr>ls_kills := Suc (ls_kills s)\<rparr>))
      | L_send_wr \<Rightarrow> ls_send inp (Status (l_status t)) i (t\<lparr>l_pc := L_stop_wr\<rparr>) s
      | L_stop_wr \<Rightarrow> ls_semop ls_stop_wr i (t\<lparr>l_pc := L_recv\<rparr>) s
      | L_done \<Rightarrow> Blocked)"

text \<open>
  \<open>main\<close>: the initial values, and one turn of the accept loop, which stores the descriptor in
  its local variable \<open>connfd\<close> and passes the address of that variable to the new thread. The
  locals of the thread start with arbitrary contents.
\<close>

definition ls_boot :: ls where
  "ls_boot = \<lparr>ls_sems = [0, 0, 0, 1, 0], ls_arr = map (\<lambda>i. ch CHR ''a'' + of_nat i) [0..<LS_ARR_SIZE],
     ls_connfd = 0, ls_threads = [], ls_sent = [], ls_out = [], ls_kills = 0\<rparr>"

definition ls_accept :: "int \<Rightarrow> ls_thread \<Rightarrow> ls \<Rightarrow> ls" where
  "ls_accept fd t s = s\<lparr>ls_connfd := fd, ls_threads := ls_threads s @ [t\<lparr>l_pc := L_args\<rparr>]\<rparr>"

inductive ls_step :: "ls \<Rightarrow> ls \<Rightarrow> bool" where
  client: "i < length (ls_threads s) \<Longrightarrow> ls_process_client inp i s = Cont s' \<Longrightarrow> ls_step s s'"
| accept: "length (l_buf t) = LS_BUF_SIZE \<Longrightarrow> ls_step s (ls_accept fd t s)"

abbreviation ls_init :: "ls \<Rightarrow> bool" where
  "ls_init s \<equiv> s = ls_boot"

section \<open>The lock\<close>

definition ls_enc :: "int \<Rightarrow> int \<Rightarrow> semset" where
  "ls_enc r w = [0, 0, r, 1 - w, w]"

interpretation ls_lock: rw_lock ls_start_rd ls_stop_rd ls_start_wr ls_stop_wr ls_enc
  by unfold_locales (auto simp: ls_ops ls_enc_def semop_eval numeral_nat)

fun ls_phase :: "ls_pc \<Rightarrow> rw_phase" where
  "ls_phase (L_copy n) = Reading"
| "ls_phase L_send_rd = Reading"
| "ls_phase L_stop_rd = Reading"
| "ls_phase L_test = Writing"
| "ls_phase L_mark = Writing"
| "ls_phase L_else = Writing"
| "ls_phase (L_full n) = Writing"
| "ls_phase L_kill = Writing"
| "ls_phase L_send_wr = Writing"
| "ls_phase L_stop_wr = Writing"
| "ls_phase _ = RwOut"

definition ls_phases :: "ls \<Rightarrow> rw_phase list" where
  "ls_phases s = map (\<lambda>t. ls_phase (l_pc t)) (ls_threads s)"

lemma ls_phases_simps [simp]:
  "length (ls_phases s) = length (ls_threads s)"
  "i < length (ls_threads s) \<Longrightarrow> ls_phases s ! i = ls_phase (l_pc (ls_threads s ! i))"
  "ls_phases (ls_set i t s) = (ls_phases s)[i := ls_phase (l_pc t)]"
  "ls_phases (ls_print l s) = ls_phases s"
  "ls_phases (s\<lparr>ls_sems := vs\<rparr>) = ls_phases s" "ls_phases (s\<lparr>ls_arr := a\<rparr>) = ls_phases s"
  "ls_phases (s\<lparr>ls_sent := r\<rparr>) = ls_phases s" "ls_phases (s\<lparr>ls_kills := n\<rparr>) = ls_phases s"
  by (simp_all add: ls_phases_def ls_set_def ls_print_def map_update)

lemma ls_phases_accept [simp]: "ls_phases (ls_accept fd t s) = ls_phases s @ [RwOut]"
  by (simp add: ls_phases_def ls_accept_def)

lemma ls_sel [simp]:
  "ls_sems (ls_set i t s) = ls_sems s" "ls_arr (ls_set i t s) = ls_arr s"
  "ls_out (ls_set i t s) = ls_out s" "ls_threads (ls_set i t s) = (ls_threads s)[i := t]"
  "ls_sems (ls_print l s) = ls_sems s" "ls_arr (ls_print l s) = ls_arr s"
  "ls_sent (ls_set i t s) = ls_sent s" "ls_sent (ls_print l s) = ls_sent s"
  "ls_out (ls_print l s) = ls_out s @ [l]" "ls_threads (ls_print l s) = ls_threads s"
  by (simp_all add: ls_set_def ls_print_def)

lemma ls_semop_Cont:
  "ls_semop ops i t s = Cont s' \<longleftrightarrow>
   (\<exists>vs. semop ops (ls_sems s) = Done vs \<and> s' = ls_set i t (s\<lparr>ls_sems := vs\<rparr>))"
  by (auto simp: ls_semop_def split: semop_result.splits)

lemma ls_send_Cont:
  "ls_send inp r i t s = Cont s' \<longleftrightarrow>
   in_send_ok inp \<and> s' = ls_set i t (s\<lparr>ls_sent := ls_sent s @ [(l_connfd t, r)]\<rparr>)"
  by (auto simp: ls_send_def)

lemma ls_switch_phase [simp]: "ls_phase (l_pc (ls_switch t)) = RwOut"
  by (simp add: ls_switch_def)

definition ls_coupled :: "ls \<Rightarrow> bool" where
  "ls_coupled s \<longleftrightarrow> rw_coupled ls_enc (ls_sems s) (ls_phases s)"

text \<open>A statement of a thread keeps the lock coupled and is a step of the specification, or none.\<close>

lemma ls_client_coupled:
  assumes "ls_coupled s" "i < length (ls_threads s)" "ls_process_client inp i s = Cont s'"
  shows "ls_coupled s' \<and> (rw_spec_step (ls_phases s) (ls_phases s') \<or> ls_phases s' = ls_phases s)"
proof -
  let ?t = "ls_threads s ! i"
  have c: "rw_coupled ls_enc (ls_sems s) (ls_phases s)" and i: "i < length (ls_phases s)"
    using assms(1,2) by (simp_all add: ls_coupled_def)
  have keep: "(ls_phases s)[i := p] = ls_phases s" if "p = ls_phase (l_pc ?t)" for p
    using that assms(2) list_update_id [of "ls_phases s" i] by simp
  show ?thesis
  proof (cases "l_pc ?t")
    case L_start_rd
    then show ?thesis
      using assms ls_lock.start_rd_done [OF c _ i] rw_spec_step.begin_read [OF i]
      by (auto simp: ls_process_client_def ls_coupled_def ls_semop_Cont)
  next
    case L_start_wr
    then show ?thesis
      using assms ls_lock.start_wr_done [OF c _ i] rw_spec_step.begin_write [OF i]
      by (auto simp: ls_process_client_def ls_coupled_def ls_semop_Cont)
  next
    case L_stop_rd
    then show ?thesis
      using assms ls_lock.stop_rd_done [OF c i] rw_spec_step.end_read [OF i]
      by (auto simp: ls_process_client_def ls_coupled_def ls_semop_Cont)
  next
    case L_stop_wr
    then show ?thesis
      using assms ls_lock.stop_wr_done [OF c i] rw_spec_step.end_write [OF i]
      by (auto simp: ls_process_client_def ls_coupled_def ls_semop_Cont)
  qed (use assms keep c in \<open>auto simp: ls_process_client_def ls_coupled_def Let_def ls_send_Cont
        split: option.splits if_splits\<close>)
qed

section \<open>The table of letters\<close>

definition ls_reserved :: "ls_line list \<Rightarrow> nat list" where
  "ls_reserved ls = concat (map (\<lambda>l. case l of Reserved k \<Rightarrow> [k] | _ \<Rightarrow> []) ls)"

lemma ls_reserved_append [simp]:
  "ls_reserved [] = []" "ls_reserved (ls @ [Reserved k]) = ls_reserved ls @ [k]"
  "ls_reserved (ls @ [AlreadyReserved k]) = ls_reserved ls"
  "ls_reserved (ls @ [InvalidLetter k]) = ls_reserved ls"
  "ls_reserved (ls @ [AllReserved]) = ls_reserved ls"
  by (simp_all add: ls_reserved_def)

definition ls_letter :: "nat \<Rightarrow> c_char" where
  "ls_letter k = ch CHR ''a'' + of_nat k"

text \<open>
  The table: every letter is in its place or reserved, and the reservations reported are
  exactly the blank places, each reported once.
\<close>

definition ls_table_ok :: "ls \<Rightarrow> bool" where
  "ls_table_ok s \<longleftrightarrow> length (ls_arr s) = LS_ARR_SIZE \<and>
     (\<forall>k < LS_ARR_SIZE. ls_arr s ! k = ls_blank \<or> ls_arr s ! k = ls_letter k) \<and>
     distinct (ls_reserved (ls_out s)) \<and>
     set (ls_reserved (ls_out s)) = {k. k < LS_ARR_SIZE \<and> ls_arr s ! k = ls_blank}"

text \<open>What a thread relies on between two statements, given the table.\<close>

definition ls_thread_ok :: "c_char list \<Rightarrow> ls_thread \<Rightarrow> bool" where
  "ls_thread_ok arr t \<longleftrightarrow> length (l_buf t) = LS_BUF_SIZE \<and>
     (case l_pc t of
        L_copy n \<Rightarrow> n \<le> LS_ARR_SIZE \<and> take n (l_buf t) = take n arr
      | L_send_rd \<Rightarrow> take LS_ARR_SIZE (l_buf t) = arr
      | L_mark \<Rightarrow> unat (l_index t) < LS_ARR_SIZE \<and> arr ! unat (l_index t) \<noteq> ls_blank
      | L_else \<Rightarrow> unat (l_index t) < LS_ARR_SIZE \<longrightarrow> arr ! unat (l_index t) = ls_blank
      | L_full n \<Rightarrow> l_status t \<noteq> ERROR
      | L_kill \<Rightarrow> l_status t \<noteq> ERROR
      | L_send_wr \<Rightarrow> l_status t \<noteq> ERROR
      | _ \<Rightarrow> True)"

definition ls_inv :: "ls \<Rightarrow> bool" where
  "ls_inv s \<longleftrightarrow> ls_coupled s \<and> ls_table_ok s \<and>
     (\<forall>t \<in> set (ls_threads s). ls_thread_ok (ls_arr s) t) \<and> (\<forall>(fd, r) \<in> set (ls_sent s). r \<noteq> Status ERROR)"

lemma ls_thread_ok_out:
  "ls_phase (l_pc t) = RwOut \<Longrightarrow> ls_thread_ok arr t = (length (l_buf t) = LS_BUF_SIZE)"
  by (auto simp: ls_thread_ok_def split: ls_pc.splits)

text \<open>A thread that does not write the table only has to keep its own condition.\<close>

lemma ls_threads_update:
  "\<forall>t \<in> set ts. ls_thread_ok arr t \<Longrightarrow> ls_thread_ok arr t' \<Longrightarrow> \<forall>t \<in> set (ts[i := t']). ls_thread_ok arr t"
  using set_update_subset_insert [of ts i t'] by auto

lemma ls_threads_after_write:
  assumes "ls_coupled s" "\<forall>t \<in> set (ls_threads s). ls_thread_ok (ls_arr s) t"
    "i < length (ls_threads s)" "ls_phase (l_pc (ls_threads s ! i)) = Writing" "ls_thread_ok arr t'"
  shows "\<forall>t \<in> set ((ls_threads s)[i := t']). ls_thread_ok arr t"
proof
  fix t
  assume "t \<in> set ((ls_threads s)[i := t'])"
  then obtain j where j: "j < length (ls_threads s)" "t = (if j = i then t' else ls_threads s ! j)"
    by (auto simp: in_set_conv_nth nth_list_update split: if_splits)
  show "ls_thread_ok arr t"
  proof (cases "j = i")
    case False
    have "ls_phases s ! j = RwOut"
      using assms(1,3,4) j(1) False
      by (intro rw_excl_writer_alone [of _ i]) (auto simp: ls_coupled_def rw_coupled_def)
    then show ?thesis
      using assms(2) j False ls_thread_ok_out nth_mem [OF j(1)] by fastforce
  qed (use assms(5) j in simp)
qed

lemma ls_table_mark:
  assumes "ls_table_ok s" "k < LS_ARR_SIZE" "ls_arr s ! k \<noteq> ls_blank"
  shows "ls_table_ok (ls_print (Reserved k) (ls_set i t (s\<lparr>ls_arr := (ls_arr s)[k := ls_blank]\<rparr>)))"
  using assms by (auto simp: ls_table_ok_def nth_list_update)

lemma ls_table_frame [simp]:
  "ls_table_ok (ls_set i t s) = ls_table_ok s" "ls_table_ok (s\<lparr>ls_sems := v\<rparr>) = ls_table_ok s"
  "ls_table_ok (s\<lparr>ls_sent := r\<rparr>) = ls_table_ok s" "ls_table_ok (s\<lparr>ls_kills := n\<rparr>) = ls_table_ok s"
  "ls_table_ok (ls_print (AlreadyReserved k) s) = ls_table_ok s"
  "ls_table_ok (ls_print (InvalidLetter k) s) = ls_table_ok s"
  "ls_table_ok (ls_print AllReserved s) = ls_table_ok s"
  by (simp_all add: ls_table_ok_def ls_set_def ls_print_def)

lemma ls_switch_ok: "length (l_buf t) = LS_BUF_SIZE \<Longrightarrow> ls_thread_ok arr (ls_switch t)"
  by (simp add: ls_thread_ok_out) (simp add: ls_switch_def)

lemma ls_copy_ok:
  assumes "take n buf = take n arr" "n < LS_ARR_SIZE" "length buf = LS_BUF_SIZE" "length arr = LS_ARR_SIZE"
  shows "take (Suc n) (buf[n := arr ! n]) = take (Suc n) arr"
  using assms by (simp add: take_Suc_conv_app_nth LS_BUF_SIZE_def LS_ARR_SIZE_def)

text \<open>The statements that neither receive, copy nor write the table.\<close>

definition ls_simple :: "ls_pc \<Rightarrow> bool" where
  "ls_simple pc \<longleftrightarrow> (case pc of L_copy n \<Rightarrow> False | L_recv \<Rightarrow> False | L_mark \<Rightarrow> False | _ \<Rightarrow> True)"

lemma ls_client_simple:
  assumes "i < length (ls_threads s)" "ls_process_client inp i s = Cont s'"
    "ls_simple (l_pc (ls_threads s ! i))" "ls_table_ok s"
    "\<forall>t \<in> set (ls_threads s). ls_thread_ok (ls_arr s) t"
  shows "ls_table_ok s' \<and> (\<forall>t \<in> set (ls_threads s'). ls_thread_ok (ls_arr s') t)"
proof -
  let ?t = "ls_threads s ! i"
  have ok: "ls_thread_ok (ls_arr s) ?t" using assms(1,5) by simp
  then have len: "length (l_buf ?t) = LS_BUF_SIZE" by (simp add: ls_thread_ok_def)
  obtain t' where t': "ls_arr s' = ls_arr s" "ls_threads s' = (ls_threads s)[i := t']"
    "ls_table_ok s'" "ls_thread_ok (ls_arr s) t'"
    using assms(2-4) len ok
    by (cases "l_pc ?t")
      (auto simp: ls_process_client_def ls_simple_def ls_semop_Cont ls_send_Cont Let_def
        ls_thread_ok_def split: if_splits)
  then show ?thesis using ls_threads_update [OF assms(5) t'(4), of i] by simp
qed

lemma ls_client_data:
  assumes "ls_inv s" "i < length (ls_threads s)" "ls_process_client inp i s = Cont s'"
  shows "ls_table_ok s' \<and> (\<forall>t \<in> set (ls_threads s'). ls_thread_ok (ls_arr s') t)"
proof -
  let ?t = "ls_threads s ! i"
  have tab: "ls_table_ok s" and cp: "ls_coupled s"
    and all: "\<forall>t \<in> set (ls_threads s). ls_thread_ok (ls_arr s) t"
    using assms(1) by (simp_all add: ls_inv_def)
  have ok: "ls_thread_ok (ls_arr s) ?t" using all assms(2) by simp
  then have len: "length (l_buf ?t) = LS_BUF_SIZE" by (simp add: ls_thread_ok_def)
  have arr: "length (ls_arr s) = LS_ARR_SIZE" using tab by (simp add: ls_table_ok_def)
  note upd = ls_threads_update [OF all]
  show ?thesis
  proof (cases "l_pc ?t")
    case L_mark
    then have "ls_phase (l_pc ?t) = Writing" by simp
    note wr = ls_threads_after_write [OF cp all assms(2) this]
    let ?k = "unat (l_index ?t)"
    let ?t' = "?t\<lparr>l_status := LsOK, l_pc := L_full 0\<rparr>"
    have k: "?k < LS_ARR_SIZE" "ls_arr s ! ?k \<noteq> ls_blank" using ok L_mark by (simp_all add: ls_thread_ok_def)
    have s': "s' = ls_print (Reserved ?k) (ls_set i ?t' (s\<lparr>ls_arr := (ls_arr s)[?k := ls_blank]\<rparr>))"
      using assms(3) L_mark by (simp add: ls_process_client_def Let_def)
    have "ls_thread_ok ((ls_arr s)[?k := ls_blank]) ?t'" using len by (simp add: ls_thread_ok_def)
    from wr [OF this] ls_table_mark [OF tab k] show ?thesis by (simp add: s')
  next
    case (L_copy n)
    then have n: "n \<le> LS_ARR_SIZE" "take n (l_buf ?t) = take n (ls_arr s)"
      using ok by (simp_all add: ls_thread_ok_def)
    show ?thesis
    proof (cases "n < LS_ARR_SIZE")
      case True
      let ?t' = "?t\<lparr>l_buf := (l_buf ?t)[n := ls_arr s ! n], l_pc := L_copy (Suc n)\<rparr>"
      have "ls_thread_ok (ls_arr s) ?t'"
        using ls_copy_ok [OF n(2) True len arr] True len by (simp add: ls_thread_ok_def)
      from upd [OF this] show ?thesis
        using assms(3) L_copy True tab by (auto simp: ls_process_client_def Let_def)
    next
      case False
      then have "ls_thread_ok (ls_arr s) (?t\<lparr>l_pc := L_send_rd\<rparr>)"
        using n arr len by (simp add: ls_thread_ok_def)
      from upd [OF this] show ?thesis
        using assms(3) L_copy False tab by (auto simp: ls_process_client_def Let_def)
    qed
  next
    case L_recv
    show ?thesis
    proof (cases "in_bytes inp")
      case None
      have "ls_thread_ok (ls_arr s) (?t\<lparr>l_pc := L_done\<rparr>)" using len by (simp add: ls_thread_ok_def)
      from upd [OF this] show ?thesis
        using assms(3) L_recv None tab by (auto simp: ls_process_client_def Let_def)
    next
      case (Some bytes)
      have "ls_thread_ok (ls_arr s) (ls_switch (?t\<lparr>l_buf := recv_into bytes (l_buf ?t)\<rparr>))"
        using len by (simp add: ls_switch_ok)
      from upd [OF this] show ?thesis
        using assms(3) L_recv Some tab by (auto simp: ls_process_client_def Let_def)
    qed
  qed (use ls_client_simple [OF assms(2,3) _ tab all] in \<open>simp_all add: ls_simple_def\<close>)
qed

lemma ls_client_sent:
  assumes "ls_thread_ok (ls_arr s) (ls_threads s ! i)" "ls_process_client inp i s = Cont s'"
    "\<forall>(fd, r) \<in> set (ls_sent s). r \<noteq> Status ERROR"
  shows "\<forall>(fd, r) \<in> set (ls_sent s'). r \<noteq> Status ERROR"
  using assms
  by (cases "l_pc (ls_threads s ! i)")
    (auto simp: ls_process_client_def ls_semop_Cont ls_send_Cont Let_def ls_thread_ok_def
      split: if_splits option.splits)

lemma ls_step_inv: "ls_step s s' \<Longrightarrow> ls_inv s \<Longrightarrow> ls_inv s'"
proof (induction rule: ls_step.induct)
  case (client i s inp s')
  then have "ls_thread_ok (ls_arr s) (ls_threads s ! i)" by (simp add: ls_inv_def)
  then show ?case
    using client ls_client_coupled [of s i inp s'] ls_client_data [of s i inp s'] ls_client_sent [of s i inp s']
    unfolding ls_inv_def by blast
next
  case (accept t s fd)
  then have "ls_coupled (ls_accept fd t s)"
    using ls_lock.coupled_spawn by (simp add: ls_inv_def ls_coupled_def) (simp add: ls_accept_def)
  moreover have "ls_thread_ok arr (t\<lparr>l_pc := L_args\<rparr>)" for arr
    using accept by (simp add: ls_thread_ok_def)
  ultimately show ?case
    using accept by (auto simp: ls_inv_def ls_table_ok_def ls_accept_def)
qed

lemma ls_boot_letter: "k < LS_ARR_SIZE \<Longrightarrow> ls_arr ls_boot ! k = ls_letter k"
  by (simp add: ls_boot_def ls_letter_def)

lemma ls_letter_not_blank: "k < LS_ARR_SIZE \<Longrightarrow> ls_letter k \<noteq> ls_blank"
proof -
  have "\<forall>k \<in> set [0..<20]. ls_letter k \<noteq> ls_blank" by code_simp
  then show "k < LS_ARR_SIZE \<Longrightarrow> ls_letter k \<noteq> ls_blank" by (simp add: LS_ARR_SIZE_def)
qed

lemma ls_boot_inv: "ls_inv ls_boot"
proof -
  have "length (ls_arr ls_boot) = LS_ARR_SIZE" "ls_out ls_boot = []" by (simp_all add: ls_boot_def)
  then have "ls_table_ok ls_boot"
    using ls_letter_not_blank by (auto simp: ls_table_ok_def ls_boot_letter)
  then show ?thesis
    by (simp add: ls_inv_def ls_coupled_def rw_coupled_def rw_excl_def)
      (simp add: ls_boot_def ls_phases_def ls_enc_def SEMVMX_def)
qed

interpretation lt: refinement ls_init ls_step ls_inv rw_spec_init rw_spec_step ls_phases
proof unfold_locales
  show "ls_inv s" if "s = ls_boot" for s using that by (simp add: ls_boot_inv)
  show "rw_spec_init (ls_phases s)" if "s = ls_boot" for s
    using that by (simp add: rw_spec_init_def ls_phases_def ls_boot_def)
  show "ls_inv s'" if "ls_inv s" "ls_step s s'" for s s' using that by (auto intro: ls_step_inv)
  show "rw_spec_step (ls_phases s) (ls_phases s') \<or> ls_phases s' = ls_phases s"
    if "ls_inv s" "ls_step s s'" for s s'
    using that(2,1)
  proof (induction rule: ls_step.induct)
    case (client i s inp s')
    then show ?case using ls_client_coupled [of s i inp s'] by (simp add: ls_inv_def)
  qed (simp add: rw_spec_step.spawn)
qed

section \<open>Executing schedules\<close>

datatype ls_event = LAccept int | LClient nat ls_input

definition ls_fresh :: ls_thread where
  "ls_fresh = \<lparr>l_pc = L_args, l_connfd = 0, l_buf = replicate LS_BUF_SIZE 0, l_index = 0, l_status = LsOK\<rparr>"

fun ls_exec :: "ls_event \<Rightarrow> ls \<Rightarrow> ls option" where
  "ls_exec (LAccept fd) s = Some (ls_accept fd ls_fresh s)"
| "ls_exec (LClient i inp) s =
     (if i < length (ls_threads s)
      then (case ls_process_client inp i s of Cont s' \<Rightarrow> Some s' | _ \<Rightarrow> None) else None)"

interpretation ls_sched: scheduler ls_exec ls_step ls_boot
proof unfold_locales
  show "ls_exec e s = Some t \<Longrightarrow> ls_step s t" for e s t
    by (cases e) (auto simp: ls_fresh_def split: if_splits outcome.splits intro: ls_step.intros)
qed

definition ls_req :: "char \<Rightarrow> c_char \<Rightarrow> ls_input" where
  "ls_req c k = \<lparr>in_bytes = Some [ch c, k], in_send_ok = True\<rparr>"

text \<open>A client reserves letter 2; another one is about to be sent the table; a third waits to write.\<close>

definition ls_demo :: "ls_event list" where
  "ls_demo = LAccept 7 # replicate 8 (LClient 0 (ls_req CHR ''w'' 2)) @ LAccept 8 #
     replicate 24 (LClient 1 (ls_req CHR ''r'' 0)) @ LAccept 9 # replicate 2 (LClient 2 (ls_req CHR ''w'' 2))"

definition ls_demo_state :: ls where
  "ls_demo_state = the (run_actions ls_exec ls_demo ls_boot)"

lemma ls_demo_run: "run_actions ls_exec ls_demo ls_boot = Some ls_demo_state"
  by code_simp

lemmas ls_demo_reach = ls_sched.run_reach [OF ls_demo_run]

lemma ls_demo_facts:
  "length (ls_threads ls_demo_state) = 3" "l_pc (ls_threads ls_demo_state ! 1) = L_send_rd"
  "ls_reserved (ls_out ls_demo_state) = [2]" "l_pc (ls_threads ls_demo_state ! 2) = L_start_wr"
  by code_simp+

text \<open>A writer that has entered the lock while a reader is about to ask for it.\<close>

definition ls_write_state :: ls where
  "ls_write_state = the (run_actions ls_exec ([LAccept 7, LAccept 8] @
     replicate 3 (LClient 0 (ls_req CHR ''w'' 99)) @ replicate 2 (LClient 1 (ls_req CHR ''r'' 0))) ls_boot)"

lemma ls_write_run: "run_actions ls_exec ([LAccept 7, LAccept 8] @
     replicate 3 (LClient 0 (ls_req CHR ''w'' 99)) @ replicate 2 (LClient 1 (ls_req CHR ''r'' 0))) ls_boot = Some ls_write_state"
  by code_simp

lemmas ls_write_reach = ls_sched.run_reach [OF ls_write_run]

lemma ls_write_facts:
  "length (ls_threads ls_write_state) = 2" "l_pc (ls_threads ls_write_state ! 0) = L_test"
  "unat (l_index (ls_threads ls_write_state ! 0)) = 99"
  by code_simp+

section \<open>Properties\<close>

text \<open>
  (C7) The semaphores implement the readers/writers specification: every reachable state of the
  server shows a reachable table of phases, and a thread between the writer's two \<open>semop\<close> calls
  is alone inside the lock.
\<close>

theorem letters_refines_rw:
  assumes "reach ls_init ls_step s"
  shows "reach rw_spec_init rw_spec_step (ls_phases s) \<and>
    (\<forall>i j. i < length (ls_threads s) \<and> j < length (ls_threads s) \<and> i \<noteq> j \<and>
       ls_phase (l_pc (ls_threads s ! i)) = Writing \<longrightarrow> ls_phase (l_pc (ls_threads s ! j)) = RwOut)"
proof -
  have spec: "reach rw_spec_init rw_spec_step (ls_phases s)" using assms by (rule lt.abs_reach)
  note excl = rw_excl_writer_alone [OF rw_spec.reach_inv [OF spec]]
  have "ls_phases s ! j = RwOut"
    if "i < length (ls_threads s)" "j < length (ls_threads s)" "i \<noteq> j"
      "ls_phase (l_pc (ls_threads s ! i)) = Writing" for i j
    using that excl [of i j] by simp
  then show ?thesis using spec by auto
qed

theorem letters_refines_rw_witness:
  "ls_phase (l_pc (ls_threads ls_write_state ! 1)) = RwOut \<and> reach rw_spec_init rw_spec_step (ls_phases ls_write_state)"
proof -
  have "i < 2 \<and> j < 2 \<and> i \<noteq> j \<and> ls_phase (l_pc (ls_threads ls_write_state ! i)) = Writing \<longrightarrow>
      ls_phase (l_pc (ls_threads ls_write_state ! j)) = RwOut" for i j
    using letters_refines_rw [OF ls_write_reach] unfolding ls_write_facts(1) by blast
  from this [of 0 1] show ?thesis
    using letters_refines_rw [OF ls_write_reach] ls_write_facts by simp
qed

text \<open>
  (C8) No letter is reserved twice: in every reachable state the reservations reported to clients
  are distinct and are exactly the blank places of the table, and every other place still holds
  its own letter.
\<close>

theorem letters_reserved_once:
  assumes "reach ls_init ls_step s"
  shows "distinct (ls_reserved (ls_out s)) \<and>
    set (ls_reserved (ls_out s)) = {k. k < 20 \<and> ls_arr s ! k = ls_blank} \<and>
    (\<forall>k. k < 20 \<and> ls_arr s ! k \<noteq> ls_blank \<longrightarrow> ls_arr s ! k = ch CHR ''a'' + of_nat k)"
  using lt.reach_inv [OF assms] unfolding ls_inv_def ls_table_ok_def LS_ARR_SIZE_def ls_letter_def by blast

theorem letters_reserved_once_witness:
  "{k. k < 20 \<and> ls_arr ls_demo_state ! k = ls_blank} = {2}"
  using letters_reserved_once [OF ls_demo_reach] ls_demo_facts(3) by simp

text \<open>
  (C9) What a reader is sent is a snapshot: at the moment of its \<open>send\<close> the first 20 bytes of the
  reply are the table, although the copy loop runs letter by letter, and no step of any
  thread changes the table before the reader has released the lock.
\<close>

theorem letters_reader_snapshot:
  assumes "reach ls_init ls_step s" "i < length (ls_threads s)" "l_pc (ls_threads s ! i) = L_send_rd"
    "j < length (ls_threads s)" "ls_process_client inp j s = Cont s'"
  shows "ls_arr s' = ls_arr s \<and> take 20 (l_buf (ls_threads s ! i)) = ls_arr s \<and>
    (j = i \<longrightarrow> ls_sent s' = ls_sent s @ [(l_connfd (ls_threads s ! i), Letters (l_buf (ls_threads s ! i)))])"
proof -
  have inv: "ls_inv s" using assms(1) by (rule lt.reach_inv)
  then have "ls_thread_ok (ls_arr s) (ls_threads s ! i)" using assms(2) by (simp add: ls_inv_def)
  then have snap: "take 20 (l_buf (ls_threads s ! i)) = ls_arr s"
    using assms(3) by (simp add: ls_thread_ok_def LS_ARR_SIZE_def)
  have "rw_excl (ls_phases s)" using inv by (simp add: ls_inv_def ls_coupled_def rw_coupled_def)
  then have "ls_phases s ! j \<noteq> Writing"
    using rw_excl_writer_alone [of "ls_phases s" j i] assms(2-4) by fastforce
  then have "l_pc (ls_threads s ! j) \<noteq> L_mark" using assms(4) by auto
  then have "ls_arr s' = ls_arr s"
    using assms(5) by (cases "l_pc (ls_threads s ! j)")
      (auto simp: ls_process_client_def ls_semop_Cont ls_send_Cont Let_def split: if_splits option.splits)
  moreover have "ls_sent s' = ls_sent s @ [(l_connfd (ls_threads s ! i), Letters (l_buf (ls_threads s ! i)))]"
    if "j = i" using that assms(3,5) by (auto simp: ls_process_client_def ls_send_Cont Let_def)
  ultimately show ?thesis using snap by blast
qed

theorem letters_reader_snapshot_witness:
  "take 20 (l_buf (ls_threads ls_demo_state ! 1)) = ls_arr ls_demo_state"
proof -
  have "is_Cont (ls_process_client (ls_req CHR ''r'' 0) 1 ls_demo_state)" by code_simp
  then obtain s' where "ls_process_client (ls_req CHR ''r'' 0) 1 ls_demo_state = Cont s'"
    by (auto simp: is_Cont_iff)
  then show ?thesis
    using letters_reader_snapshot [OF ls_demo_reach, of 1 1] ls_demo_facts(1,2) by simp
qed

text \<open>
  With at most 32767 threads no statement of a reachable server leaves through a \<open>semop\<close>
  error, and the only statement with undefined behaviour is the \<open>else\<close> branch of line 118 when
  the client sent an index outside the table.
\<close>

lemma letters_no_failure:
  assumes "reach ls_init ls_step s" "i < length (ls_threads s)" "int (length (ls_threads s)) \<le> SEMVMX"
  shows "(ls_process_client inp i s = UB \<longleftrightarrow>
      l_pc (ls_threads s ! i) = L_else \<and> 20 \<le> unat (l_index (ls_threads s ! i))) \<and>
    (ls_process_client inp i s = Exit c \<longrightarrow> c = 1 \<and> \<not> in_send_ok inp \<and>
      l_pc (ls_threads s ! i) \<in> {L_send_rd, L_send_wr})"
proof -
  have c: "rw_coupled ls_enc (ls_sems s) (ls_phases s)" and i: "i < length (ls_phases s)"
    and n: "int (length (ls_phases s)) \<le> SEMVMX"
    using lt.reach_inv [OF assms(1)] assms(2,3) by (simp_all add: ls_inv_def ls_coupled_def)
  note laws = ls_lock.start_never_fails [OF c n i] ls_lock.stop_rd_done [OF c i] ls_lock.stop_wr_done [OF c i]
  show ?thesis
    using laws assms(2)
    by (cases "l_pc (ls_threads s ! i)")
      (auto simp: ls_process_client_def Let_def ls_semop_def ls_send_def LS_ARR_SIZE_def
        split: option.splits)
qed

lemma letters_no_failure_witness:
  "ls_process_client (ls_req CHR ''w'' 99) 0 ls_write_state \<noteq> UB"
  using letters_no_failure [OF ls_write_reach, of 0 "ls_req CHR ''w'' 99"] ls_write_facts
  by (simp add: SEMVMX_def)

text \<open>
  A write request with an index outside the table always reaches the read of \<open>arr[index]\<close>
  in the \<open>else\<close> branch: the test of line 110 fails on the bound and line 118 reads past the
  array. The status \<open>ERROR\<close>, meant for such requests, is therefore never sent.
\<close>

lemma letters_bad_index_reads_out_of_bounds:
  assumes "reach ls_init ls_step s" "i < length (ls_threads s)" "l_pc (ls_threads s ! i) = L_test"
    "20 \<le> unat (l_index (ls_threads s ! i))"
  shows "(\<exists>s'. ls_process_client inp i s = Cont s' \<and> ls_process_client inp' i s' = UB) \<and>
    (\<forall>fd. (fd, Status ERROR) \<notin> set (ls_sent s))"
  using assms lt.reach_inv [OF assms(1)]
  by (auto simp: ls_process_client_def Let_def LS_ARR_SIZE_def ls_inv_def)

lemma letters_bad_index_reads_out_of_bounds_witness:
  "\<exists>s'. ls_process_client (ls_req CHR ''w'' 99) 0 ls_write_state = Cont s' \<and>
     ls_process_client (ls_req CHR ''w'' 99) 0 s' = UB"
  using letters_bad_index_reads_out_of_bounds [OF ls_write_reach, of 0] ls_write_facts by simp

text \<open>
  The two queue semaphores are zero in every reachable state, because \<open>start_rd\<close> and
  \<open>start_wr\<close> raise and lower them inside one atomic \<open>semop\<close>. A waiting writer is thus invisible
  to readers: whenever no writer is inside, a reader enters, however many writers wait.
\<close>

lemma letters_queues_have_no_effect:
  assumes "reach ls_init ls_step s" "int (length (ls_threads s)) \<le> SEMVMX"
    "i < length (ls_threads s)" "l_pc (ls_threads s ! i) = L_start_rd"
    "\<forall>t \<in> set (ls_threads s). ls_phase (l_pc t) \<noteq> Writing"
  shows "ls_sems s ! 0 = 0 \<and> ls_sems s ! 1 = 0 \<and> (\<exists>s'. ls_process_client inp i s = Cont s')"
proof -
  have c: "rw_coupled ls_enc (ls_sems s) (ls_phases s)" and i: "i < length (ls_phases s)"
    and n: "int (length (ls_phases s)) \<le> SEMVMX" and out: "ls_phases s ! i = RwOut"
    using lt.reach_inv [OF assms(1)] assms(2-4) by (simp_all add: ls_inv_def ls_coupled_def)
  have "writers (ls_phases s) = 0" using assms(5) by (auto simp: ls_phases_def cnt_map cnt_0_iff)
  then have "\<exists>s'. ls_process_client inp i s = Cont s'"
    using ls_lock.start_never_fails(1) [OF c n i out] assms(4)
    by (simp add: ls_process_client_def ls_semop_def)
  then show ?thesis using c by (simp add: rw_coupled_def ls_enc_def)
qed

text \<open>A reader enters beside a reader while a writer has been waiting for the lock.\<close>

definition ls_queue_state :: ls where
  "ls_queue_state = the (run_actions ls_exec [LAccept 10, LClient 3 (ls_req CHR ''r'' 0),
     LClient 3 (ls_req CHR ''r'' 0)] ls_demo_state)"

lemma ls_queue_run: "run_actions ls_exec [LAccept 10, LClient 3 (ls_req CHR ''r'' 0),
     LClient 3 (ls_req CHR ''r'' 0)] ls_demo_state = Some ls_queue_state"
  by code_simp

lemma ls_queue_facts:
  "length (ls_threads ls_queue_state) = 4" "l_pc (ls_threads ls_queue_state ! 3) = L_start_rd"
  "l_pc (ls_threads ls_queue_state ! 2) = L_start_wr"
  "\<forall>t \<in> set (ls_threads ls_queue_state). ls_phase (l_pc t) \<noteq> Writing"
  by code_simp+

lemma letters_queues_have_no_effect_witness:
  "l_pc (ls_threads ls_queue_state ! 2) = L_start_wr \<and>
   (\<exists>s'. ls_process_client (ls_req CHR ''r'' 0) 3 ls_queue_state = Cont s')"
  using letters_queues_have_no_effect [OF ls_sched.run_reach_from [OF ls_demo_reach ls_queue_run] _ _
      ls_queue_facts(2,4)] ls_queue_facts by (simp add: SEMVMX_def)

text \<open>
  Two connections accepted before the first thread has fetched its argument are both served
  on the second descriptor: the address of the same variable is passed to both threads, and
  the first connection is never read.
\<close>

lemma letters_connfd_race:
  "\<exists>s. reach ls_init ls_step s \<and> length (ls_threads s) = 2 \<and>
     l_pc (ls_threads s ! 0) = L_recv \<and> l_connfd (ls_threads s ! 0) = 8 \<and>
     l_pc (ls_threads s ! 1) = L_recv \<and> l_connfd (ls_threads s ! 1) = 8"
proof -
  let ?es = "[LAccept 7, LAccept 8, LClient 0 (ls_req CHR ''r'' 0), LClient 1 (ls_req CHR ''r'' 0)]"
  let ?s = "the (run_actions ls_exec ?es ls_boot)"
  have run: "run_actions ls_exec ?es ls_boot = Some ?s" by code_simp
  have len: "length (ls_threads ?s) = 2" by code_simp
  have t0: "l_pc (ls_threads ?s ! 0) = L_recv \<and> l_connfd (ls_threads ?s ! 0) = 8" by code_simp
  have t1: "l_pc (ls_threads ?s ! 1) = L_recv \<and> l_connfd (ls_threads ?s ! 1) = 8" by code_simp
  with t0 len ls_sched.run_reach [OF run] show ?thesis by blast
qed

section \<open>The client\<close>

text \<open>
  \<open>request\<close> of \<open>client.c\<close>: the first non-blank letter of the reply (\<open>None\<close> is the exit when
  all are taken), and the write request that carries its index.
\<close>

fun ls_pick_from :: "nat \<Rightarrow> nat \<Rightarrow> c_char list \<Rightarrow> nat option" where
  "ls_pick_from 0 i buf = None"
| "ls_pick_from (Suc n) i buf = (if buf ! i \<noteq> ls_blank then Some i else ls_pick_from n (Suc i) buf)"

definition ls_pick :: "c_char list \<Rightarrow> nat option" where
  "ls_pick buf = ls_pick_from LS_ARR_SIZE 0 buf"

definition ls_write_request :: "nat \<Rightarrow> c_char list \<Rightarrow> c_char list" where
  "ls_write_request index buf = buf[0 := ch CHR ''w'', 1 := of_nat index]"

lemma ls_pick_from_None: "ls_pick_from n i buf = None \<Longrightarrow> k < n \<Longrightarrow> buf ! (i + k) = ls_blank"
proof (induction n arbitrary: i k)
  case (Suc n)
  then show ?case using Suc.IH [of "Suc i" "k - 1"] by (cases k) (auto split: if_splits)
qed simp

lemma ls_pick_from_Some:
  "ls_pick_from n i buf = Some j \<Longrightarrow>
   i \<le> j \<and> j < i + n \<and> buf ! j \<noteq> ls_blank \<and> (\<forall>k. i + k < j \<longrightarrow> buf ! (i + k) = ls_blank)"
proof (induction n arbitrary: i)
  case (Suc n)
  show ?case
  proof (cases "buf ! i = ls_blank")
    case True
    then have IH: "Suc i \<le> j" "j < Suc i + n" "buf ! j \<noteq> ls_blank" "\<And>k. Suc i + k < j \<Longrightarrow> buf ! (Suc i + k) = ls_blank"
      using Suc.IH [of "Suc i"] Suc.prems by simp_all
    have "buf ! (i + k) = ls_blank" if "i + k < j" for k
      using that True IH(4) [of "k - 1"] by (cases k) auto
    then show ?thesis using IH by simp
  qed (use Suc.prems in auto)
qed simp

text \<open>
  The client asks for the first letter still free in the table it was sent, and gives up
  exactly when none is: its index is inside the table and survives the transfer in a \<open>char\<close>,
  so that the server's \<open>index\<close> is the one the client chose.
\<close>

lemma letters_client_picks_first_free:
  assumes "length buf = LS_BUF_SIZE" "take 20 buf = arr"
  shows "case ls_pick buf of
      None \<Rightarrow> (\<forall>k < 20. arr ! k = ls_blank)
    | Some j \<Rightarrow> j < 20 \<and> arr ! j \<noteq> ls_blank \<and> (\<forall>k < j. arr ! k = ls_blank) \<and>
        unat (ls_index_of (ls_write_request j buf)) = j"
proof -
  have "\<forall>j \<in> set [0..<20]. unat (word_of_int (sint (of_nat j :: c_char)) :: c_int) = j" by code_simp
  then have index: "unat (ls_index_of (ls_write_request j buf)) = j" if "j < 20" for j
    using that assms(1) by (simp add: ls_index_of_def ls_write_request_def LS_BUF_SIZE_def)
  have nth: "arr ! k = buf ! k" if "k < 20" for k using that assms(2) nth_take [of k 20 buf] by simp
  show ?thesis
  proof (cases "ls_pick buf")
    case None
    then have "arr ! k = ls_blank" if "k < 20" for k
      using that ls_pick_from_None [of 20 0 buf k] nth [OF that] by (simp only: ls_pick_def LS_ARR_SIZE_def add_0)
    then show ?thesis using None by simp
  next
    case (Some j)
    then have "ls_pick_from 20 0 buf = Some j" by (simp only: ls_pick_def LS_ARR_SIZE_def)
    from ls_pick_from_Some [OF this] have j: "j < 20" "buf ! j \<noteq> ls_blank" "\<forall>k < j. buf ! k = ls_blank"
      by simp_all
    then show ?thesis using Some index [OF j(1)] nth by simp
  qed
qed

lemma letters_client_picks_first_free_witness:
  "ls_pick (ls_blank # replicate 199 97) = Some 1 \<and>
   unat (ls_index_of (ls_write_request 1 (ls_blank # replicate 199 97))) = 1"
proof -
  have "ls_pick (ls_blank # replicate 199 97) = Some 1" by code_simp
  then show ?thesis
    using letters_client_picks_first_free [of "ls_blank # replicate 199 97", OF _ refl]
    by (simp add: LS_BUF_SIZE_def)
qed

end
