(* ===== verification/Reader_Writer.thy ===== *)
theory Reader_Writer
  imports RW_Lock
begin

text \<open>
  \<open>sem_05/lab_03/reader-writer/main.c\<close>: five writer and two reader processes over one shared
  character, synchronised by four semaphores. \<open>flag\<close> and \<open>count\<close> are private to each process
  after \<open>fork\<close>; the semaphore set and the character are shared.
\<close>

section \<open>State\<close>

definition start_read :: "sembuf list" where
  "start_read = [sb 2 1, sb 1 0, sb 3 0, sb 0 1, sb 2 (-1)]"

definition stop_read :: "sembuf list" where
  "stop_read = [sb 0 (-1)]"

definition start_write :: "sembuf list" where
  "start_write = [sb 3 1, sb 0 0, sb 1 0, sb 1 1, sb 3 (-1)]"

definition stop_write :: "sembuf list" where
  "stop_write = [sb 1 (-1)]"

lemmas rw_ops = start_read_def stop_read_def start_write_def stop_write_def

datatype rw_pc = R_loop | R_start | R_print | R_stop
  | W_loop | W_start | W_inc | W_wrap | W_reset | W_kill | W_print | W_stop
  | Gone int

record rw_proc =
  rp_pc :: rw_pc
  rp_flag :: bool
  rp_count :: int
  rp_term :: bool

datatype rw_line = ReadLn nat c_char | WriteLn nat c_char

record rws =
  rw_sems :: semset
  rw_addr :: c_char
  rw_procs :: "rw_proc list"
  rw_out :: "rw_line list"

section \<open>Operations\<close>

definition rw_set :: "nat \<Rightarrow> rw_proc \<Rightarrow> rws \<Rightarrow> rws" where
  "rw_set i p s = s\<lparr>rw_procs := (rw_procs s)[i := p]\<rparr>"

text \<open>A \<open>semop\<close> that fails ends the calling process with status 1.\<close>

definition rw_semop :: "sembuf list \<Rightarrow> nat \<Rightarrow> rw_pc \<Rightarrow> rws \<Rightarrow> rws outcome" where
  "rw_semop ops i pc s =
     (let p = rw_procs s ! i in
      case semop ops (rw_sems s) of
        Done vs \<Rightarrow> Cont (rw_set i (p\<lparr>rp_pc := pc\<rparr>) (s\<lparr>rw_sems := vs\<rparr>))
      | Block \<Rightarrow> Blocked
      | Fail e \<Rightarrow> Cont (rw_set i (p\<lparr>rp_pc := Gone 1\<rparr>) s))"

definition rw_signal_all :: "rws \<Rightarrow> rws" where
  "rw_signal_all s = s\<lparr>rw_procs := map (\<lambda>p. p\<lparr>rp_term := True\<rparr>) (rw_procs s)\<rparr>"

text \<open>The next statement of process \<open>i\<close>, in \<open>reader\<close> or \<open>writer\<close>.\<close>

definition rw_run :: "nat \<Rightarrow> rws \<Rightarrow> rws outcome" where
  "rw_run i s =
     (let p = rw_procs s ! i; go = (\<lambda>pc. rw_set i (p\<lparr>rp_pc := pc\<rparr>)) in
      case rp_pc p of
        R_loop \<Rightarrow> Cont (go (if rp_flag p then R_start else Gone 0) s)
      | R_start \<Rightarrow> rw_semop start_read i R_print s
      | R_print \<Rightarrow> Cont (go R_stop (s\<lparr>rw_out := rw_out s @ [ReadLn i (rw_addr s)]\<rparr>))
      | R_stop \<Rightarrow> rw_semop stop_read i R_loop s
      | W_loop \<Rightarrow> Cont (go (if rp_flag p then W_start else Gone 0) s)
      | W_start \<Rightarrow> rw_semop start_write i W_inc s
      | W_inc \<Rightarrow> Cont (go W_wrap (s\<lparr>rw_addr := rw_addr s + 1\<rparr>))
      | W_wrap \<Rightarrow>
          (if rw_addr s = ch CHR ''z'' + 1
           then Cont (rw_set i (p\<lparr>rp_count := rp_count p + 1, rp_pc := W_reset\<rparr>) s)
           else Cont (go W_kill s))
      | W_reset \<Rightarrow> Cont (go W_kill (s\<lparr>rw_addr := ch CHR ''a''\<rparr>))
      | W_kill \<Rightarrow>
          (if rp_count p = 2
           then (let s1 = rw_signal_all s in Cont (rw_set i ((rw_procs s1 ! i)\<lparr>rp_pc := W_print\<rparr>) s1))
           else Cont (go W_print s))
      | W_print \<Rightarrow> Cont (go W_stop (s\<lparr>rw_out := rw_out s @ [WriteLn i (rw_addr s)]\<rparr>))
      | W_stop \<Rightarrow> rw_semop stop_write i W_loop s
      | Gone c \<Rightarrow> Blocked)"

text \<open>
  Delivery of a pending SIGTERM: \<open>sig_handler\<close> clears the flag; a process asleep in its start
  operation is interrupted and leaves through the error branch, because \<open>semop\<close> is never
  restarted.
\<close>

definition rw_asleep :: "nat \<Rightarrow> rws \<Rightarrow> bool" where
  "rw_asleep i s =
     (case rp_pc (rw_procs s ! i) of
        R_start \<Rightarrow> semop start_read (rw_sems s) = Block
      | W_start \<Rightarrow> semop start_write (rw_sems s) = Block
      | _ \<Rightarrow> False)"

definition rw_sig_handler :: "nat \<Rightarrow> rws \<Rightarrow> rws" where
  "rw_sig_handler i s =
     (let p = (rw_procs s ! i)\<lparr>rp_flag := False, rp_term := False\<rparr> in
      rw_set i (if rw_asleep i s then p\<lparr>rp_pc := Gone 1\<rparr> else p) s)"

inductive rw_step :: "rws \<Rightarrow> rws \<Rightarrow> bool" where
  run: "i < length (rw_procs s) \<Longrightarrow> rw_run i s = Cont s' \<Longrightarrow> rw_step s s'"
| deliver: "i < length (rw_procs s) \<Longrightarrow> rp_term (rw_procs s ! i) \<Longrightarrow> rw_step s (rw_sig_handler i s)"

definition rw_forked :: "rw_pc \<Rightarrow> rw_proc" where
  "rw_forked pc = \<lparr>rp_pc = pc, rp_flag = True, rp_count = 0, rp_term = False\<rparr>"

definition rw_boot :: rws where
  "rw_boot = \<lparr>rw_sems = [0, 0, 0, 0], rw_addr = ch CHR ''a'' - 1,
     rw_procs = replicate 5 (rw_forked W_loop) @ replicate 2 (rw_forked R_loop), rw_out = []\<rparr>"

abbreviation rw_init :: "rws \<Rightarrow> bool" where
  "rw_init s \<equiv> s = rw_boot"

section \<open>The lock\<close>

definition rw_enc :: "int \<Rightarrow> int \<Rightarrow> semset" where
  "rw_enc r w = [r, w, 0, 0]"

interpretation rwl: rw_lock start_read stop_read start_write stop_write rw_enc
  by unfold_locales (auto simp: rw_ops rw_enc_def semop_eval numeral_nat)

fun rw_phase_of :: "rw_pc \<Rightarrow> rw_phase" where
  "rw_phase_of R_print = Reading"
| "rw_phase_of R_stop = Reading"
| "rw_phase_of W_inc = Writing"
| "rw_phase_of W_wrap = Writing"
| "rw_phase_of W_reset = Writing"
| "rw_phase_of W_kill = Writing"
| "rw_phase_of W_print = Writing"
| "rw_phase_of W_stop = Writing"
| "rw_phase_of _ = RwOut"

definition rw_phases :: "rws \<Rightarrow> rw_phase list" where
  "rw_phases s = map (\<lambda>p. rw_phase_of (rp_pc p)) (rw_procs s)"

lemma rw_phases_simps [simp]:
  "length (rw_phases s) = length (rw_procs s)"
  "i < length (rw_procs s) \<Longrightarrow> rw_phases s ! i = rw_phase_of (rp_pc (rw_procs s ! i))"
  "rw_phases (rw_set i p s) = (rw_phases s)[i := rw_phase_of (rp_pc p)]"
  "rw_phases (s\<lparr>rw_sems := vs\<rparr>) = rw_phases s" "rw_phases (s\<lparr>rw_addr := c\<rparr>) = rw_phases s"
  "rw_phases (s\<lparr>rw_out := l\<rparr>) = rw_phases s" "rw_phases (rw_signal_all s) = rw_phases s"
  by (simp_all add: rw_phases_def rw_set_def rw_signal_all_def map_update)

lemma rw_sel [simp]:
  "rw_sems (rw_set i p s) = rw_sems s" "rw_addr (rw_set i p s) = rw_addr s"
  "rw_out (rw_set i p s) = rw_out s" "rw_procs (rw_set i p s) = (rw_procs s)[i := p]"
  "rw_sems (rw_signal_all s) = rw_sems s" "rw_addr (rw_signal_all s) = rw_addr s"
  "rw_out (rw_signal_all s) = rw_out s" "length (rw_procs (rw_signal_all s)) = length (rw_procs s)"
  by (simp_all add: rw_set_def rw_signal_all_def)

definition rw_coupling :: "rws \<Rightarrow> bool" where
  "rw_coupling s \<longleftrightarrow> rw_coupled rw_enc (rw_sems s) (rw_phases s) \<and> int (length (rw_procs s)) \<le> SEMVMX"

text \<open>With at most \<open>SEMVMX\<close> processes the semaphore operations block or succeed; they never fail.\<close>

lemma rw_semop_start:
  assumes "rw_coupling s" "i < length (rw_procs s)" "rw_phase_of (rp_pc (rw_procs s ! i)) = RwOut"
    "ops = start_read \<or> ops = start_write" "rw_semop ops i pc s = Cont s'"
  obtains vs where "semop ops (rw_sems s) = Done vs"
    "s' = rw_set i ((rw_procs s ! i)\<lparr>rp_pc := pc\<rparr>) (s\<lparr>rw_sems := vs\<rparr>)"
proof -
  have c: "rw_coupled rw_enc (rw_sems s) (rw_phases s)" "int (length (rw_phases s)) \<le> SEMVMX"
    "i < length (rw_phases s)" "rw_phases s ! i = RwOut"
    using assms(1-3) by (simp_all add: rw_coupling_def)
  note laws = rwl.start_never_fails [OF c]
  show thesis
    using assms(4,5) laws that by (auto simp: rw_semop_def Let_def split: semop_result.splits if_splits)
qed

lemma rw_run_coupled:
  assumes "rw_coupling s" "i < length (rw_procs s)" "rw_run i s = Cont s'"
  shows "rw_coupling s' \<and> (rw_spec_step (rw_phases s) (rw_phases s') \<or> rw_phases s' = rw_phases s)"
proof -
  let ?p = "rw_procs s ! i"
  have c: "rw_coupled rw_enc (rw_sems s) (rw_phases s)" and i: "i < length (rw_phases s)"
    using assms(1,2) by (simp_all add: rw_coupling_def)
  have keep: "(rw_phases s)[i := ph] = rw_phases s" if "ph = rw_phase_of (rp_pc ?p)" for ph
    using that assms(2) list_update_id [of "rw_phases s" i] by simp
  show ?thesis
  proof (cases "rp_pc ?p")
    case R_start
    then have "rw_semop start_read i R_print s = Cont s'" "rw_phase_of (rp_pc ?p) = RwOut"
      using assms(3) by (simp_all add: rw_run_def Let_def)
    then obtain vs where "semop start_read (rw_sems s) = Done vs"
      "s' = rw_set i (?p\<lparr>rp_pc := R_print\<rparr>) (s\<lparr>rw_sems := vs\<rparr>)"
      using rw_semop_start [OF assms(1,2)] by blast
    then show ?thesis
      using R_start assms(1,2) rwl.start_rd_done [OF c _ i] rw_spec_step.begin_read [OF i]
      by (auto simp: rw_coupling_def)
  next
    case W_start
    then have "rw_semop start_write i W_inc s = Cont s'" "rw_phase_of (rp_pc ?p) = RwOut"
      using assms(3) by (simp_all add: rw_run_def Let_def)
    then obtain vs where "semop start_write (rw_sems s) = Done vs"
      "s' = rw_set i (?p\<lparr>rp_pc := W_inc\<rparr>) (s\<lparr>rw_sems := vs\<rparr>)"
      using rw_semop_start [OF assms(1,2)] by blast
    then show ?thesis
      using W_start assms(1,2) rwl.start_wr_done [OF c _ i] rw_spec_step.begin_write [OF i]
      by (auto simp: rw_coupling_def)
  next
    case R_stop
    then show ?thesis
      using assms rwl.stop_rd_done [OF c i] rw_spec_step.end_read [OF i]
      by (auto simp: rw_run_def rw_coupling_def rw_semop_def Let_def)
  next
    case W_stop
    then show ?thesis
      using assms rwl.stop_wr_done [OF c i] rw_spec_step.end_write [OF i]
      by (auto simp: rw_run_def rw_coupling_def rw_semop_def Let_def)
  next
    case W_kill
    then show ?thesis
      using assms keep c by (auto simp: rw_run_def rw_coupling_def Let_def split: if_splits)
  qed (use assms keep c in \<open>auto simp: rw_run_def rw_coupling_def Let_def split: if_splits\<close>)
qed

lemma rw_handler_phases:
  assumes "i < length (rw_procs s)"
  shows "rw_phases (rw_sig_handler i s) = rw_phases s"
proof -
  have "rw_phase_of (rp_pc (rw_procs s ! i)) = RwOut" if "rw_asleep i s"
    using that by (auto simp: rw_asleep_def split: rw_pc.splits)
  then show ?thesis
    using assms list_update_id [of "rw_phases s" i] by (auto simp: rw_sig_handler_def Let_def)
qed

section \<open>The shared letter\<close>

definition rw_next :: "c_char \<Rightarrow> c_char" where
  "rw_next c = (if c = ch CHR ''z'' then ch CHR ''a'' else c + 1)"

text \<open>
  A history of printed lines is consistent if every write prints the letter after the one
  written last, and every read prints the one written last.
\<close>

fun rw_hist :: "c_char \<Rightarrow> rw_line list \<Rightarrow> bool" where
  "rw_hist prev [] \<longleftrightarrow> True"
| "rw_hist prev (ReadLn i c # ls) \<longleftrightarrow> c = prev \<and> rw_hist prev ls"
| "rw_hist prev (WriteLn i c # ls) \<longleftrightarrow> c = rw_next prev \<and> rw_hist c ls"

fun rw_last :: "c_char \<Rightarrow> rw_line list \<Rightarrow> c_char" where
  "rw_last prev [] = prev"
| "rw_last prev (ReadLn i c # ls) = rw_last prev ls"
| "rw_last prev (WriteLn i c # ls) = rw_last c ls"

lemma rw_hist_append [simp]: "rw_hist prev (xs @ ys) \<longleftrightarrow> rw_hist prev xs \<and> rw_hist (rw_last prev xs) ys"
  by (induction prev xs rule: rw_hist.induct) auto

lemma rw_last_append [simp]: "rw_last prev (xs @ ys) = rw_last (rw_last prev xs) ys"
  by (induction prev xs rule: rw_last.induct) auto

abbreviation rw_cur :: "rws \<Rightarrow> c_char" where
  "rw_cur s \<equiv> rw_last (ch CHR ''a'' - 1) (rw_out s)"

text \<open>The shared character against the letter written last, at each point of a writer.\<close>

definition rw_letter_ok :: "c_char \<Rightarrow> c_char \<Rightarrow> rw_pc \<Rightarrow> bool" where
  "rw_letter_ok addr cur pc =
     (case pc of
        W_inc \<Rightarrow> addr = cur
      | W_wrap \<Rightarrow> addr = cur + 1
      | W_reset \<Rightarrow> cur = ch CHR ''z''
      | W_kill \<Rightarrow> addr = rw_next cur
      | W_print \<Rightarrow> addr = rw_next cur
      | W_stop \<Rightarrow> addr = cur
      | _ \<Rightarrow> True)"

definition rw_data_ok :: "rws \<Rightarrow> bool" where
  "rw_data_ok s \<longleftrightarrow> rw_hist (ch CHR ''a'' - 1) (rw_out s) \<and>
     (writers (rw_phases s) = 0 \<longrightarrow> rw_addr s = rw_cur s) \<and>
     (\<forall>p \<in> set (rw_procs s). rw_letter_ok (rw_addr s) (rw_cur s) (rp_pc p))"

definition rw_inv :: "rws \<Rightarrow> bool" where
  "rw_inv s \<longleftrightarrow> rw_coupling s \<and> rw_data_ok s"

lemma rw_letter_ok_out: "rw_phase_of pc \<noteq> Writing \<Longrightarrow> rw_letter_ok addr cur pc"
  by (cases pc) (simp_all add: rw_letter_ok_def)

text \<open>A process that is not a writer inside the lock leaves the letter alone.\<close>

lemma rw_data_other:
  assumes "rw_data_ok s" "i < length (rw_procs s)" "rw_phase_of (rp_pc (rw_procs s ! i)) \<noteq> Writing"
    "rw_phase_of (rp_pc p) \<noteq> Writing" "rw_addr s' = rw_addr s" "rw_procs s' = rw_procs s"
    "rw_hist (ch CHR ''a'' - 1) (rw_out s')" "rw_cur s' = rw_cur s"
  shows "rw_data_ok (rw_set i p s')"
proof -
  have "rw_phases s' = rw_phases s" using assms(6) by (simp add: rw_phases_def)
  then have "writers (rw_phases (rw_set i p s')) = writers (rw_phases s)"
    using assms(2-4) by (simp add: cnt_update)
  moreover have "\<forall>q \<in> set ((rw_procs s)[i := p]). rw_letter_ok (rw_addr s) (rw_cur s) (rp_pc q)"
    using assms(1,4) rw_letter_ok_out set_update_subset_insert [of "rw_procs s" i p]
    by (auto simp: rw_data_ok_def)
  ultimately show ?thesis using assms by (simp add: rw_data_ok_def)
qed

text \<open>The writer inside is alone, so its step only has to establish its own next condition.\<close>

lemma rw_data_writer:
  assumes "rw_coupling s" "i < length (rw_procs s)" "rw_phase_of (rp_pc (rw_procs s ! i)) = Writing"
    "map rp_pc (rw_procs s') = map rp_pc (rw_procs s)" "rw_hist (ch CHR ''a'' - 1) (rw_out s')"
    "rw_letter_ok (rw_addr s') (rw_cur s') (rp_pc p)"
    "rw_phase_of (rp_pc p) \<noteq> Writing \<longrightarrow> rw_addr s' = rw_cur s'"
  shows "rw_data_ok (rw_set i p s')"
proof -
  have len: "length (rw_procs s') = length (rw_procs s)" using assms(4) map_eq_imp_length_eq by blast
  have pc: "rp_pc (rw_procs s' ! j) = rp_pc (rw_procs s ! j)" if "j < length (rw_procs s)" for j
    using that assms(4) len by (metis nth_map)
  have others: "rw_phase_of (rp_pc (rw_procs s' ! j)) = RwOut" if "j < length (rw_procs s)" "j \<noteq> i" for j
    using rw_excl_writer_alone [of "rw_phases s" i j] assms(1-3) that pc [OF that(1)]
    by (simp add: rw_coupling_def rw_coupled_def)
  have "\<forall>q \<in> set ((rw_procs s')[i := p]). rw_letter_ok (rw_addr s') (rw_cur s') (rp_pc q)"
  proof
    fix q
    assume "q \<in> set ((rw_procs s')[i := p])"
    then obtain j where j: "j < length (rw_procs s')" "q = (if j = i then p else rw_procs s' ! j)"
      by (auto simp: in_set_conv_nth nth_list_update split: if_splits)
    then show "rw_letter_ok (rw_addr s') (rw_cur s') (rp_pc q)"
      using assms(6) others [of j] len by (cases "j = i") (auto intro: rw_letter_ok_out)
  qed
  moreover have "rw_phase_of (rp_pc p) \<noteq> Writing" if "writers (rw_phases (rw_set i p s')) = 0"
    using no_writer [OF that, of i] assms(2) len by simp
  ultimately show ?thesis using assms(5,7) by (auto simp: rw_data_ok_def)
qed

lemma rw_data_enter:
  assumes "rw_data_ok s" "writers (rw_phases s) = 0" "i < length (rw_procs s)" "rp_pc p = W_inc"
  shows "rw_data_ok (rw_set i p (s\<lparr>rw_sems := vs\<rparr>))"
proof -
  have addr: "rw_addr s = rw_cur s" using assms(1,2) by (simp add: rw_data_ok_def)
  then have "\<forall>q \<in> set ((rw_procs s)[i := p]). rw_letter_ok (rw_addr s) (rw_cur s) (rp_pc q)"
    using assms set_update_subset_insert [of "rw_procs s" i p]
    by (auto simp: rw_data_ok_def rw_letter_ok_def)
  then show ?thesis using assms(1) addr by (simp add: rw_data_ok_def)
qed

lemma rw_run_writing:
  assumes "rw_coupling s" "rw_data_ok s" "i < length (rw_procs s)" "rw_run i s = Cont s'"
    "rw_phase_of (rp_pc (rw_procs s ! i)) = Writing"
  shows "rw_data_ok s'"
proof -
  let ?p = "rw_procs s ! i"
  have c: "rw_coupled rw_enc (rw_sems s) (rw_phases s)" and i: "i < length (rw_phases s)"
    using assms(1,3) by (simp_all add: rw_coupling_def)
  have ok: "rw_letter_ok (rw_addr s) (rw_cur s) (rp_pc ?p)" and h: "rw_hist (ch CHR ''a'' - 1) (rw_out s)"
    using assms(2,3) by (simp_all add: rw_data_ok_def)
  note wr = rw_data_writer [OF assms(1,3,5)]
  have sig: "map rp_pc (rw_procs (rw_signal_all s)) = map rp_pc (rw_procs s)"
    by (simp add: rw_signal_all_def)
  show ?thesis
  proof (cases "rp_pc ?p")
    case W_stop
    then show ?thesis
      using assms(3,4) ok h rwl.stop_wr_done [OF c i]
      by (auto simp: rw_run_def rw_semop_def Let_def rw_letter_ok_def intro!: wr)
  next
    case W_kill
    then show ?thesis
      using assms(3,4) ok h sig
      by (auto simp: rw_run_def Let_def rw_letter_ok_def split: if_splits intro!: wr)
  next
    case W_wrap
    have "ch CHR ''z'' + 1 = (123 :: c_char)" "ch CHR ''z'' = (122 :: c_char)" by simp_all
    then have "rw_cur s = ch CHR ''z'' \<longleftrightarrow> rw_cur s + 1 = ch CHR ''z'' + 1" by simp
    then show ?thesis
      using W_wrap assms(3,4) ok h
      by (auto simp: rw_run_def Let_def rw_letter_ok_def rw_next_def simp del: of_char_eq_iff
          split: if_splits intro!: wr)
  qed (use assms(3-5) ok h in \<open>auto simp: rw_run_def Let_def rw_letter_ok_def rw_next_def intro!: wr\<close>)
qed

lemma rw_run_not_writing:
  assumes "rw_coupling s" "rw_data_ok s" "i < length (rw_procs s)" "rw_run i s = Cont s'"
    "rw_phase_of (rp_pc (rw_procs s ! i)) \<noteq> Writing"
  shows "rw_data_ok s'"
proof -
  let ?p = "rw_procs s ! i"
  have c: "rw_coupled rw_enc (rw_sems s) (rw_phases s)" and i: "i < length (rw_phases s)"
    using assms(1,3) by (simp_all add: rw_coupling_def)
  have h: "rw_hist (ch CHR ''a'' - 1) (rw_out s)"
    and addr: "writers (rw_phases s) = 0 \<Longrightarrow> rw_addr s = rw_cur s"
    using assms(2) by (simp_all add: rw_data_ok_def)
  note other = rw_data_other [OF assms(2,3,5)]
  show ?thesis
  proof (cases "rp_pc ?p")
    case W_start
    then obtain vs where vs: "semop start_write (rw_sems s) = Done vs"
      "s' = rw_set i (?p\<lparr>rp_pc := W_inc\<rparr>) (s\<lparr>rw_sems := vs\<rparr>)"
      using assms(4) rw_semop_start [OF assms(1,3), of start_write W_inc s'] by (auto simp: rw_run_def Let_def)
    have "writers (rw_phases s) = 0"
      using rwl.start_wr_done(1) [OF c vs(1) i] W_start assms(3) by simp
    then show ?thesis using rw_data_enter [OF assms(2) _ assms(3)] vs(2) by simp
  next
    case R_print
    then have "readers (rw_phases s) \<noteq> 0" using no_reader [of "rw_phases s" i] assms(3) by auto
    then have "writers (rw_phases s) = 0" using rwl.coupled_cases(1) [OF c] by auto
    then show ?thesis
      using R_print assms(4) h addr by (auto simp: rw_run_def Let_def intro!: other)
  next
    case R_start
    then obtain vs where "semop start_read (rw_sems s) = Done vs"
      "s' = rw_set i (?p\<lparr>rp_pc := R_print\<rparr>) (s\<lparr>rw_sems := vs\<rparr>)"
      using assms(4) rw_semop_start [OF assms(1,3), of start_read R_print s'] by (auto simp: rw_run_def Let_def)
    then show ?thesis using h by (auto intro!: other)
  next
    case R_stop
    then show ?thesis
      using assms(3,4) h rwl.stop_rd_done [OF c i]
      by (auto simp: rw_run_def rw_semop_def Let_def intro!: other)
  qed (use assms(4,5) h in \<open>auto simp: rw_run_def Let_def split: if_splits intro!: other\<close>)
qed

lemma rw_deliver_data:
  assumes "rw_data_ok s" "i < length (rw_procs s)"
  shows "rw_data_ok (rw_sig_handler i s)"
proof -
  let ?p = "(rw_procs s ! i)\<lparr>rp_flag := False, rp_term := False\<rparr>"
  let ?q = "if rw_asleep i s then ?p\<lparr>rp_pc := Gone 1\<rparr> else ?p"
  have q: "rw_letter_ok (rw_addr s) (rw_cur s) (rp_pc ?q)"
    using assms by (auto simp: rw_data_ok_def rw_letter_ok_def [of _ _ "Gone 1"])
  have "\<forall>r \<in> set ((rw_procs s)[i := ?q]). rw_letter_ok (rw_addr s) (rw_cur s) (rp_pc r)"
    using assms q set_update_subset_insert [of "rw_procs s" i ?q] unfolding rw_data_ok_def by blast
  moreover have "rw_sig_handler i s = rw_set i ?q s" by (simp only: rw_sig_handler_def Let_def)
  moreover note rw_handler_phases [OF assms(2)]
  ultimately show ?thesis using assms(1) by (simp add: rw_data_ok_def)
qed

lemma rw_step_inv: "rw_step s s' \<Longrightarrow> rw_inv s \<Longrightarrow> rw_inv s'"
proof (induction rule: rw_step.induct)
  case (run i s s')
  then show ?case
    using rw_run_coupled [of s i s'] rw_run_writing [of s i s'] rw_run_not_writing [of s i s']
    unfolding rw_inv_def by blast
next
  case (deliver i s)
  have "rw_sems (rw_sig_handler i s) = rw_sems s" "length (rw_procs (rw_sig_handler i s)) = length (rw_procs s)"
    by (simp_all add: rw_sig_handler_def Let_def)
  then show ?case
    using deliver rw_handler_phases [of i s] rw_deliver_data [of s i] by (simp add: rw_inv_def rw_coupling_def)
qed

lemma rw_boot_inv: "rw_inv rw_boot"
proof -
  have ph: "rw_phases rw_boot = replicate 7 RwOut" by code_simp
  have "cnt P (replicate 7 RwOut) = (if P RwOut then 7 else 0)" for P by (simp add: eval_nat_numeral)
  then have z: "writers (replicate 7 RwOut) = 0" "readers (replicate 7 RwOut) = 0" by simp_all
  have "rw_coupling rw_boot"
    unfolding rw_coupling_def rw_coupled_def ph rw_excl_def z
    by (simp add: rw_boot_def rw_enc_def SEMVMX_def)
  moreover have "rw_data_ok rw_boot"
    by (auto simp: rw_data_ok_def rw_boot_def rw_forked_def rw_letter_ok_def)
  ultimately show ?thesis by (simp add: rw_inv_def)
qed

interpretation rws: refinement rw_init rw_step rw_inv rw_spec_init rw_spec_step rw_phases
proof unfold_locales
  show "rw_inv s" if "s = rw_boot" for s using that by (simp add: rw_boot_inv)
  show "rw_spec_init (rw_phases s)" if "s = rw_boot" for s
    using that by (auto simp: rw_spec_init_def rw_phases_def rw_boot_def rw_forked_def)
  show "rw_inv s'" if "rw_inv s" "rw_step s s'" for s s' using that by (auto intro: rw_step_inv)
  show "rw_spec_step (rw_phases s) (rw_phases s') \<or> rw_phases s' = rw_phases s"
    if "rw_inv s" "rw_step s s'" for s s'
    using that(2,1)
  proof (induction rule: rw_step.induct)
    case (run i s s')
    then show ?case using rw_run_coupled [of s i s'] by (simp add: rw_inv_def)
  qed (simp add: rw_handler_phases)
qed

section \<open>Executing schedules\<close>

datatype rw_event = Run nat | Deliver nat

fun rw_exec :: "rw_event \<Rightarrow> rws \<Rightarrow> rws option" where
  "rw_exec (Run i) s =
     (if i < length (rw_procs s) then (case rw_run i s of Cont s' \<Rightarrow> Some s' | _ \<Rightarrow> None) else None)"
| "rw_exec (Deliver i) s =
     (if i < length (rw_procs s) \<and> rp_term (rw_procs s ! i) then Some (rw_sig_handler i s) else None)"

interpretation rw_sched: scheduler rw_exec rw_step rw_boot
proof unfold_locales
  show "rw_exec e s = Some t \<Longrightarrow> rw_step s t" for e s t
    by (cases e) (auto split: if_splits outcome.splits intro: rw_step.intros)
qed

text \<open>Writer 0 writes twice, then the two readers are inside together while writer 1 waits.\<close>

definition rw_demo :: "rw_event list" where
  "rw_demo = replicate 14 (Run 0) @ replicate 2 (Run 5) @ [Run 1] @ replicate 3 (Run 6) @ [Run 5]"

definition rw_demo_state :: rws where
  "rw_demo_state = the (run_actions rw_exec rw_demo rw_boot)"

lemma rw_demo_run: "run_actions rw_exec rw_demo rw_boot = Some rw_demo_state"
  by code_simp

lemmas rw_demo_reach = rw_sched.run_reach [OF rw_demo_run]

lemma rw_hist_range:
  "rw_hist c ls \<Longrightarrow> 96 \<le> uint c \<and> uint c \<le> 122 \<Longrightarrow> ReadLn i d \<in> set ls \<or> WriteLn i d \<in> set ls \<Longrightarrow>
   96 \<le> uint d \<and> uint d \<le> 122"
proof (induction c ls rule: rw_hist.induct)
  case (3 prev j e ls)
  have "96 \<le> uint (rw_next prev) \<and> uint (rw_next prev) \<le> 122"
  proof (cases "prev = 122")
    case False
    then have "uint prev \<noteq> 122" by (simp add: word_uint_eq_iff)
    then have "uint (prev + 1) = uint prev + 1" using 3(3) by (simp add: uint_word_ariths)
    then show ?thesis using 3(3) False \<open>uint prev \<noteq> 122\<close> by (simp add: rw_next_def)
  qed (simp add: rw_next_def)
  then show ?case using 3 by auto
qed auto

section \<open>Properties\<close>

text \<open>
  (C13) The shared letter behaves like an atomic register: in every reachable state the lines
  printed so far form a consistent history, in which each write prints the successor (cyclically
  from \<open>a\<close> to \<open>z\<close>) of the letter written before it, and each read prints the letter written
  last. Every letter printed is one of \<open>`\<close>, the initial value, and \<open>a\<close> to \<open>z\<close>: no reader ever sees
  the intermediate value after \<open>z\<close>.
\<close>

theorem rw_register_consistent:
  assumes "reach rw_init rw_step s"
  shows "rw_hist (ch CHR ''a'' - 1) (rw_out s) \<and>
    (\<forall>i c. ReadLn i c \<in> set (rw_out s) \<or> WriteLn i c \<in> set (rw_out s) \<longrightarrow> 96 \<le> uint c \<and> uint c \<le> 122)"
proof -
  have "rw_hist (ch CHR ''a'' - 1) (rw_out s)"
    using rws.reach_inv [OF assms] by (simp add: rw_inv_def rw_data_ok_def)
  then show ?thesis using rw_hist_range [of "ch CHR ''a'' - 1" "rw_out s"] by auto
qed

theorem rw_register_consistent_witness:
  "rw_hist (ch CHR ''a'' - 1) (rw_out rw_demo_state) \<and>
   rw_out rw_demo_state = [WriteLn 0 (ch CHR ''a''), WriteLn 0 (ch CHR ''b''), ReadLn 6 (ch CHR ''b''), ReadLn 5 (ch CHR ''b'')]"
proof -
  have "rw_out rw_demo_state = [WriteLn 0 (ch CHR ''a''), WriteLn 0 (ch CHR ''b''), ReadLn 6 (ch CHR ''b''), ReadLn 5 (ch CHR ''b'')]"
    by code_simp
  with rw_register_consistent [OF rw_demo_reach] show ?thesis by simp
qed

text \<open>
  (C14) The processes cannot deadlock: in every reachable state, as long as one of them has not
  ended, some process can execute its next statement.
\<close>

theorem rw_no_deadlock:
  assumes "reach rw_init rw_step s" "i < length (rw_procs s)" "\<forall>c. rp_pc (rw_procs s ! i) \<noteq> Gone c"
  shows "\<exists>j < length (rw_procs s). \<exists>s'. rw_run j s = Cont s'"
proof (cases "\<exists>j < length (rw_procs s). rw_phase_of (rp_pc (rw_procs s ! j)) \<noteq> RwOut")
  case True
  then obtain j where j: "j < length (rw_procs s)" "rw_phase_of (rp_pc (rw_procs s ! j)) \<noteq> RwOut" by blast
  have c: "rw_coupled rw_enc (rw_sems s) (rw_phases s)"
    using rws.reach_inv [OF assms(1)] by (simp add: rw_inv_def rw_coupling_def)
  have "\<exists>s'. rw_run j s = Cont s'"
    using j rwl.stop_rd_done [OF c, of j] rwl.stop_wr_done [OF c, of j]
    by (cases "rp_pc (rw_procs s ! j)") (auto simp: rw_run_def Let_def rw_semop_def)
  then show ?thesis using j(1) by blast
next
  case False
  then have out: "\<forall>p \<in> set (rw_phases s). p = RwOut" by (auto simp: rw_phases_def in_set_conv_nth)
  have c: "rw_coupled rw_enc (rw_sems s) (rw_phases s)"
    using rws.reach_inv [OF assms(1)] by (simp add: rw_inv_def rw_coupling_def)
  have "\<exists>s'. rw_run i s = Cont s'"
    using assms(2,3) False rwl.idle_enters [OF c out]
    by (cases "rp_pc (rw_procs s ! i)") (auto simp: rw_run_def Let_def rw_semop_def)
  then show ?thesis using assms(2) by blast
qed

theorem rw_no_deadlock_witness:
  "\<exists>j < length (rw_procs rw_demo_state). \<exists>s'. rw_run j rw_demo_state = Cont s'"
proof -
  have pc: "rp_pc (rw_procs rw_demo_state ! 1) = W_start" "length (rw_procs rw_demo_state) = 7"
    by code_simp+
  show ?thesis using rw_no_deadlock [OF rw_demo_reach, of 1] pc by simp
qed

end
