(* ===== verification/Prod_Cons.thy ===== *)
theory Prod_Cons
  imports PC_Protocol "HOL-Library.Sublist"
begin

text \<open>
  \<open>sem_05/lab_03/producer-consumer/main.c\<close>: producers and consumers, processes forked by
  \<open>main\<close>, that share one page holding two pointers, the next letter and the letters
  themselves. The semaphores count 26 slots, but neither pointer ever returns to the start of
  the buffer, so the letters lie on a tape that runs towards the end of the page.
\<close>

section \<open>State\<close>

definition pc_N :: int where "pc_N = 26"

text \<open>The page, and the first byte after the two pointers and the letter (\<open>start_addr\<close>).\<close>

definition page_size :: nat where "page_size = 4096"
definition tape_start :: nat where "tape_start = 17"

definition pc_start_produce :: "sembuf list" where
  "pc_start_produce = [sb 0 (-1), sb 2 (-1)]"

definition pc_stop_produce :: "sembuf list" where
  "pc_stop_produce = [sb 2 1, sb 1 1]"

definition pc_start_consume :: "sembuf list" where
  "pc_start_consume = [sb 1 (-1), sb 2 (-1)]"

definition pc_stop_consume :: "sembuf list" where
  "pc_stop_consume = [sb 2 1, sb 0 1]"

lemmas pc_ops = pc_start_produce_def pc_stop_produce_def pc_start_consume_def pc_stop_consume_def

datatype pc_pc = P_loop | P_start | P_letter | P_wrap | P_store | P_adv | P_print | P_stop
  | C_loop | C_start | C_print | C_adv | C_stop | Gone int

record pc_proc =
  pp_pc :: pc_pc
  pp_flag :: bool
  pp_symb :: c_char

datatype pc_line = PutLn nat c_char | GetLn nat c_char

record pcs =
  pc_sems :: semset
  pc_mem :: "c_char list"
  pc_pr :: nat
  pc_con :: nat
  pc_letter :: c_char
  pc_procs :: "pc_proc list"
  pc_out :: "pc_line list"

section \<open>Operations\<close>

definition pc_set :: "nat \<Rightarrow> pc_proc \<Rightarrow> pcs \<Rightarrow> pcs" where
  "pc_set i p s = s\<lparr>pc_procs := (pc_procs s)[i := p]\<rparr>"

definition pc_semop :: "sembuf list \<Rightarrow> nat \<Rightarrow> pc_pc \<Rightarrow> pcs \<Rightarrow> pcs outcome" where
  "pc_semop ops i pc s =
     (let p = pc_procs s ! i in
      case semop ops (pc_sems s) of
        Done vs \<Rightarrow> Cont (pc_set i (p\<lparr>pp_pc := pc\<rparr>) (s\<lparr>pc_sems := vs\<rparr>))
      | Block \<Rightarrow> Blocked
      | Fail e \<Rightarrow> Cont (pc_set i (p\<lparr>pp_pc := Gone 1\<rparr>) s))"

text \<open>The next statement of process \<open>i\<close>, in \<open>producer\<close> or \<open>consumer\<close>; an access outside the page
  is undefined.\<close>

definition pc_run :: "nat \<Rightarrow> pcs \<Rightarrow> pcs outcome" where
  "pc_run i s =
     (let p = pc_procs s ! i; go = (\<lambda>pc. pc_set i (p\<lparr>pp_pc := pc\<rparr>)) in
      case pp_pc p of
        P_loop \<Rightarrow> Cont (go (if pp_flag p then P_start else Gone 0) s)
      | P_start \<Rightarrow> pc_semop pc_start_produce i P_letter s
      | P_letter \<Rightarrow> Cont (pc_set i (p\<lparr>pp_pc := P_wrap, pp_symb := pc_letter s\<rparr>)
                       (s\<lparr>pc_letter := pc_letter s + 1\<rparr>))
      | P_wrap \<Rightarrow> Cont (go P_store (if pc_letter s = ch CHR ''z'' + 1 then s\<lparr>pc_letter := ch CHR ''a''\<rparr> else s))
      | P_store \<Rightarrow>
          (if pc_pr s < length (pc_mem s)
           then Cont (go P_adv (s\<lparr>pc_mem := (pc_mem s)[pc_pr s := pp_symb p]\<rparr>)) else UB)
      | P_adv \<Rightarrow> Cont (go P_print (s\<lparr>pc_pr := pc_pr s + 1\<rparr>))
      | P_print \<Rightarrow> Cont (go P_stop (s\<lparr>pc_out := pc_out s @ [PutLn i (pp_symb p)]\<rparr>))
      | P_stop \<Rightarrow> pc_semop pc_stop_produce i P_loop s
      | C_loop \<Rightarrow> Cont (go (if pp_flag p then C_start else Gone 0) s)
      | C_start \<Rightarrow> pc_semop pc_start_consume i C_print s
      | C_print \<Rightarrow>
          (if pc_con s < length (pc_mem s)
           then Cont (go C_adv (s\<lparr>pc_out := pc_out s @ [GetLn i (pc_mem s ! pc_con s)]\<rparr>)) else UB)
      | C_adv \<Rightarrow> Cont (go C_stop (s\<lparr>pc_con := pc_con s + 1\<rparr>))
      | C_stop \<Rightarrow> pc_semop pc_stop_consume i C_loop s
      | Gone c \<Rightarrow> Blocked)"

text \<open>The alarm of process \<open>i\<close>: \<open>sig_handler\<close> clears its flag, and an interrupted \<open>semop\<close> fails.\<close>

definition pc_asleep :: "nat \<Rightarrow> pcs \<Rightarrow> bool" where
  "pc_asleep i s =
     (case pp_pc (pc_procs s ! i) of
        P_start \<Rightarrow> semop pc_start_produce (pc_sems s) = Block
      | C_start \<Rightarrow> semop pc_start_consume (pc_sems s) = Block
      | _ \<Rightarrow> False)"

definition pc_sig_handler :: "nat \<Rightarrow> pcs \<Rightarrow> pcs" where
  "pc_sig_handler i s =
     (let p = (pc_procs s ! i)\<lparr>pp_flag := False\<rparr> in
      pc_set i (if pc_asleep i s then p\<lparr>pp_pc := Gone 1\<rparr> else p) s)"

inductive pc_step :: "pcs \<Rightarrow> pcs \<Rightarrow> bool" where
  run: "i < length (pc_procs s) \<Longrightarrow> pc_run i s = Cont s' \<Longrightarrow> pc_step s s'"
| alarm: "i < length (pc_procs s) \<Longrightarrow> pc_step s (pc_sig_handler i s)"

text \<open>
  The children of the fork loop: child \<open>i\<close> (1 to 8) is a producer when \<open>i\<close> is divisible by 3.
  The loop stores the process id of child \<open>i\<close> in \<open>childpid[i]\<close>, an array of 8 elements.
\<close>

definition pc_forked :: "nat \<Rightarrow> pc_proc" where
  "pc_forked i = \<lparr>pp_pc = (if i mod 3 = 0 then P_loop else C_loop), pp_flag = True, pp_symb = 0\<rparr>"

fun pc_fork_loop :: "nat \<Rightarrow> int list \<Rightarrow> int list \<Rightarrow> int list outcome" where
  "pc_fork_loop i childpid [] = Cont childpid"
| "pc_fork_loop i childpid (pid # pids) =
     (if 8 < i then Cont childpid
      else if length childpid \<le> i then UB
      else if pid = -1 then Exit EXIT_FAILURE
      else pc_fork_loop (Suc i) (childpid[i := pid]) pids)"

text \<open>A new shared memory segment is filled with zeros.\<close>

definition pc_boot :: pcs where
  "pc_boot = \<lparr>pc_sems = [pc_N, 0, 1], pc_mem = replicate page_size 0, pc_pr = tape_start,
     pc_con = tape_start, pc_letter = ch CHR ''a'', pc_procs = map pc_forked [1..<9], pc_out = []\<rparr>"

abbreviation pc_init :: "pcs \<Rightarrow> bool" where
  "pc_init s \<equiv> s = pc_boot"

section \<open>The protocol\<close>

fun pc_phase :: "pc_pc \<Rightarrow> phase" where
  "pc_phase P_letter = ProdBefore"
| "pc_phase P_wrap = ProdBefore"
| "pc_phase P_store = ProdBefore"
| "pc_phase P_adv = ProdBefore"
| "pc_phase P_print = ProdAfter"
| "pc_phase P_stop = ProdAfter"
| "pc_phase C_print = ConsBefore"
| "pc_phase C_adv = ConsBefore"
| "pc_phase C_stop = ConsAfter"
| "pc_phase _ = Out"

definition pc_abs :: "pcs \<Rightarrow> proto" where
  "pc_abs s = \<lparr>p_sems = pc_sems s, p_phases = map (\<lambda>p. pc_phase (pp_pc p)) (pc_procs s)\<rparr>"

lemma pc_ops_proto:
  "pc_start_produce = proto_start_produce" "pc_stop_produce = proto_stop_produce"
  "pc_start_consume = proto_start_consume" "pc_stop_consume = proto_stop_consume"
  by (simp_all add: pc_ops proto_ops)

lemma pc_sel [simp]:
  "pc_sems (pc_set i p s) = pc_sems s" "pc_mem (pc_set i p s) = pc_mem s"
  "pc_pr (pc_set i p s) = pc_pr s" "pc_con (pc_set i p s) = pc_con s"
  "pc_letter (pc_set i p s) = pc_letter s" "pc_out (pc_set i p s) = pc_out s"
  "pc_procs (pc_set i p s) = (pc_procs s)[i := p]"
  by (simp_all add: pc_set_def)

lemma pc_abs_simps [simp]:
  "p_sems (pc_abs s) = pc_sems s" "length (p_phases (pc_abs s)) = length (pc_procs s)"
  "i < length (pc_procs s) \<Longrightarrow> p_phases (pc_abs s) ! i = pc_phase (pp_pc (pc_procs s ! i))"
  "pc_abs (pc_set i p s) = enter i (pc_phase (pp_pc p)) (pc_sems s) (pc_abs s)"
  "enter i ph vs (pc_abs (s\<lparr>pc_sems := us\<rparr>)) = enter i ph vs (pc_abs s)"
  "pc_abs (s\<lparr>pc_mem := m\<rparr>) = pc_abs s" "pc_abs (s\<lparr>pc_pr := n\<rparr>) = pc_abs s"
  "pc_abs (s\<lparr>pc_con := n\<rparr>) = pc_abs s" "pc_abs (s\<lparr>pc_letter := c\<rparr>) = pc_abs s"
  "pc_abs (s\<lparr>pc_out := l\<rparr>) = pc_abs s"
  by (simp_all add: pc_abs_def pc_set_def enter_def map_update)

definition pc_sems_ok :: "pcs \<Rightarrow> bool" where
  "pc_sems_ok s \<longleftrightarrow> proto_inv pc_N (pc_abs s)"

text \<open>Under the protocol's invariant no semaphore operation of a process fails.\<close>

lemma pc_sems_range:
  assumes "pc_sems_ok s"
  obtains e f m where "pc_sems s = [e, f, m]" "0 \<le> e" "0 \<le> f" "0 \<le> m" "e \<le> 26" "f \<le> 26" "m \<le> 1"
    "m + cnt inside (p_phases (pc_abs s)) = 1" "e + f + cnt inside (p_phases (pc_abs s)) = 26"
proof -
  from assms have inv: "proto_inv 26 (pc_abs s)" by (simp add: pc_sems_ok_def pc_N_def)
  then obtain e f m where s: "pc_sems s = [e, f, m]" by (auto simp: proto_inv_def elim: sems3)
  from inv have "0 \<le> e" "0 \<le> f" "0 \<le> m" "m + cnt inside (p_phases (pc_abs s)) = 1"
    "e + f + cnt inside (p_phases (pc_abs s)) = 26"
    by (simp_all add: proto_inv_def s)
  then show thesis
    using cnt_nonneg [of inside "p_phases (pc_abs s)"] by (intro that [OF s]) linarith+
qed

lemma pc_inside_le: "pc_sems_ok s \<Longrightarrow> cnt inside (p_phases (pc_abs s)) \<le> 1"
  by (erule pc_sems_range) linarith

lemma pc_semop_eval:
  assumes "pc_sems_ok s" "ops \<in> {pc_start_produce, pc_start_consume, pc_stop_produce, pc_stop_consume}"
  shows "pc_semop ops i pc s = Cont s' \<longleftrightarrow> (\<exists>vs. semop ops (pc_sems s) = Done vs \<and>
      s' = pc_set i ((pc_procs s ! i)\<lparr>pp_pc := pc\<rparr>) (s\<lparr>pc_sems := vs\<rparr>))"
proof -
  obtain e f m where s: "pc_sems s = [e, f, m]" and b: "0 \<le> e" "0 \<le> f" "0 \<le> m" "e \<le> 26" "f \<le> 26" "m \<le> 1"
    by (rule pc_sems_range [OF assms(1)])
  have "semop ops [e, f, m] \<noteq> Fail x" for x
    using assms(2) b semop_start_eval [of e f m] semop_stop_eval [of e f m]
    by (auto simp: pc_ops_proto SEMVMX_def split: if_splits)
  then show ?thesis by (auto simp: pc_semop_def Let_def s split: semop_result.splits)
qed

lemmas pc_proto_rules = proto_step.intros [where p = "pc_abs s", unfolded pc_abs_simps(1,2)] for s
lemmas pc_enter_same = enter_same [where p = "pc_abs s", unfolded pc_abs_simps(1)] for s

lemma pc_run_proto:
  assumes "pc_sems_ok s" "i < length (pc_procs s)" "pc_run i s = Cont s'"
  shows "proto_step (pc_abs s) (pc_abs s') \<or> pc_abs s' = pc_abs s"
proof -
  note ph = pc_abs_simps(3) [OF assms(2)] and ev = pc_semop_eval [OF assms(1)]
  show ?thesis
    using assms(2,3) ph
    by (cases "pp_pc (pc_procs s ! i)")
      (auto simp: pc_run_def Let_def ev pc_ops_proto pc_enter_same simp del: pc_abs_simps(3)
        intro: pc_proto_rules split: if_splits)
qed

lemma pc_handler_abs: "i < length (pc_procs s) \<Longrightarrow> pc_abs (pc_sig_handler i s) = pc_abs s"
  by (auto simp: pc_sig_handler_def Let_def pc_asleep_def intro!: pc_enter_same split: pc_pc.splits)

lemma pc_step_proto:
  assumes "pc_step s s'" "pc_sems_ok s"
  shows "proto_step (pc_abs s) (pc_abs s') \<or> pc_abs s' = pc_abs s"
  using assms by (induction rule: pc_step.induct) (auto simp: pc_handler_abs dest: pc_run_proto)

lemma pc_step_sems_ok: "pc_step s s' \<Longrightarrow> pc_sems_ok s \<Longrightarrow> pc_sems_ok s'"
  using pc_step_proto [of s s'] proto_step_inv by (auto simp: pc_sems_ok_def)

section \<open>The tape\<close>

definition alpha :: "nat \<Rightarrow> c_char" where
  "alpha k = ch CHR ''a'' + of_nat (k mod 26)"

text \<open>The letter after \<open>alpha k\<close>, as \<open>producer\<close> computes it.\<close>

lemma alpha_next: "(if alpha k + 1 = ch CHR ''z'' + 1 then ch CHR ''a'' else alpha k + 1) = alpha (Suc k)"
proof -
  have "\<forall>m \<in> set [0..<26]. (if ch CHR ''a'' + of_nat m + 1 = ch CHR ''z'' + (1 :: c_char)
      then ch CHR ''a'' else ch CHR ''a'' + of_nat m + 1) = ch CHR ''a'' + (of_nat (Suc m mod 26) :: c_char)"
    by code_simp
  then have "(if ch CHR ''a'' + of_nat (k mod 26) + 1 = ch CHR ''z'' + (1 :: c_char)
      then ch CHR ''a'' else ch CHR ''a'' + of_nat (k mod 26) + 1)
    = ch CHR ''a'' + (of_nat (Suc (k mod 26) mod 26) :: c_char)"
    by (rule bspec) simp
  then show ?thesis unfolding alpha_def mod_Suc_eq .
qed

definition pc_puts :: "pcs \<Rightarrow> c_char list" where
  "pc_puts s = concat (map (\<lambda>l. case l of PutLn i c \<Rightarrow> [c] | GetLn i c \<Rightarrow> []) (pc_out s))"

definition pc_gets :: "pcs \<Rightarrow> c_char list" where
  "pc_gets s = concat (map (\<lambda>l. case l of PutLn i c \<Rightarrow> [] | GetLn i c \<Rightarrow> [c]) (pc_out s))"

definition tape :: "c_char list \<Rightarrow> nat \<Rightarrow> c_char list" where
  "tape mem k = map (\<lambda>j. mem ! j) [tape_start..<k]"

lemma length_tape [simp]: "length (tape mem k) = k - tape_start"
  by (simp add: tape_def)

lemma tape_Suc: "tape_start \<le> k \<Longrightarrow> tape mem (Suc k) = tape mem k @ [mem ! k]"
  by (simp add: tape_def)

lemma tape_write [simp]: "k \<le> j \<Longrightarrow> tape (mem[j := x]) k = tape mem k"
  by (auto simp: tape_def)

lemma tape_prefix: "k \<le> m \<Longrightarrow> prefix (tape mem k) (tape mem m)"
proof (induction m)
  case (Suc m)
  show ?case
  proof (cases "k = Suc m")
    case False
    then have "prefix (tape mem k) (tape mem m)" using Suc by simp
    also have "prefix (tape mem m) (tape mem (Suc m))" by (simp add: tape_def)
    finally show ?thesis .
  qed simp
qed (simp add: tape_def)

text \<open>
  \<open>pc_view s n pending d l\<close>: the tape holds the letters printed as put, followed by
  \<open>pending\<close>; up to \<open>d\<close> places past \<open>con_ptr\<close> it holds those printed as got; \<open>n\<close> letters lie
  between the pointers; and the next letter is \<open>l\<close>.
\<close>

definition pc_view :: "pcs \<Rightarrow> nat \<Rightarrow> c_char list \<Rightarrow> nat \<Rightarrow> c_char \<Rightarrow> bool" where
  "pc_view s n pending d l \<longleftrightarrow> tape (pc_mem s) (pc_pr s) = pc_puts s @ pending \<and>
     tape (pc_mem s) (pc_con s + d) = pc_gets s \<and> pc_con s + n = pc_pr s \<and> pc_letter s = l"

definition pc_full :: "pcs \<Rightarrow> nat" where
  "pc_full s = nat (pc_sems s ! 1)"

definition pc_crit_ok :: "pcs \<Rightarrow> pc_proc \<Rightarrow> bool" where
  "pc_crit_ok s p =
     (let n = pc_full s; k = length (pc_puts s); c = pp_symb p in
      case pp_pc p of
        P_letter \<Rightarrow> pc_view s n [] 0 (alpha k)
      | P_wrap \<Rightarrow> pc_view s n [] 0 (alpha k + 1) \<and> c = alpha k
      | P_store \<Rightarrow> pc_view s n [] 0 (alpha (Suc k)) \<and> c = alpha k
      | P_adv \<Rightarrow> pc_view s n [] 0 (alpha (Suc k)) \<and> c = alpha k \<and> pc_pr s < page_size \<and> pc_mem s ! pc_pr s = c
      | P_print \<Rightarrow> pc_view s (Suc n) [c] 0 (alpha (Suc k)) \<and> c = alpha k
      | P_stop \<Rightarrow> pc_view s (Suc n) [] 0 (alpha k)
      | C_print \<Rightarrow> pc_view s (Suc n) [] 0 (alpha k)
      | C_adv \<Rightarrow> pc_view s (Suc n) [] (Suc 0) (alpha k)
      | C_stop \<Rightarrow> pc_view s n [] 0 (alpha k)
      | _ \<Rightarrow> True)"

definition pc_shape :: "pcs \<Rightarrow> bool" where
  "pc_shape s \<longleftrightarrow> length (pc_mem s) = page_size \<and> tape_start \<le> pc_con s \<and> pc_pr s \<le> page_size \<and>
     pc_puts s = map alpha [0..<length (pc_puts s)]"

definition pc_inv :: "pcs \<Rightarrow> bool" where
  "pc_inv s \<longleftrightarrow> pc_sems_ok s \<and> pc_shape s \<and>
     (cnt inside (p_phases (pc_abs s)) = 0 \<longrightarrow> pc_view s (pc_full s) [] 0 (alpha (length (pc_puts s)))) \<and>
     (\<forall>p \<in> set (pc_procs s). pc_crit_ok s p)"

lemma pc_data_set [simp]:
  "pc_puts (pc_set i p s) = pc_puts s" "pc_gets (pc_set i p s) = pc_gets s"
  "pc_view (pc_set i p s) = pc_view s" "pc_full (pc_set i p s) = pc_full s"
  "pc_shape (pc_set i p s) = pc_shape s"
  by (simp_all add: fun_eq_iff pc_puts_def pc_gets_def pc_view_def pc_full_def pc_shape_def)

lemma pc_crit_set [simp]: "pc_crit_ok (pc_set i p s) = pc_crit_ok s"
  by (simp add: fun_eq_iff pc_crit_ok_def Let_def split: pc_pc.split)

lemma pc_data_frame [simp]:
  "pc_puts (s\<lparr>pc_sems := v\<rparr>) = pc_puts s" "pc_gets (s\<lparr>pc_sems := v\<rparr>) = pc_gets s"
  "pc_view (s\<lparr>pc_sems := v\<rparr>) = pc_view s" "pc_shape (s\<lparr>pc_sems := v\<rparr>) = pc_shape s"
  "pc_puts (s\<lparr>pc_letter := c\<rparr>) = pc_puts s" "pc_gets (s\<lparr>pc_letter := c\<rparr>) = pc_gets s"
  "pc_shape (s\<lparr>pc_letter := c\<rparr>) = pc_shape s" "pc_full (s\<lparr>pc_letter := c\<rparr>) = pc_full s"
  "pc_puts (s\<lparr>pc_mem := m\<rparr>) = pc_puts s" "pc_gets (s\<lparr>pc_mem := m\<rparr>) = pc_gets s"
  "pc_full (s\<lparr>pc_mem := m\<rparr>) = pc_full s"
  "pc_puts (s\<lparr>pc_pr := j\<rparr>) = pc_puts s" "pc_gets (s\<lparr>pc_pr := j\<rparr>) = pc_gets s"
  "pc_full (s\<lparr>pc_pr := j\<rparr>) = pc_full s"
  "pc_puts (s\<lparr>pc_con := j\<rparr>) = pc_puts s" "pc_gets (s\<lparr>pc_con := j\<rparr>) = pc_gets s"
  "pc_full (s\<lparr>pc_con := j\<rparr>) = pc_full s" "pc_full (s\<lparr>pc_out := l\<rparr>) = pc_full s"
  "pc_puts (s\<lparr>pc_out := pc_out s @ [PutLn i c]\<rparr>) = pc_puts s @ [c]"
  "pc_gets (s\<lparr>pc_out := pc_out s @ [PutLn i c]\<rparr>) = pc_gets s"
  "pc_puts (s\<lparr>pc_out := pc_out s @ [GetLn i c]\<rparr>) = pc_puts s"
  "pc_gets (s\<lparr>pc_out := pc_out s @ [GetLn i c]\<rparr>) = pc_gets s @ [c]"
  by (simp_all add: fun_eq_iff pc_puts_def pc_gets_def pc_view_def pc_full_def pc_shape_def)

lemma pc_crit_out: "pc_phase (pp_pc p) = Out \<Longrightarrow> pc_crit_ok s p"
  by (auto simp: pc_crit_ok_def Let_def split: pc_pc.splits)

text \<open>The three ways a step can touch the critical section.\<close>

lemma pc_inv_local:
  assumes "pc_inv s" "i < length (pc_procs s)" "pc_phase (pp_pc (pc_procs s ! i)) = Out" "pc_phase (pp_pc p) = Out"
  shows "pc_inv (pc_set i p s)"
proof -
  have same: "enter i Out (pc_sems s) (pc_abs s) = pc_abs s" using assms(2,3) by (intro pc_enter_same) simp
  have "\<forall>q \<in> set ((pc_procs s)[i := p]). pc_crit_ok s q"
    using assms(1,4) pc_crit_out set_update_subset_insert [of "pc_procs s" i p] by (auto simp: pc_inv_def)
  then show ?thesis using assms(1,4) by (simp add: pc_inv_def pc_sems_ok_def same)
qed

lemma pc_inv_sole:
  assumes "pc_inv s" "i < length (pc_procs s)" "pc_phase (pp_pc (pc_procs s ! i)) \<noteq> Out"
    "pc_procs s' = pc_procs s" "pc_sems_ok (pc_set i p s')" "pc_shape s'" "pc_crit_ok s' p"
    "pc_phase (pp_pc p) = Out \<longrightarrow> pc_view s' (pc_full s') [] 0 (alpha (length (pc_puts s')))"
  shows "pc_inv (pc_set i p s')"
proof -
  have le: "cnt inside (p_phases (pc_abs s)) \<le> 1"
    using pc_inside_le assms(1) by (simp add: pc_inv_def)
  have "pc_phase (pp_pc (pc_procs s ! j)) = Out" if "j < length (pc_procs s)" "j \<noteq> i" for j
    using cnt_ge_2 [of i "p_phases (pc_abs s)" j inside] assms(2,3) that le by fastforce
  then have "pc_crit_ok s' ((pc_procs s)[i := p] ! j)" if "j < length (pc_procs s)" for j
    using assms(7) that by (cases "j = i") (simp_all add: pc_crit_out)
  then have "\<forall>q \<in> set ((pc_procs s)[i := p]). pc_crit_ok s' q"
    by (simp add: all_set_conv_all_nth)
  moreover have "pc_phase (pp_pc p) = Out" if "cnt inside (p_phases (pc_abs (pc_set i p s'))) = 0"
    using that cnt_ge_1 [of i "p_phases (pc_abs (pc_set i p s'))" inside] assms(2,4) by (fastforce simp: enter_def)
  ultimately show ?thesis using assms(4-6,8) by (auto simp: pc_inv_def)
qed

lemma pc_inv_enter:
  assumes "pc_inv s" "i < length (pc_procs s)" "cnt inside (p_phases (pc_abs s)) = 0"
    "pc_phase (pp_pc p) \<noteq> Out" "pc_sems_ok (pc_set i p (s\<lparr>pc_sems := vs\<rparr>))" "pc_crit_ok (s\<lparr>pc_sems := vs\<rparr>) p"
  shows "pc_inv (pc_set i p (s\<lparr>pc_sems := vs\<rparr>))"
proof -
  have "pc_phase (pp_pc q) = Out" if "q \<in> set (pc_procs s)" for q
    using assms(3) that by (auto simp: pc_abs_def cnt_map cnt_0_iff)
  then have "\<forall>q \<in> set ((pc_procs s)[i := p]). pc_crit_ok (s\<lparr>pc_sems := vs\<rparr>) q"
    using assms(6) pc_crit_out set_update_subset_insert [of "pc_procs s" i p] by fastforce
  moreover have "cnt inside (p_phases (pc_abs (pc_set i p (s\<lparr>pc_sems := vs\<rparr>)))) \<noteq> 0"
    using cnt_ge_1 [of i "p_phases (pc_abs (pc_set i p (s\<lparr>pc_sems := vs\<rparr>)))" inside] assms(2,4)
    by (simp add: enter_def)
  ultimately show ?thesis using assms(1,5) by (simp add: pc_inv_def)
qed

lemma pc_run_local:
  assumes "pc_inv s" "i < length (pc_procs s)" "pc_run i s = Cont s'"
    "pp_pc (pc_procs s ! i) \<in> {P_loop, C_loop}"
  shows "pc_inv s'"
  using assms(3,4) pc_inv_local [OF assms(1,2)] by (auto simp: pc_run_def Let_def split: if_splits)

lemma pc_run_enter:
  assumes "pc_inv s" "i < length (pc_procs s)" "pc_run i s = Cont s'" "pc_sems_ok s'"
    "pp_pc (pc_procs s ! i) \<in> {P_start, C_start}"
  shows "pc_inv s'"
proof -
  let ?p = "pc_procs s ! i"
  have ok: "pc_sems_ok s" using assms(1) by (simp add: pc_inv_def)
  obtain e f m where s: "pc_sems s = [e, f, m]" and b: "0 \<le> e" "0 \<le> f" "0 \<le> m"
    "m + cnt inside (p_phases (pc_abs s)) = 1"
    by (rule pc_sems_range [OF ok])
  have cases: "(pp_pc ?p = P_start \<and> 1 \<le> m \<and> s' = pc_set i (?p\<lparr>pp_pc := P_letter\<rparr>) (s\<lparr>pc_sems := [e - 1, f, m - 1]\<rparr>)) \<or>
      (pp_pc ?p = C_start \<and> 1 \<le> m \<and> 1 \<le> f \<and> s' = pc_set i (?p\<lparr>pp_pc := C_print\<rparr>) (s\<lparr>pc_sems := [e, f - 1, m - 1]\<rparr>))"
    using assms(3,5) pc_semop_eval [OF ok]
    by (auto simp: pc_run_def Let_def s pc_ops_proto semop_simps)
  then have "1 \<le> m" by blast
  then have none: "cnt inside (p_phases (pc_abs s)) = 0"
    using b(4) cnt_nonneg [of inside "p_phases (pc_abs s)"] by linarith
  then have v: "pc_view s (nat f) [] 0 (alpha (length (pc_puts s)))"
    using assms(1) by (simp add: pc_inv_def pc_full_def s)
  note ent = pc_inv_enter [OF assms(1,2) none]
  from cases show ?thesis
  proof (elim disjE conjE)
    assume P: "s' = pc_set i (?p\<lparr>pp_pc := P_letter\<rparr>) (s\<lparr>pc_sems := [e - 1, f, m - 1]\<rparr>)"
    show ?thesis unfolding P
      by (rule ent) (use assms(4) v in \<open>simp_all add: P [symmetric] pc_crit_ok_def pc_full_def\<close>)
  next
    assume C: "s' = pc_set i (?p\<lparr>pp_pc := C_print\<rparr>) (s\<lparr>pc_sems := [e, f - 1, m - 1]\<rparr>)" and f: "1 \<le> f"
    then have "Suc (nat (f - 1)) = nat f" by simp
    then show ?thesis unfolding C
      by (intro ent) (use assms(4) v in \<open>simp_all add: C [symmetric] pc_crit_ok_def pc_full_def\<close>)
  qed
qed

lemma pc_view_store:
  "pc_view s n [] 0 l \<Longrightarrow> pc_view (s\<lparr>pc_mem := (pc_mem s)[pc_pr s := c]\<rparr>) n [] 0 l"
  by (simp add: pc_view_def)

lemma pc_view_adv:
  "pc_view s n [] 0 l \<Longrightarrow> pc_shape s \<Longrightarrow> pc_mem s ! pc_pr s = c \<Longrightarrow>
   pc_view (s\<lparr>pc_pr := Suc (pc_pr s)\<rparr>) (Suc n) [c] 0 l"
  by (simp add: pc_view_def pc_shape_def tape_Suc)

lemma pc_view_get:
  "pc_view s (Suc n) [] 0 l \<Longrightarrow> pc_shape s \<Longrightarrow>
   pc_view (s\<lparr>pc_out := pc_out s @ [GetLn i (pc_mem s ! pc_con s)]\<rparr>) (Suc n) [] (Suc 0) l"
  by (simp add: pc_view_def pc_shape_def tape_Suc)

lemma pc_view_con: "pc_view s (Suc n) [] (Suc 0) l \<Longrightarrow> pc_view (s\<lparr>pc_con := Suc (pc_con s)\<rparr>) n [] 0 l"
  by (simp add: pc_view_def)

lemma pc_view_put:
  "pc_view s n [c] 0 l \<Longrightarrow> pc_view (s\<lparr>pc_out := pc_out s @ [PutLn i c]\<rparr>) n [] 0 l"
  by (simp add: pc_view_def)

lemma pc_view_letter: "pc_view s n q d l \<Longrightarrow> pc_view (s\<lparr>pc_letter := c\<rparr>) n q d c"
  by (simp add: pc_view_def)

lemma pc_shape_step:
  assumes "pc_shape s"
  shows "pc_shape (s\<lparr>pc_mem := (pc_mem s)[j := c]\<rparr>)" "pc_shape (s\<lparr>pc_con := Suc (pc_con s)\<rparr>)"
    "pc_pr s < page_size \<Longrightarrow> pc_shape (s\<lparr>pc_pr := Suc (pc_pr s)\<rparr>)"
    "pc_shape (s\<lparr>pc_out := pc_out s @ [GetLn i c]\<rparr>)"
    "c = alpha (length (pc_puts s)) \<Longrightarrow> pc_shape (s\<lparr>pc_out := pc_out s @ [PutLn i c]\<rparr>)"
  using assms unfolding pc_shape_def by (simp_all only: pc_data_frame) simp_all

lemma pc_run_inside:
  assumes "pc_inv s" "i < length (pc_procs s)" "pc_run i s = Cont s'" "pc_sems_ok s'"
    "pc_phase (pp_pc (pc_procs s ! i)) \<noteq> Out"
  shows "pc_inv s'"
proof -
  let ?p = "pc_procs s ! i"
  have ok: "pc_sems_ok s" and sh: "pc_shape s" using assms(1) by (simp_all add: pc_inv_def)
  have crit: "pc_crit_ok s ?p" using assms(1,2) by (simp add: pc_inv_def)
  note sole = pc_inv_sole [OF assms(1,2,5)] and pc_view_step = pc_view_store pc_view_adv pc_view_get
    pc_view_con pc_view_put pc_view_letter
  obtain e f m where s: "pc_sems s = [e, f, m]" and f: "0 \<le> f"
    by (rule pc_sems_range [OF ok])
  have full: "pc_full (s\<lparr>pc_sems := [a, f, b]\<rparr>) = pc_full s"
    "pc_full (s\<lparr>pc_sems := [a, f + 1, b]\<rparr>) = Suc (pc_full s)" for a b
    using f by (simp_all add: pc_full_def s)
  show ?thesis
  proof (cases "pp_pc ?p")
    case P_letter
    then have s': "s' = pc_set i (?p\<lparr>pp_pc := P_wrap, pp_symb := pc_letter s\<rparr>) (s\<lparr>pc_letter := pc_letter s + 1\<rparr>)"
      using assms(3) by (simp add: pc_run_def Let_def)
    have "pc_letter s = alpha (length (pc_puts s))" using crit P_letter by (simp add: pc_crit_ok_def pc_view_def Let_def)
    with s' have s': "s' = pc_set i (?p\<lparr>pp_pc := P_wrap, pp_symb := alpha (length (pc_puts s))\<rparr>)
        (s\<lparr>pc_letter := alpha (length (pc_puts s)) + 1\<rparr>)" by simp
    show ?thesis unfolding s' using crit P_letter sh assms(4) [unfolded s']
      by (intro sole) (auto simp: pc_crit_ok_def Let_def intro: pc_view_step)
  next
    case P_wrap
    let ?s = "s\<lparr>pc_letter := alpha (Suc (length (pc_puts s)))\<rparr>"
    have "pc_letter s = alpha (length (pc_puts s)) + 1" using crit P_wrap by (simp add: pc_crit_ok_def pc_view_def Let_def)
    then have "(if pc_letter s = ch CHR ''z'' + 1 then s\<lparr>pc_letter := ch CHR ''a''\<rparr> else s) = ?s"
      using alpha_next [of "length (pc_puts s)"] by (cases s) (auto split: if_splits)
    then have s': "s' = pc_set i (?p\<lparr>pp_pc := P_store\<rparr>) ?s"
      using assms(3) P_wrap by (simp add: pc_run_def Let_def)
    then show ?thesis unfolding s' using crit P_wrap sh assms(4) [unfolded s']
      by (intro sole) (auto simp: pc_crit_ok_def Let_def intro: pc_view_step)
  next
    case P_store
    let ?s = "s\<lparr>pc_mem := (pc_mem s)[pc_pr s := pp_symb ?p]\<rparr>"
    have s': "s' = pc_set i (?p\<lparr>pp_pc := P_adv\<rparr>) ?s" and lt: "pc_pr s < length (pc_mem s)"
      using assms(3) P_store by (simp_all add: pc_run_def Let_def split: if_splits)
    show ?thesis unfolding s' using crit P_store sh assms(4) [unfolded s'] lt
      by (intro sole pc_shape_step) (auto simp: pc_crit_ok_def Let_def pc_shape_def intro: pc_view_step)
  next
    case P_adv
    let ?s = "s\<lparr>pc_pr := Suc (pc_pr s)\<rparr>"
    have s': "s' = pc_set i (?p\<lparr>pp_pc := P_print\<rparr>) ?s"
      using assms(3) P_adv by (simp add: pc_run_def Let_def)
    show ?thesis unfolding s' using crit P_adv sh assms(4) [unfolded s']
      by (intro sole pc_shape_step) (auto simp: pc_crit_ok_def Let_def intro: pc_view_step)
  next
    case P_print
    let ?s = "s\<lparr>pc_out := pc_out s @ [PutLn i (pp_symb ?p)]\<rparr>"
    have s': "s' = pc_set i (?p\<lparr>pp_pc := P_stop\<rparr>) ?s"
      using assms(3) P_print by (simp add: pc_run_def Let_def)
    show ?thesis unfolding s' using crit P_print sh assms(4) [unfolded s']
      by (intro sole pc_shape_step) (auto simp: pc_crit_ok_def Let_def intro: pc_view_step)
  next
    case C_print
    let ?s = "s\<lparr>pc_out := pc_out s @ [GetLn i (pc_mem s ! pc_con s)]\<rparr>"
    have s': "s' = pc_set i (?p\<lparr>pp_pc := C_adv\<rparr>) ?s"
      using assms(3) C_print by (simp add: pc_run_def Let_def split: if_splits)
    show ?thesis unfolding s' using crit C_print sh assms(4) [unfolded s']
      by (intro sole pc_shape_step) (auto simp: pc_crit_ok_def Let_def intro: pc_view_get)
  next
    case C_adv
    let ?s = "s\<lparr>pc_con := Suc (pc_con s)\<rparr>"
    have s': "s' = pc_set i (?p\<lparr>pp_pc := C_stop\<rparr>) ?s"
      using assms(3) C_adv by (simp add: pc_run_def Let_def)
    show ?thesis unfolding s' using crit C_adv sh assms(4) [unfolded s']
      by (intro sole pc_shape_step) (auto simp: pc_crit_ok_def Let_def intro: pc_view_con)
  next
    case P_stop
    then obtain a b where s': "s' = pc_set i (?p\<lparr>pp_pc := P_loop\<rparr>) (s\<lparr>pc_sems := [a, f + 1, b]\<rparr>)"
      using assms(3) pc_semop_eval [OF ok, of pc_stop_produce]
      by (auto simp: pc_run_def Let_def s pc_ops_proto semop_simps)
    show ?thesis unfolding s' using crit P_stop sh assms(4) [unfolded s']
      by (intro sole) (auto simp: pc_crit_ok_def Let_def full)
  next
    case C_stop
    then obtain a b where s': "s' = pc_set i (?p\<lparr>pp_pc := C_loop\<rparr>) (s\<lparr>pc_sems := [a, f, b]\<rparr>)"
      using assms(3) pc_semop_eval [OF ok, of pc_stop_consume]
      by (auto simp: pc_run_def Let_def s pc_ops_proto semop_simps)
    show ?thesis unfolding s' using crit C_stop sh assms(4) [unfolded s']
      by (intro sole) (auto simp: pc_crit_ok_def Let_def full)
  qed (use assms(5) in simp_all)
qed

lemma pc_step_inv: "pc_step s s' \<Longrightarrow> pc_inv s \<Longrightarrow> pc_inv s'"
proof (induction rule: pc_step.induct)
  case (run i s s')
  then have "pc_sems_ok s'"
    using pc_step_sems_ok [OF pc_step.run] by (simp add: pc_inv_def)
  then show ?case
    using run pc_run_local [of s i s'] pc_run_enter [of s i s'] pc_run_inside [of s i s']
    by (cases "pp_pc (pc_procs s ! i)") (auto simp: pc_run_def)
next
  case (alarm i s)
  let ?p = "(pc_procs s ! i)\<lparr>pp_flag := False\<rparr>"
  let ?q = "if pc_asleep i s then ?p\<lparr>pp_pc := Gone 1\<rparr> else ?p"
  have "pc_crit_ok s ?p = pc_crit_ok s (pc_procs s ! i)"
    by (simp add: pc_crit_ok_def cong: pc_pc.case_cong)
  then have "pc_crit_ok s ?q"
    using alarm pc_crit_out [of "?p\<lparr>pp_pc := Gone 1\<rparr>" s] by (simp add: pc_inv_def)
  then have all: "\<forall>q \<in> set ((pc_procs s)[i := ?q]). pc_crit_ok s q"
    using alarm set_update_subset_insert [of "pc_procs s" i ?q] unfolding pc_inv_def by blast
  have eq: "pc_sig_handler i s = pc_set i ?q s" by (simp only: pc_sig_handler_def Let_def)
  have "pc_sems_ok (pc_sig_handler i s)" "p_phases (pc_abs (pc_sig_handler i s)) = p_phases (pc_abs s)"
    using alarm pc_handler_abs [of i s] by (simp_all add: pc_inv_def pc_sems_ok_def)
  with all alarm(2) show ?case
    unfolding pc_inv_def eq by (simp only: pc_data_set pc_crit_set pc_sel) blast
qed

lemma pc_boot_inv: "pc_inv pc_boot"
proof -
  have "map (\<lambda>p. pc_phase (pp_pc p)) (map pc_forked [1..<9]) = replicate 8 Out" by code_simp
  then have abs: "pc_abs pc_boot = \<lparr>p_sems = [26, 0, 1], p_phases = replicate 8 Out\<rparr>"
    by (simp add: pc_abs_def pc_boot_def pc_N_def)
  have none: "cnt inside (replicate 8 Out) = 0" by (simp add: cnt_0_iff)
  have "pc_sems_ok pc_boot" by (simp add: pc_sems_ok_def proto_inv_def abs none pc_N_def)
  moreover have "pc_view pc_boot (pc_full pc_boot) [] 0 (alpha (length (pc_puts pc_boot)))" "pc_shape pc_boot"
    by (simp_all add: pc_view_def pc_shape_def pc_boot_def pc_full_def tape_def pc_puts_def pc_gets_def
        alpha_def page_size_def tape_start_def)
  moreover have "pc_crit_ok pc_boot p" if "p \<in> set (pc_procs pc_boot)" for p
    using that by (intro pc_crit_out) (auto simp: pc_boot_def pc_forked_def)
  ultimately show ?thesis by (simp add: pc_inv_def)
qed

interpretation pcr: refinement pc_init pc_step pc_inv "proto_init pc_N" proto_step pc_abs
proof unfold_locales
  show "pc_inv s" if "s = pc_boot" for s using that by (simp add: pc_boot_inv)
  show "proto_init pc_N (pc_abs s)" if "s = pc_boot" for s
    using that by (auto simp: proto_init_def pc_boot_def pc_abs_def pc_forked_def)
  show "pc_inv s'" if "pc_inv s" "pc_step s s'" for s s' using that by (auto intro: pc_step_inv)
  show "proto_step (pc_abs s) (pc_abs s') \<or> pc_abs s' = pc_abs s" if "pc_inv s" "pc_step s s'" for s s'
    using pc_step_proto [OF that(2)] that(1) by (simp add: pc_inv_def)
qed

lemma pc_inv_view:
  assumes "pc_inv s"
  shows "\<exists>n q d l. pc_view s n q d l \<and> n \<le> 26 \<and> d + length q \<le> n"
proof -
  have ok: "pc_sems_ok s" using assms by (simp add: pc_inv_def)
  obtain e f m where s: "pc_sems s = [e, f, m]" and b: "0 \<le> e" "f \<le> 26"
    "e + f + cnt inside (p_phases (pc_abs s)) = 26"
    by (rule pc_sems_range [OF ok])
  show ?thesis
  proof (cases "cnt inside (p_phases (pc_abs s)) = 0")
    case True
    then have "pc_view s (nat f) [] 0 (alpha (length (pc_puts s)))"
      using assms by (simp add: pc_inv_def pc_full_def s)
    moreover have "nat f \<le> 26" using b by simp
    ultimately show ?thesis by fastforce
  next
    case False
    then have n: "Suc (nat f) \<le> 26" using b cnt_nonneg [of inside "p_phases (pc_abs s)"] by linarith
    from False obtain p where p: "p \<in> set (pc_procs s)" "pc_phase (pp_pc p) \<noteq> Out"
      by (auto simp: cnt_0_iff pc_abs_def)
    then have "pc_crit_ok s p" using assms by (simp add: pc_inv_def)
    then have "(\<exists>l. pc_view s (nat f) [] 0 l) \<or> (\<exists>q d l. pc_view s (Suc (nat f)) q d l \<and> d + length q \<le> 1)"
      using p(2) by (cases "pp_pc p") (fastforce simp: pc_crit_ok_def Let_def pc_full_def s)+
    then show ?thesis
    proof
      assume "\<exists>l. pc_view s (nat f) [] 0 l"
      then obtain l where "pc_view s (nat f) [] 0 l" by blast
      then show ?thesis using n by (intro exI [of _ "nat f"] exI [of _ "[]"] exI [of _ 0] exI [of _ l]) simp
    next
      assume "\<exists>q d l. pc_view s (Suc (nat f)) q d l \<and> d + length q \<le> 1"
      then obtain q d l where "pc_view s (Suc (nat f)) q d l" "d + length q \<le> 1" by blast
      then show ?thesis using n by (intro exI [of _ "Suc (nat f)"] exI [of _ q] exI [of _ d] exI [of _ l]) simp
    qed
  qed
qed

section \<open>Executing schedules\<close>

datatype pc_event = Run nat | Alarm nat

fun pc_exec :: "pc_event \<Rightarrow> pcs \<Rightarrow> pcs option" where
  "pc_exec (Run i) s =
     (if i < length (pc_procs s) then (case pc_run i s of Cont s' \<Rightarrow> Some s' | _ \<Rightarrow> None) else None)"
| "pc_exec (Alarm i) s = (if i < length (pc_procs s) then Some (pc_sig_handler i s) else None)"

interpretation pc_sched: scheduler pc_exec pc_step pc_boot
proof unfold_locales
  show "pc_exec e s = Some t \<Longrightarrow> pc_step s t" for e s t
    by (cases e) (auto split: if_splits outcome.splits intro: pc_step.intros)
qed

text \<open>One letter put and one letter taken, from a state with nobody inside.\<close>

lemma pc_semop_values:
  "semop pc_start_produce [26, 0, 1] = Done [25, 0, 0]" "semop pc_stop_produce [25, 0, 0] = Done [25, 1, 1]"
  "semop pc_start_consume [25, 1, 1] = Done [25, 0, 0]" "semop pc_stop_consume [25, 0, 0] = Done [26, 0, 1]"
  by code_simp+

lemma pc_put_one:
  assumes "pc_sems s = [26, 0, 1]" "i < length (pc_procs s)" "pc_procs s ! i = \<lparr>pp_pc = P_loop, pp_flag = True, pp_symb = c\<rparr>"
    "pc_pr s < length (pc_mem s)"
  shows "\<exists>m l c'. run_actions pc_exec [Run i, Run i, Run i, Run i, Run i, Run i, Run i, Run i] s =
    Some (s\<lparr>pc_sems := [25, 1, 1], pc_mem := m, pc_pr := Suc (pc_pr s), pc_letter := l,
       pc_procs := (pc_procs s)[i := \<lparr>pp_pc = P_loop, pp_flag = True, pp_symb = c'\<rparr>],
       pc_out := pc_out s @ [PutLn i c']\<rparr>) \<and> length m = length (pc_mem s)"
  using assms
  by (cases s) (auto simp: pc_run_def pc_set_def pc_semop_def Let_def pc_semop_values)

lemma pc_get_one:
  assumes "pc_sems s = [25, 1, 1]" "j < length (pc_procs s)" "pc_procs s ! j = \<lparr>pp_pc = C_loop, pp_flag = True, pp_symb = c\<rparr>"
    "pc_con s < length (pc_mem s)"
  shows "\<exists>d. run_actions pc_exec [Run j, Run j, Run j, Run j, Run j] s =
    Some (s\<lparr>pc_sems := [26, 0, 1], pc_con := Suc (pc_con s), pc_out := pc_out s @ [GetLn j d]\<rparr>)"
  using assms list_update_id [of "pc_procs s" j]
  by (cases s) (auto simp: pc_run_def pc_set_def pc_semop_def Let_def pc_semop_values)

lemma pc_reach_store:
  assumes "pc_sems s = [26, 0, 1]" "i < length (pc_procs s)" "pc_procs s ! i = \<lparr>pp_pc = P_loop, pp_flag = True, pp_symb = c\<rparr>"
  shows "\<exists>s'. run_actions pc_exec [Run i, Run i, Run i, Run i] s = Some s' \<and> pc_pr s' = pc_pr s \<and>
    pc_mem s' = pc_mem s \<and> length (pc_procs s') = length (pc_procs s) \<and> pp_pc (pc_procs s' ! i) = P_store"
  using assms
  by (cases s) (auto simp: pc_run_def pc_set_def pc_semop_def Let_def pc_semop_values)

text \<open>Reachable states in which \<open>k\<close> letters have been put and taken and nobody is inside.\<close>

definition pc_at :: "nat \<Rightarrow> pcs \<Rightarrow> bool" where
  "pc_at k s \<longleftrightarrow> reach pc_init pc_step s \<and> pc_sems s = [26, 0, 1] \<and> length (pc_procs s) = 8 \<and>
     (\<exists>c. pc_procs s ! 2 = \<lparr>pp_pc = P_loop, pp_flag = True, pp_symb = c\<rparr>) \<and>
     (\<exists>c. pc_procs s ! 0 = \<lparr>pp_pc = C_loop, pp_flag = True, pp_symb = c\<rparr>) \<and>
     pc_pr s = tape_start + k \<and> pc_con s = tape_start + k \<and> length (pc_mem s) = page_size"

lemma pc_at_0: "pc_at 0 pc_boot"
proof -
  have "pc_procs pc_boot = map pc_forked [1..<9]" "length (map pc_forked [1..<9]) = 8"
    "map pc_forked [1..<9] ! 2 = \<lparr>pp_pc = P_loop, pp_flag = True, pp_symb = 0\<rparr>"
    "map pc_forked [1..<9] ! 0 = \<lparr>pp_pc = C_loop, pp_flag = True, pp_symb = 0\<rparr>"
    by (simp_all add: pc_boot_def pc_forked_def)
  then show ?thesis
    using reach.reach_init [of pc_init pc_boot pc_step] by (simp add: pc_at_def) (simp add: pc_boot_def pc_N_def)
qed

lemma pc_at_Suc:
  assumes "pc_at k s" "tape_start + k < page_size"
  shows "\<exists>s'. pc_at (Suc k) s'"
proof -
  have s: "reach pc_init pc_step s" "pc_sems s = [26, 0, 1]" "length (pc_procs s) = 8"
    "pc_pr s = tape_start + k" "pc_con s = tape_start + k" "length (pc_mem s) = page_size"
    using assms(1) by (simp_all add: pc_at_def)
  obtain c d where p: "pc_procs s ! 2 = \<lparr>pp_pc = P_loop, pp_flag = True, pp_symb = c\<rparr>"
    and q: "pc_procs s ! 0 = \<lparr>pp_pc = C_loop, pp_flag = True, pp_symb = d\<rparr>"
    using assms(1) by (auto simp: pc_at_def)
  obtain m l c' where put: "run_actions pc_exec [Run 2, Run 2, Run 2, Run 2, Run 2, Run 2, Run 2, Run 2] s =
      Some (s\<lparr>pc_sems := [25, 1, 1], pc_mem := m, pc_pr := Suc (pc_pr s), pc_letter := l,
       pc_procs := (pc_procs s)[2 := \<lparr>pp_pc = P_loop, pp_flag = True, pp_symb = c'\<rparr>],
       pc_out := pc_out s @ [PutLn 2 c']\<rparr>)" (is "_ = Some ?s") and m: "length m = page_size"
    using pc_put_one [OF s(2) _ p] s assms(2) by auto
  obtain x where get: "run_actions pc_exec [Run 0, Run 0, Run 0, Run 0, Run 0] ?s =
      Some (?s\<lparr>pc_sems := [26, 0, 1], pc_con := Suc (pc_con ?s), pc_out := pc_out ?s @ [GetLn 0 x]\<rparr>)"
    (is "_ = Some ?t") using pc_get_one [of ?s 0 d] q s assms(2) m by auto
  have "reach pc_init pc_step ?t"
    by (rule pc_sched.run_reach_from [OF pc_sched.run_reach_from [OF s(1) put] get])
  then show ?thesis using s q m by (intro exI [of _ ?t]) (simp add: pc_at_def)
qed

lemma pc_at_ex: "tape_start + k \<le> page_size \<Longrightarrow> \<exists>s. pc_at k s"
proof (induction k)
  case 0
  then show ?case using pc_at_0 by blast
next
  case (Suc k)
  then obtain s where "pc_at k s" by auto
  then show ?case using pc_at_Suc Suc.prems by simp
qed

section \<open>Properties\<close>

text \<open>
  (C15) The producers' letters run through the alphabet cyclically whoever puts them, the
  consumers print them in the same order, and at most 26 letters are outstanding, in every
  interleaving of the eight processes and their alarms.
\<close>

theorem prodcons_alphabet_in_order:
  assumes "reach pc_init pc_step s"
  shows "pc_puts s = map alpha [0..<length (pc_puts s)] \<and> prefix (pc_gets s) (pc_puts s) \<and>
    length (pc_puts s) \<le> length (pc_gets s) + 26"
proof -
  have inv: "pc_inv s" using assms by (rule pcr.reach_inv)
  then have sh: "pc_shape s" by (simp add: pc_inv_def)
  obtain n q d l where v: "pc_view s n q d l" "n \<le> 26" "d + length q \<le> n" using pc_inv_view [OF inv] by blast
  have tapes: "tape (pc_mem s) (pc_pr s) = pc_puts s @ q" "tape (pc_mem s) (pc_con s + d) = pc_gets s"
    and pr: "pc_con s + n = pc_pr s"
    using v(1) by (simp_all add: pc_view_def)
  have start: "tape_start \<le> pc_con s" using sh by (simp only: pc_shape_def)
  have "length (pc_puts s) + length q = pc_pr s - tape_start" "length (pc_gets s) = pc_con s + d - tape_start"
    using arg_cong [OF tapes(1), of length] arg_cong [OF tapes(2), of length] by simp_all
  then have len: "length (pc_puts s) \<le> length (pc_gets s) + 26" "length (pc_gets s) \<le> length (pc_puts s)"
    using pr v(2,3) start by linarith+
  have "prefix (tape (pc_mem s) (pc_con s + d)) (tape (pc_mem s) (pc_pr s))"
    using pr v(3) by (intro tape_prefix) simp
  then have "prefix (pc_gets s) (pc_puts s @ q)" by (simp only: tapes)
  then have "prefix (pc_gets s) (pc_puts s)"
    using len(2) prefixI [of "pc_puts s @ q" "pc_puts s" q] by (blast intro: prefix_length_prefix)
  moreover have "pc_puts s = map alpha [0..<length (pc_puts s)]" using sh unfolding pc_shape_def by blast
  ultimately show ?thesis using len(1) by blast
qed

definition pc_demo_state :: pcs where
  "pc_demo_state = the (run_actions pc_exec (replicate 16 (Run 2) @ replicate 5 (Run 0)) pc_boot)"

lemma pc_demo_run:
  "run_actions pc_exec (replicate 16 (Run 2) @ replicate 5 (Run 0)) pc_boot = Some pc_demo_state"
  by code_simp

theorem prodcons_alphabet_in_order_witness:
  "prefix (pc_gets pc_demo_state) (pc_puts pc_demo_state) \<and> pc_puts pc_demo_state = [alpha 0, alpha 1]"
proof -
  have "length (pc_puts pc_demo_state) = 2" by code_simp
  then show ?thesis
    using prodcons_alphabet_in_order [OF pc_sched.run_reach [OF pc_demo_run]]
    by (auto simp: numeral_2_eq_2)
qed

text \<open>
  (C17) The pointers never return to the start of the buffer: a statement has undefined behaviour
  exactly when a producer is about to store the 4080th letter, one byte past the shared page,
  although the semaphores count only 26 slots. Consumers never leave the page.
\<close>

theorem prodcons_leaves_page:
  assumes "reach pc_init pc_step s" "i < length (pc_procs s)"
  shows "pc_run i s = UB \<longleftrightarrow> pp_pc (pc_procs s ! i) = P_store \<and> length (pc_puts s) = 4079"
proof -
  have inv: "pc_inv s" using assms(1) by (rule pcr.reach_inv)
  then have sh: "pc_shape s" and crit: "pc_crit_ok s (pc_procs s ! i)" and ok: "pc_sems_ok s"
    using assms(2) by (simp_all add: pc_inv_def)
  have store: "pc_pr s < length (pc_mem s) \<longleftrightarrow> length (pc_puts s) \<noteq> 4079" if "pp_pc (pc_procs s ! i) = P_store"
  proof -
    have v: "tape (pc_mem s) (pc_pr s) = pc_puts s" "pc_con s + pc_full s = pc_pr s"
      using that crit by (simp_all add: pc_crit_ok_def pc_view_def Let_def)
    then have "length (pc_puts s) = pc_pr s - tape_start" using length_tape by metis
    then show ?thesis using v(2) sh by (auto simp: pc_shape_def page_size_def tape_start_def)
  qed
  have con: "pc_con s < length (pc_mem s)" if "pp_pc (pc_procs s ! i) = C_print"
  proof -
    have "pc_con s + Suc (pc_full s) = pc_pr s" using that crit by (simp add: pc_crit_ok_def pc_view_def Let_def)
    then show ?thesis using sh by (simp add: pc_shape_def)
  qed
  show ?thesis
    using store con
    by (cases "pp_pc (pc_procs s ! i)")
      (auto simp: pc_run_def Let_def pc_semop_def split: semop_result.splits)
qed

theorem prodcons_leaves_page_witness:
  "\<exists>s. reach pc_init pc_step s \<and> pc_run 2 s = UB"
proof -
  obtain s where s: "pc_at 4079 s" using pc_at_ex [of 4079] by (auto simp: tape_start_def page_size_def)
  then obtain c where c: "pc_procs s ! 2 = \<lparr>pp_pc = P_loop, pp_flag = True, pp_symb = c\<rparr>"
    by (auto simp: pc_at_def)
  obtain s' where run: "run_actions pc_exec [Run 2, Run 2, Run 2, Run 2] s = Some s'"
    and s': "pc_pr s' = pc_pr s" "length (pc_procs s') = 8" "pp_pc (pc_procs s' ! 2) = P_store"
    using pc_reach_store [OF _ _ c] s by (auto simp: pc_at_def)
  have reach: "reach pc_init pc_step s'" using pc_sched.run_reach_from [OF _ run] s by (simp add: pc_at_def)
  have "pc_crit_ok s' (pc_procs s' ! 2)" using pcr.reach_inv [OF reach] s'(2) by (simp add: pc_inv_def)
  then have "tape (pc_mem s') (pc_pr s') = pc_puts s'" using s'(3) by (simp add: pc_crit_ok_def pc_view_def Let_def)
  then have "length (pc_puts s') = pc_pr s' - tape_start" using length_tape by metis
  then have "length (pc_puts s') = 4079" using s s'(1) by (simp add: pc_at_def)
  then show ?thesis using prodcons_leaves_page [OF reach, of 2] s' reach by auto
qed

text \<open>
  The fork loop stores eight process ids at indices 1 to 8 of an array of eight elements:
  when the first seven forks succeed, the eighth writes past the array.
\<close>

lemma prodcons_fork_overflow:
  assumes "length childpid = 8" "length pids = 8" "-1 \<notin> set (take 7 pids)"
  shows "pc_fork_loop 1 childpid pids = UB"
proof -
  obtain a b c d e f g h where "pids = [a, b, c, d, e, f, g, h]"
    using assms(2) by (auto simp: eval_nat_numeral length_Suc_conv)
  then show ?thesis using assms(1,3) by (auto simp: eval_nat_numeral)
qed

lemma prodcons_fork_overflow_witness:
  "pc_fork_loop 1 (replicate 8 0) [11, 12, 13, 14, 15, 16, 17, 18] = UB"
  using prodcons_fork_overflow [of "replicate 8 0" "[11, 12, 13, 14, 15, 16, 17, 18]"] by simp

end
