(* ===== verification/Call_Script.thy ===== *)
theory Call_Script
  imports OS_Prelude
begin

text \<open>
  Straight-line set-up code: a sequence of calls that may fail, each with an error branch that
  releases some of what has been acquired and leaves with a code. The \<open>main\<close> functions and the
  kernel modules' \<open>init\<close> functions have this form; the question they share is what an early
  return leaves behind.
\<close>

datatype 'r effect = Acquire 'r | Release 'r | Check

text \<open>One statement: what the call does when it succeeds, what its error branch releases, and the
  code the error branch returns.\<close>

record 'r stmt =
  st_effect :: "'r effect"
  st_cleanup :: "'r list"
  st_code :: int

abbreviation call :: "'r effect \<Rightarrow> 'r list \<Rightarrow> int \<Rightarrow> 'r stmt" where
  "call e rs c \<equiv> \<lparr>st_effect = e, st_cleanup = rs, st_code = c\<rparr>"

fun apply_effect :: "'r effect \<Rightarrow> 'r list \<Rightarrow> 'r list" where
  "apply_effect (Acquire r) held = held @ [r]"
| "apply_effect (Release r) held = removeAll r held"
| "apply_effect Check held = held"

definition minus_all :: "'r list \<Rightarrow> 'r list \<Rightarrow> 'r list" where
  "minus_all held rs = filter (\<lambda>r. r \<notin> set rs) held"

text \<open>\<open>oks\<close> says which calls succeed (calls beyond its end succeed); the result is the return value
  and what is still held.\<close>

fun run_script :: "bool list \<Rightarrow> 'r stmt list \<Rightarrow> 'r list \<Rightarrow> int \<times> 'r list" where
  "run_script oks [] held = (0, held)"
| "run_script [] (s # ss) held = run_script [] ss (apply_effect (st_effect s) held)"
| "run_script (ok # oks) (s # ss) held =
     (if ok then run_script oks ss (apply_effect (st_effect s) held)
      else (st_code s, minus_all held (st_cleanup s)))"

definition all_ok :: "bool list \<Rightarrow> 'r stmt list \<Rightarrow> bool" where
  "all_ok oks ss \<longleftrightarrow> list_all id (take (length ss) oks)"

lemma all_ok_Cons [simp]: "all_ok (ok # oks) (s # ss) \<longleftrightarrow> ok \<and> all_ok oks ss"
  "all_ok [] ss" "all_ok oks []"
  by (auto simp: all_ok_def)

definition effects :: "'r stmt list \<Rightarrow> 'r list \<Rightarrow> 'r list" where
  "effects ss held = fold (\<lambda>s. apply_effect (st_effect s)) ss held"

lemma run_script_all_ok: "all_ok oks ss \<Longrightarrow> run_script oks ss held = (0, effects ss held)"
  by (induction oks ss held rule: run_script.induct) (auto simp: effects_def)

lemma run_script_not_ok: "\<not> all_ok oks ss \<Longrightarrow> \<exists>s \<in> set ss. fst (run_script oks ss held) = st_code s"
  by (induction oks ss held rule: run_script.induct) (auto simp: all_ok_def)

text \<open>The first failing call decides: everything before it has taken effect.\<close>

lemma run_script_first_failure:
  "n < length ss \<Longrightarrow> run_script (replicate n True @ False # oks) ss held =
     (st_code (ss ! n), minus_all (effects (take n ss) held) (st_cleanup (ss ! n)))"
proof (induction n arbitrary: ss held)
  case 0
  then show ?case by (cases ss) (simp_all add: effects_def)
next
  case (Suc n)
  then show ?case by (cases ss) (simp_all add: effects_def)
qed

text \<open>
  A script whose error branches release everything held at that point; such a script leaves
  nothing behind on any failure. \<open>covered\<close> is the static check.
\<close>

fun covered :: "'r stmt list \<Rightarrow> 'r list \<Rightarrow> bool" where
  "covered [] held \<longleftrightarrow> True"
| "covered (s # ss) held \<longleftrightarrow>
     set held \<subseteq> set (st_cleanup s) \<and> st_code s \<noteq> 0 \<and> covered ss (apply_effect (st_effect s) held)"

locale clean_script =
  fixes script :: "'r stmt list"
  assumes covers: "covered script []"
begin

lemma covered_run:
  "covered ss held \<Longrightarrow> \<not> all_ok oks ss \<Longrightarrow>
   fst (run_script oks ss held) \<noteq> 0 \<and> snd (run_script oks ss held) = []"
  by (induction oks ss held rule: run_script.induct) (auto simp: all_ok_def minus_all_def filter_empty_conv)

text \<open>All or nothing: either every call succeeded, or an error is returned and nothing is held.\<close>

lemma all_or_nothing:
  "run_script oks script [] = (0, effects script []) \<and> all_ok oks script \<or>
   (\<exists>c. c \<noteq> 0 \<and> run_script oks script [] = (c, []))"
proof (cases "all_ok oks script")
  case False
  then show ?thesis using covered_run [OF covers False] by (cases "run_script oks script []") auto
qed (simp add: run_script_all_ok)

end

end
