(* ===== verification/Ipc_Mains.thy ===== *)
theory Ipc_Mains
  imports Call_Script
begin

text \<open>
  The \<open>main\<close> functions of the two System V programs of \<open>sem_05/lab_03\<close> as call scripts: which IPC
  objects they create, in which order they remove them, and what an early return leaves in the
  kernel. The work of the children is in \<open>Prod_Cons\<close> and \<open>Reader_Writer\<close>.
\<close>

datatype ipc = SemSet | ShmSeg | ShmMap

text \<open>Every error branch of both functions is a bare \<open>return 1\<close> or \<open>exit(1)\<close>.\<close>

definition pc_main :: "ipc stmt list" where
  "pc_main = call (Acquire SemSet) [] 1 # replicate 3 (call Check [] 1) @
     [call Check [] 1, call (Acquire ShmSeg) [] 1, call (Acquire ShmMap) [] 1] @
     replicate 8 (call Check [] 1) @ replicate 8 (call Check [] 1) @
     [call (Release ShmMap) [] 1, call (Release SemSet) [] 1, call (Release ShmSeg) [] 1]"

definition rw_main :: "ipc stmt list" where
  "rw_main = call (Acquire SemSet) [] 1 # replicate 4 (call Check [] 1) @
     [call (Acquire ShmSeg) [] 1, call (Acquire ShmMap) [] 1, call Check [] 1] @
     replicate 7 (call Check [] 1) @ replicate 7 (call Check [] 1) @
     [call (Release ShmMap) [] 1, call (Release SemSet) [] 1, call (Release ShmSeg) [] 1]"

text \<open>The index of the call that removes the semaphore set.\<close>

definition sem_rmid :: "ipc stmt list \<Rightarrow> nat" where
  "sem_rmid ss = length ss - 2"

lemma ipc_lengths: "length pc_main = 26" "length rw_main = 25"
  by (simp_all add: pc_main_def rw_main_def)

lemma ipc_held:
  "\<forall>n \<in> set [0..<26]. st_code (pc_main ! n) = 1 \<and> st_cleanup (pc_main ! n) = [] \<and>
     (SemSet \<in> set (effects (take n pc_main) []) \<longleftrightarrow> 0 < n \<and> n \<le> 24)"
  "\<forall>n \<in> set [0..<25]. st_code (rw_main ! n) = 1 \<and> st_cleanup (rw_main ! n) = [] \<and>
     (SemSet \<in> set (effects (take n rw_main) []) \<longleftrightarrow> 0 < n \<and> n \<le> 23)"
  "effects pc_main [] = []" "effects rw_main [] = []"
  by code_simp+

text \<open>
  A run of either \<open>main\<close> in which every call succeeds returns 0 and removes every IPC object it
  created. Whichever call fails first, the result is 1, and the semaphore set stays in the
  kernel whenever the failing call comes after \<open>semget\<close> and not after the set's removal: no
  error branch removes anything.
\<close>

lemma ipc_main_cleanup:
  assumes "main = pc_main \<or> main = rw_main" "n < length main"
  shows "(all_ok oks main \<longrightarrow> run_script oks main [] = (0, [])) \<and>
    fst (run_script (replicate n True @ False # oks) main []) = 1 \<and>
    (SemSet \<in> set (snd (run_script (replicate n True @ False # oks) main [])) \<longleftrightarrow> 0 < n \<and> n \<le> sem_rmid main)"
proof -
  have "effects main [] = []" using assms(1) ipc_held(3,4) by auto
  moreover have "st_code (main ! n) = 1 \<and> st_cleanup (main ! n) = [] \<and>
     (SemSet \<in> set (effects (take n main) []) \<longleftrightarrow> 0 < n \<and> n \<le> sem_rmid main)"
    using assms ipc_held(1,2) by (auto simp: ipc_lengths sem_rmid_def)
  ultimately show ?thesis
    by (simp add: run_script_all_ok run_script_first_failure [OF assms(2)] minus_all_def)
qed

lemma ipc_main_cleanup_witness:
  "SemSet \<in> set (snd (run_script (replicate 2 True @ [False]) rw_main []))"
  using ipc_main_cleanup [of rw_main 2 "[]"] by (simp add: ipc_lengths sem_rmid_def)

end
