(* ===== verification/Wait_Status.thy ===== *)
theory Wait_Status
  imports OS_Prelude
begin

text \<open>
  The report every parent process of the repository prints after \<open>wait\<close>: the status word as the
  kernel builds it, the macros of \<open>sys/wait.h\<close> and the chain of tests that chooses the line.
\<close>

unbundle bit_operations_syntax

datatype child_end = Exited c_int | Killed c_int bool | Stopped c_int

text \<open>The status word: exit codes and stop signals in bits 8 to 15, a fatal signal in bits 0 to 6
  with the core flag in bit 7.\<close>

definition wait_status :: "child_end \<Rightarrow> c_int" where
  "wait_status e =
     (case e of
        Exited c \<Rightarrow> push_bit 8 (c AND 0xff)
      | Killed sig core \<Rightarrow> (sig AND 0x7f) OR (if core then 0x80 else 0)
      | Stopped sig \<Rightarrow> push_bit 8 (sig AND 0xff) OR 0x7f)"

definition WEXITSTATUS :: "c_int \<Rightarrow> c_int" where
  "WEXITSTATUS st = drop_bit 8 (st AND 0xff00)"

definition WTERMSIG :: "c_int \<Rightarrow> c_int" where
  "WTERMSIG st = st AND 0x7f"

definition WIFEXITED :: "c_int \<Rightarrow> bool" where
  "WIFEXITED st \<longleftrightarrow> WTERMSIG st = 0"

definition WIFSIGNALED :: "c_int \<Rightarrow> bool" where
  "WIFSIGNALED st \<longleftrightarrow> 0 < sint (signed_drop_bit 1 (ucast (WTERMSIG st + 1) :: c_char))"

definition WIFSTOPPED :: "c_int \<Rightarrow> bool" where
  "WIFSTOPPED st \<longleftrightarrow> st AND 0xff = 0x7f"

datatype report = ReportExited c_int | ReportKilled c_int | ReportStopped c_int | ReportNothing

text \<open>The tests in the order of the code.\<close>

definition wait_report :: "c_int \<Rightarrow> report" where
  "wait_report st =
     (if WIFEXITED st then ReportExited (WEXITSTATUS st)
      else if WIFSIGNALED st then ReportKilled (WTERMSIG st)
      else if WIFSTOPPED st then ReportStopped (WEXITSTATUS st)
      else ReportNothing)"

lemma all_bytes: "(\<forall>k \<in> set [0..<n]. P (of_nat k :: c_int)) \<Longrightarrow> unat c < n \<Longrightarrow> P c"
  by (drule bspec [where x = "unat c"]) simp_all

lemma report_exited: "unat c < 256 \<Longrightarrow> wait_report (wait_status (Exited c)) = ReportExited c"
proof (rule all_bytes [of 256 "\<lambda>c. wait_report (wait_status (Exited c)) = ReportExited c"])
  show "\<forall>k \<in> set [0..<256]. wait_report (wait_status (Exited (of_nat k))) = ReportExited (of_nat k)"
    by code_simp
qed

lemma report_killed: "unat c < 127 \<Longrightarrow> c \<noteq> 0 \<Longrightarrow> wait_report (wait_status (Killed c core)) = ReportKilled c"
proof (rule all_bytes [of 127 "\<lambda>c. c \<noteq> 0 \<longrightarrow> wait_report (wait_status (Killed c core)) = ReportKilled c", rule_format])
  have "\<forall>k \<in> set [0..<127]. of_nat k \<noteq> (0 :: c_int) \<longrightarrow>
      wait_report (wait_status (Killed (of_nat k) True)) = ReportKilled (of_nat k) \<and>
      wait_report (wait_status (Killed (of_nat k) False)) = ReportKilled (of_nat k)"
    by code_simp
  then show "wait_report (wait_status (Killed (of_nat k) core)) = ReportKilled (of_nat k)"
    if "k \<in> set [0..<127]" "of_nat k \<noteq> (0 :: c_int)" for k
    using that by (cases core) auto
qed auto

lemma report_stopped: "unat c < 256 \<Longrightarrow> wait_report (wait_status (Stopped c)) = ReportStopped c"
proof (rule all_bytes [of 256 "\<lambda>c. wait_report (wait_status (Stopped c)) = ReportStopped c"])
  show "\<forall>k \<in> set [0..<256]. wait_report (wait_status (Stopped (of_nat k))) = ReportStopped (of_nat k)"
    by code_simp
qed

lemmas wait_report_simps = report_exited report_killed report_stopped

text \<open>
  The report is faithful: the chain of tests prints the exit code of a child that exited, the
  signal of a child that was killed (with or without a core dump) and the signal of a stopped
  child, for every code and signal the status word can carry.
\<close>

lemma wait_report_faithful:
  assumes "unat c < 256" "unat sig < 127" "sig \<noteq> 0"
  shows "wait_report (wait_status (Exited c)) = ReportExited c \<and>
    wait_report (wait_status (Killed sig core)) = ReportKilled sig \<and>
    wait_report (wait_status (Stopped sig)) = ReportStopped sig"
  using assms by (simp add: wait_report_simps)

lemma wait_report_faithful_witness:
  "wait_report (wait_status (Exited 3)) = ReportExited 3 \<and>
   wait_report (wait_status (Killed 11 True)) = ReportKilled 11"
  using wait_report_faithful [of 3 11 True] by simp

end
