(* ===== verification/Fortune.thy ===== *)
theory Fortune
  imports Call_Script
begin

text \<open>
  \<open>lab_module/task_03/fortune.c\<close>: a proc file that collects messages in one page and hands
  them back one per read, starting again after the last. The model keeps the page byte by byte,
  with the code's guard and its index arithmetic.
\<close>

section \<open>State\<close>

definition COOKIE_POT_SIZE :: nat where "COOKIE_POT_SIZE = 4096"

record fortune =
  cookiePot :: "c_char list"
  readInd :: nat
  writeInd :: nat

datatype fo_errno = ENOSPC | EFAULT

text \<open>What \<open>copy_from_user\<close> and \<open>copy_to_user\<close> do: everything is copied, or a fault occurs after
  some bytes (then \<open>copy_from_user\<close> clears the rest of the target).\<close>

datatype user_copy = CopyOk | Fault nat

definition copied :: "user_copy \<Rightarrow> c_char list \<Rightarrow> c_char list" where
  "copied r bs = (case r of CopyOk \<Rightarrow> bs | Fault n \<Rightarrow> take n bs @ replicate (length bs - n) 0)"

definition splice :: "c_char list \<Rightarrow> nat \<Rightarrow> c_char list \<Rightarrow> c_char list" where
  "splice pot at bs = take at pot @ bs @ drop (at + length bs) pot"

section \<open>Operations\<close>

text \<open>
  The guard of line 53 compares a \<open>size_t\<close> with \<open>COOKIE_POT_SIZE - writeInd + 1\<close>, computed in
  \<open>unsigned long\<close>; \<open>writeInd\<close> is never negative.
\<close>

definition fo_guard :: "nat \<Rightarrow> nat \<Rightarrow> bool" where
  "fo_guard len w \<longleftrightarrow> of_nat COOKIE_POT_SIZE - of_nat w + (1 :: u64) < of_nat len"

definition fortuneWrite :: "user_copy \<Rightarrow> c_char list \<Rightarrow> fortune \<Rightarrow> ((fo_errno + nat) \<times> fortune) outcome" where
  "fortuneWrite cp buf s =
     (let len = length buf; w = writeInd s in
      if fo_guard len w then Cont (Inl ENOSPC, s)
      else if length (cookiePot s) < w + len then UB
      else (let pot = splice (cookiePot s) w (copied cp buf) in
        if cp \<noteq> CopyOk then Cont (Inl EFAULT, s\<lparr>cookiePot := pot\<rparr>)
        else if w + len = 0 then UB
        else Cont (Inr len, s\<lparr>cookiePot := pot[w + len - 1 := 0], writeInd := w + len\<rparr>)))"

text \<open>\<open>snprintf(tmpBuf, COOKIE_POT_SIZE, "%s\n", p)\<close>: the result is the untruncated length; the buffer
  receives at most \<open>COOKIE_POT_SIZE - 1\<close> bytes and a terminating zero.\<close>

definition c_string :: "c_char list \<Rightarrow> c_char list" where
  "c_string bs = takeWhile (\<lambda>c. c \<noteq> 0) bs"

definition fo_tmpBuf :: "c_char list \<Rightarrow> c_char list" where
  "fo_tmpBuf line = take (COOKIE_POT_SIZE - 1) line @ [0]"

text \<open>The result of a read: the bytes copied to the user, or an error. The user's \<open>len\<close> is not
  used by the code.\<close>

definition fortuneRead :: "user_copy \<Rightarrow> nat \<Rightarrow> nat \<Rightarrow> fortune \<Rightarrow> ((fo_errno + c_char list) \<times> fortune) outcome" where
  "fortuneRead cp len fPos s =
     (if 0 < fPos \<or> writeInd s = 0 then Cont (Inr [], s)
      else (let r = (if writeInd s \<le> readInd s then 0 else readInd s); s1 = s\<lparr>readInd := r\<rparr> in
        if 0 \<notin> set (drop r (cookiePot s)) then UB
        else (let line = c_string (drop r (cookiePot s)) @ [10]; readLen = length line in
          if cp \<noteq> CopyOk then Cont (Inl EFAULT, s1)
          else Cont (Inr (take readLen (fo_tmpBuf line)), s1\<lparr>readInd := r + readLen\<rparr>))))"

text \<open>\<open>md_init\<close> and \<open>freeMemory\<close> as a call script.\<close>

datatype fo_res = CookiePot | FortuneDir | FortuneFile | FortuneLink

definition fo_ENOMEM :: int where "fo_ENOMEM = -12"

definition freeMemory :: "fo_res list" where
  "freeMemory = [FortuneLink, FortuneFile, FortuneDir, CookiePot]"

definition fo_md_init :: "fo_res stmt list" where
  "fo_md_init = [call (Acquire CookiePot) [] fo_ENOMEM, call (Acquire FortuneDir) freeMemory fo_ENOMEM,
     call (Acquire FortuneFile) freeMemory fo_ENOMEM, call (Acquire FortuneLink) freeMemory fo_ENOMEM]"

definition fo_boot :: fortune where
  "fo_boot = \<lparr>cookiePot = replicate COOKIE_POT_SIZE 0, readInd = 0, writeInd = 0\<rparr>"

interpretation fo_init: clean_script fo_md_init
  by unfold_locales (simp add: fo_md_init_def freeMemory_def fo_ENOMEM_def)

section \<open>The page as a list of messages\<close>

text \<open>A message as it is stored: its last byte is replaced by a zero.\<close>

definition stored_msg :: "c_char list \<Rightarrow> c_char list" where
  "stored_msg m = butlast m @ [0]"

definition plain :: "c_char list \<Rightarrow> bool" where
  "plain m \<longleftrightarrow> m \<noteq> [] \<and> 0 \<notin> set (butlast m)"

definition page_of :: "c_char list list \<Rightarrow> c_char list" where
  "page_of ms = concat (map stored_msg ms)"

text \<open>\<open>fo_holds s ms j\<close>: the page holds the messages \<open>ms\<close>, and the next read starts at message \<open>j\<close>.\<close>

definition fo_holds :: "fortune \<Rightarrow> c_char list list \<Rightarrow> nat \<Rightarrow> bool" where
  "fo_holds s ms j \<longleftrightarrow> length (cookiePot s) = COOKIE_POT_SIZE \<and> writeInd s = length (page_of ms) \<and>
     writeInd s \<le> COOKIE_POT_SIZE \<and> take (writeInd s) (cookiePot s) = page_of ms \<and>
     j \<le> length ms \<and> readInd s = length (page_of (take j ms)) \<and> list_all plain ms"

lemma page_of_append [simp]: "page_of (ms @ ns) = page_of ms @ page_of ns"
  by (simp add: page_of_def)

lemma page_of_single [simp]: "page_of [m] = stored_msg m" "page_of [] = []"
  by (simp_all add: page_of_def)

lemma length_stored_msg [simp]: "m \<noteq> [] \<Longrightarrow> length (stored_msg m) = length m"
  by (cases m) (simp_all add: stored_msg_def)

lemma fo_guard_iff:
  assumes "w \<le> COOKIE_POT_SIZE" "len < 2 ^ 64"
  shows "fo_guard len w \<longleftrightarrow> COOKIE_POT_SIZE + 1 < w + len"
proof -
  have "of_nat COOKIE_POT_SIZE - of_nat w + (1 :: u64) = of_nat (COOKIE_POT_SIZE - w + 1)"
    using assms(1) by (simp add: of_nat_diff)
  moreover have "unat (of_nat (COOKIE_POT_SIZE - w + 1) :: u64) = COOKIE_POT_SIZE - w + 1"
    using assms(1) unfolding unat_of_nat by (intro mod_less) (simp add: COOKIE_POT_SIZE_def)
  moreover have "unat (of_nat len :: u64) = len" using assms(2) unfolding unat_of_nat by (intro mod_less) simp
  ultimately show ?thesis using assms(1) by (simp only: fo_guard_def word_less_nat_alt) linarith
qed

lemma page_of_take: "j < length ms \<Longrightarrow> page_of ms = page_of (take j ms) @ stored_msg (ms ! j) @ page_of (drop (Suc j) ms)"
proof -
  assume "j < length ms"
  then have "ms = take j ms @ [ms ! j] @ drop (Suc j) ms" by (simp add: id_take_nth_drop [symmetric])
  then have "page_of ms = page_of (take j ms @ [ms ! j] @ drop (Suc j) ms)" by simp
  also have "\<dots> = page_of (take j ms) @ stored_msg (ms ! j) @ page_of (drop (Suc j) ms)"
    by (simp only: page_of_append page_of_single)
  finally show ?thesis .
qed

lemma page_of_take_less: "j < length ms \<Longrightarrow> length (page_of (take j ms)) < length (page_of ms)"
  by (subst (2) page_of_take) (auto simp: stored_msg_def)

lemma c_string_stored: "plain m \<Longrightarrow> c_string (stored_msg m @ rest) = butlast m"
proof -
  assume "plain m"
  then have "\<forall>c \<in> set (butlast m). c \<noteq> 0" by (auto simp: plain_def)
  then show ?thesis by (simp add: c_string_def stored_msg_def takeWhile_append)
qed

lemma splice_take:
  "w \<le> length pot \<Longrightarrow> take (w + length bs) (splice pot w bs) = take w pot @ bs"
  by (simp add: splice_def)

lemma splice_length [simp]: "w + length bs \<le> length pot \<Longrightarrow> length (splice pot w bs) = length pot"
  by (simp add: splice_def)

lemma fo_write_holds:
  assumes "fo_holds s ms j" "plain m" "writeInd s + length m \<le> COOKIE_POT_SIZE"
  shows "\<exists>s'. fortuneWrite CopyOk m s = Cont (Inr (length m), s') \<and> fo_holds s' (ms @ [m]) j"
proof -
  let ?w = "writeInd s"
  let ?pot = "(splice (cookiePot s) ?w m)[?w + length m - 1 := 0]"
  let ?s = "s\<lparr>cookiePot := ?pot, writeInd := ?w + length m\<rparr>"
  have s: "length (cookiePot s) = COOKIE_POT_SIZE" "?w = length (page_of ms)" "?w \<le> COOKIE_POT_SIZE"
    "take ?w (cookiePot s) = page_of ms" "j \<le> length ms" "readInd s = length (page_of (take j ms))"
    "list_all plain ms"
    using assms(1) unfolding fo_holds_def by blast+
  have m: "m \<noteq> []" using assms(2) by (simp add: plain_def)
  have "\<not> fo_guard (length m) ?w"
    using fo_guard_iff [OF s(3), of "length m"] assms(3) by (simp add: COOKIE_POT_SIZE_def)
  then have run: "fortuneWrite CopyOk m s = Cont (Inr (length m), ?s)"
    using assms(3) s(1) m by (simp add: fortuneWrite_def copied_def Let_def)
  have "take (?w + length m) ?pot = (page_of ms @ m)[?w + length m - 1 := 0]"
    using splice_take [of ?w "cookiePot s" m] s m by (simp add: take_update_swap)
  also have "\<dots> = page_of (ms @ [m])"
    using m s(2) by (cases m rule: rev_cases) (simp_all add: stored_msg_def list_update_append)
  finally have "fo_holds ?s (ms @ [m]) j"
    using s assms m by (simp add: fo_holds_def)
  then show ?thesis using run by blast
qed

lemma fo_tmpBuf_line:
  assumes "m \<noteq> []" "length m \<le> COOKIE_POT_SIZE"
  shows "take (length m) (fo_tmpBuf (butlast m @ [10])) = butlast m @ [if length m = COOKIE_POT_SIZE then 0 else 10]"
proof (cases "length m = COOKIE_POT_SIZE")
  case True
  then have "take (COOKIE_POT_SIZE - 1) (butlast m @ [10]) = butlast m"
    by (metis append_eq_conv_conj length_butlast)
  then show ?thesis using True assms(1) by (simp add: fo_tmpBuf_def COOKIE_POT_SIZE_def)
next
  case False
  then have "length (butlast m @ [10]) \<le> COOKIE_POT_SIZE - 1" using assms by (cases m rule: rev_cases) simp_all
  then have "take (COOKIE_POT_SIZE - 1) (butlast m @ [10]) = butlast m @ [10]" by (rule take_all)
  then have "fo_tmpBuf (butlast m @ [10]) = (butlast m @ [10]) @ [0]" by (simp only: fo_tmpBuf_def)
  moreover have "length m = length (butlast m @ [10 :: c_char])" using assms(1) by (cases m rule: rev_cases) simp_all
  then have "take (length m) ((butlast m @ [10 :: c_char]) @ [0]) = butlast m @ [10]" by simp
  ultimately show ?thesis using False by simp
qed

lemma fo_read_holds:
  assumes "fo_holds s ms j" "ms \<noteq> []" "i = (if j = length ms then 0 else j)"
  shows "\<exists>s'. fortuneRead CopyOk len 0 s =
      Cont (Inr (butlast (ms ! i) @ [if length (ms ! i) = COOKIE_POT_SIZE then 0 else 10]), s') \<and>
    fo_holds s' ms (Suc i)"
proof -
  let ?w = "writeInd s" and ?m = "ms ! i"
  have s: "length (cookiePot s) = COOKIE_POT_SIZE" "?w = length (page_of ms)" "?w \<le> COOKIE_POT_SIZE"
    "take ?w (cookiePot s) = page_of ms" "j \<le> length ms" "readInd s = length (page_of (take j ms))"
    "list_all plain ms"
    using assms(1) unfolding fo_holds_def by blast+
  have i: "i < length ms" using assms(2,3) s(5) by (auto split: if_splits)
  then have m: "plain ?m" using s(7) by (simp add: list_all_length)
  have start: "(if ?w \<le> readInd s then 0 else readInd s) = length (page_of (take i ms))"
    using assms(3) s(2,5,6) page_of_take_less [of j ms] by auto
  have w: "?w \<noteq> 0" using s(2) page_of_take_less [OF i] by linarith
  have pot: "cookiePot s = page_of (take i ms) @ stored_msg ?m @ page_of (drop (Suc i) ms) @ drop ?w (cookiePot s)"
    using append_take_drop_id [of ?w "cookiePot s", symmetric] unfolding s(4) page_of_take [OF i] by simp
  have tail: "drop (length (page_of (take i ms))) (cookiePot s)
      = stored_msg ?m @ page_of (drop (Suc i) ms) @ drop ?w (cookiePot s)"
    by (subst pot) simp
  have ne: "?m \<noteq> []" and len: "length (page_of (take i ms)) + length ?m \<le> COOKIE_POT_SIZE"
    using m s(2,3) arg_cong [OF page_of_take [OF i], of length] by (auto simp: plain_def)
  then have mlen: "length ?m \<le> COOKIE_POT_SIZE" "0 < length ?m" by auto
  have out: "take (length ?m) (fo_tmpBuf (butlast ?m @ [10]))
      = butlast ?m @ [if length ?m = COOKIE_POT_SIZE then 0 else 10]"
    by (rule fo_tmpBuf_line [OF ne mlen(1)])
  have zero: "0 \<in> set (drop (length (page_of (take i ms))) (cookiePot s))"
    unfolding tail by (simp add: stored_msg_def)
  have line: "c_string (drop (length (page_of (take i ms))) (cookiePot s)) = butlast ?m"
    unfolding tail using c_string_stored [OF m] by simp
  let ?s = "s\<lparr>readInd := length (page_of (take i ms)) + length ?m\<rparr>"
  have "fortuneRead CopyOk len 0 s =
      Cont (Inr (butlast ?m @ [if length ?m = COOKIE_POT_SIZE then 0 else 10]), ?s)"
    using w zero mlen unfolding fortuneRead_def Let_def start line out [symmetric] by simp
  moreover have "fo_holds ?s ms (Suc i)"
    using s i ne by (simp add: fo_holds_def take_Suc_conv_app_nth)
  ultimately show ?thesis by blast
qed

section \<open>Properties\<close>

text \<open>Writing a list of messages; reading the file \<open>n\<close> times, each time from a fresh open.\<close>

fun fo_writes :: "c_char list list \<Rightarrow> fortune \<Rightarrow> fortune option" where
  "fo_writes [] s = Some s"
| "fo_writes (m # ms) s =
     (case fortuneWrite CopyOk m s of Cont (Inr n, s') \<Rightarrow> fo_writes ms s' | _ \<Rightarrow> None)"

fun fo_reads :: "nat \<Rightarrow> fortune \<Rightarrow> c_char list list option" where
  "fo_reads 0 s = Some []"
| "fo_reads (Suc n) s =
     (case fortuneRead CopyOk COOKIE_POT_SIZE 0 s of
        Cont (Inr bs, s') \<Rightarrow> map_option (\<lambda>rs. bs # rs) (fo_reads n s') | _ \<Rightarrow> None)"

lemma fo_writes_holds:
  "fo_holds s ns j \<Longrightarrow> list_all plain ms \<Longrightarrow> length (page_of ns) + length (concat ms) \<le> COOKIE_POT_SIZE \<Longrightarrow>
   \<exists>s'. fo_writes ms s = Some s' \<and> fo_holds s' (ns @ ms) j"
proof (induction ms arbitrary: s ns)
  case Nil
  then show ?case by simp
next
  case (Cons m ms)
  have w: "writeInd s = length (page_of ns)" using Cons.prems(1) unfolding fo_holds_def by blast
  then obtain s' where s': "fortuneWrite CopyOk m s = Cont (Inr (length m), s')" "fo_holds s' (ns @ [m]) j"
    using fo_write_holds [OF Cons.prems(1), of m] Cons.prems(2,3) by auto
  have "m \<noteq> []" using Cons.prems(2) by (simp add: plain_def)
  then show ?case using Cons.IH [OF s'(2)] Cons.prems s'(1) by (simp add: add.assoc)
qed

definition fo_line :: "c_char list \<Rightarrow> c_char list" where
  "fo_line m = butlast m @ [10]"

lemma fo_reads_holds:
  assumes "ms \<noteq> []" "\<forall>m \<in> set ms. length m < COOKIE_POT_SIZE"
  shows "fo_holds s ms j \<Longrightarrow>
    fo_reads n s = Some (map (\<lambda>i. fo_line (ms ! ((j + i) mod length ms))) [0..<n])"
proof (induction n arbitrary: s j)
  case (Suc n)
  let ?i = "if j = length ms then 0 else j"
  have j: "j \<le> length ms" using Suc.prems unfolding fo_holds_def by blast
  then have i: "?i = j mod length ms" "?i < length ms" using assms(1) by auto
  then have small: "length (ms ! ?i) \<noteq> COOKIE_POT_SIZE" using assms(2) nth_mem [OF i(2)] by fastforce
  obtain s' where s': "fortuneRead CopyOk COOKIE_POT_SIZE 0 s = Cont (Inr (fo_line (ms ! ?i)), s')"
    "fo_holds s' ms (Suc ?i)"
    using fo_read_holds [OF Suc.prems assms(1) refl, of COOKIE_POT_SIZE] small by (auto simp: fo_line_def)
  have shift: "(Suc ?i + k) mod length ms = (j + Suc k) mod length ms" for k
    unfolding i(1) by (simp add: mod_Suc_eq mod_add_left_eq)
      (metis add_Suc mod_Suc_eq mod_add_left_eq)
  have "fo_reads (Suc n) s = Some (fo_line (ms ! ?i) # map (\<lambda>k. fo_line (ms ! ((Suc ?i + k) mod length ms))) [0..<n])"
    unfolding fo_reads.simps s'(1) by (simp add: Suc.IH [OF s'(2)])
  also have "\<dots> = Some (map (\<lambda>i. fo_line (ms ! ((j + i) mod length ms))) [0..<Suc n])"
    unfolding shift by (simp add: map_upt_Suc i(1) del: upt_Suc)
  finally show ?case .
qed simp

lemma fo_boot_holds: "fo_holds fo_boot [] 0"
  by (simp add: fo_holds_def fo_boot_def)

text \<open>
  (C18) Round trip: messages without embedded zero bytes that fit into the page together are all
  accepted, and repeated reads return them in the order written, one per read, each with its
  last byte replaced by a newline, starting again with the first after the last.
\<close>

theorem fortune_roundtrip:
  assumes "ms \<noteq> []" "\<forall>m \<in> set ms. m \<noteq> [] \<and> 0 \<notin> set (butlast m) \<and> length m < COOKIE_POT_SIZE"
    "length (concat ms) \<le> COOKIE_POT_SIZE"
  shows "\<exists>s. fo_writes ms fo_boot = Some s \<and>
    fo_reads n s = Some (map (\<lambda>i. butlast (ms ! (i mod length ms)) @ [10]) [0..<n])"
proof -
  have "list_all plain ms" using assms(2) by (auto simp: list_all_iff plain_def)
  then obtain s where s: "fo_writes ms fo_boot = Some s" "fo_holds s ms 0"
    using fo_writes_holds [OF fo_boot_holds, of ms] assms(3) by auto
  have "fo_reads n s = Some (map (\<lambda>i. butlast (ms ! (i mod length ms)) @ [10]) [0..<n])"
    using fo_reads_holds [OF assms(1) _ s(2), of n] assms(2) by (simp add: fo_line_def)
  with s(1) show ?thesis by blast
qed

theorem fortune_roundtrip_witness:
  "\<exists>s. fo_writes [[104, 105, 10], [120, 10]] fo_boot = Some s \<and>
     fo_reads 3 s = Some [[104, 105, 10], [120, 10], [104, 105, 10]]"
  using fortune_roundtrip [of "[[104, 105, 10], [120, 10]]" 3]
  by (simp add: COOKIE_POT_SIZE_def upt_rec)

text \<open>
  (C19) The guard of the write operation is off by one: from a state with \<open>writeInd\<close> inside the
  page, a write has undefined behaviour exactly when it would end one byte past the page, which
  the guard lets through, or when it is an empty write to the empty page, which stores a zero
  at index -1. Every longer write is refused.
\<close>

theorem fortune_write_overflow:
  assumes "length (cookiePot s) = COOKIE_POT_SIZE" "writeInd s \<le> COOKIE_POT_SIZE" "length buf < 2 ^ 64"
  shows "(fortuneWrite cp buf s = UB \<longleftrightarrow> writeInd s + length buf = COOKIE_POT_SIZE + 1 \<or>
      writeInd s = 0 \<and> buf = [] \<and> cp = CopyOk) \<and>
    (COOKIE_POT_SIZE + 1 < writeInd s + length buf \<longleftrightarrow> fortuneWrite cp buf s = Cont (Inl ENOSPC, s))"
proof -
  note guard = fo_guard_iff [OF assms(2,3)]
  show ?thesis
  proof (cases "COOKIE_POT_SIZE + 1 < writeInd s + length buf")
    case True
    then have "fortuneWrite cp buf s = Cont (Inl ENOSPC, s)" using guard by (simp add: fortuneWrite_def)
    then show ?thesis using True by (auto simp: COOKIE_POT_SIZE_def)
  next
    case False
    then have no: "\<not> fo_guard (length buf) (writeInd s)" using guard by simp
    show ?thesis
    proof (cases "writeInd s + length buf = COOKIE_POT_SIZE + 1")
      case True
      then show ?thesis using no assms(1) by (simp add: fortuneWrite_def)
    next
      case neq: False
      then have fits: "\<not> length (cookiePot s) < writeInd s + length buf" using False assms(1) by simp
      show ?thesis using no fits False neq by (auto simp: fortuneWrite_def Let_def)
    qed
  qed
qed

theorem fortune_write_overflow_witness:
  "fortuneWrite CopyOk (replicate 4097 1) fo_boot = UB"
  using fortune_write_overflow [of fo_boot "replicate 4097 1" CopyOk]
  by (simp add: fo_boot_def COOKIE_POT_SIZE_def)

end
