(* ===== verification/Key_Irq.thy ===== *)
theory Key_Irq
  imports Call_Script
begin

text \<open>
  \<open>lab_tasklet/tasklet.c\<close> and \<open>lab_tasklet/my_workqueue.c\<close>: a handler on the keyboard interrupt
  that defers the work on a key release to a tasklet, or to two work items of a workqueue. The
  model has the table of key names, both handlers, the deferred functions, the proc output,
  and the order in which the modules release what the handler uses.
\<close>

unbundle bit_operations_syntax

section \<open>Key names\<close>

definition ascii_head :: "string list" where
  "ascii_head = ['' '', ''Esc'', ''1'', ''2'', ''3'', ''4'', ''5'', ''6'', ''7'', ''8'', ''9'', ''0'', ''-'', ''+'', ''Backspace'', ''Tab'']"

definition ascii_tail :: "string list" where
  "ascii_tail = [''<'', ''>'', ''?'', ''Shift (right)'', ''*'', ''Alt'', ''Space'', ''CapsLock'',
     ''F1'', ''F2'', ''F3'', ''F4'', ''F5'', ''F6'', ''F7'', ''F8'', ''F9'', ''F10'',
     ''NumLock'', ''ScrollLock'', ''Home'', ''Up'', ''Page-Up'', ''-'', ''Left'',
     '' '', ''Right'', ''+'', ''End'', ''Down'', ''Page-Down'', ''Insert'', ''Delete'']"

text \<open>The tables of the two modules differ in the case of the letters.\<close>

definition ascii :: "string list" where
  "ascii = ascii_head @ [''Q'', ''W'', ''E'', ''R'', ''T'', ''Y'', ''U'', ''I'', ''O'', ''P'', ''['', '']'', ''Enter'', ''Ctrl'',
     ''A'', ''S'', ''D'', ''F'', ''G'', ''H'', ''J'', ''K'', ''L'', '';'', [CHR 0x22], [CHR 0x27], ''Shift (left)'', ''|'',
     ''Z'', ''X'', ''C'', ''V'', ''B'', ''N'', ''M''] @ ascii_tail"

definition wq_ascii :: "string list" where
  "wq_ascii = ascii_head @ [''q'', ''w'', ''e'', ''r'', ''t'', ''y'', ''u'', ''i'', ''o'', ''p'', ''['', '']'', ''Enter'', ''Ctrl'',
     ''a'', ''s'', ''d'', ''f'', ''g'', ''h'', ''j'', ''k'', ''l'', '';'', [CHR 0x22], [CHR 0x27], ''Shift (left)'', ''|'',
     ''z'', ''x'', ''c'', ''v'', ''b'', ''n'', ''m''] @ ascii_tail"

lemma ascii_length: "length ascii = 84" "length wq_ascii = 84"
  by code_simp+

text \<open>\<open>strncpy(dst, src, 19); dst[19] = 0\<close> on a buffer of 20 characters.\<close>

definition key_name_copy :: "string \<Rightarrow> string" where
  "key_name_copy src = take 19 (src @ replicate 19 (CHR 0x00)) @ [CHR 0x00]"

definition c_str :: "string \<Rightarrow> string" where
  "c_str buf = takeWhile (\<lambda>c. c \<noteq> CHR 0x00) buf"

section \<open>The tasklet module\<close>

text \<open>The tasklet itself: \<open>None\<close> when it is not allocated, else its data and whether it is pending.\<close>

record key_state =
  tasklet :: "(c_int \<times> bool) option"
  last_key_name :: string
  last_key_code :: int
  irq_registered :: bool

definition press_code :: "c_int \<Rightarrow> c_int" where
  "press_code scancode = scancode AND 0x7F"

definition accepted :: "c_int \<Rightarrow> bool" where
  "accepted scancode \<longleftrightarrow> scancode AND 0x80 \<noteq> 0 \<and> press_code scancode < 84 \<and> press_code scancode \<noteq> 28"

definition IRQ_NUM :: int where "IRQ_NUM = 1"

datatype irqreturn_t = IRQ_HANDLED | IRQ_NONE

definition my_irq_handler :: "int \<Rightarrow> c_char \<Rightarrow> key_state \<Rightarrow> (irqreturn_t \<times> key_state) outcome" where
  "my_irq_handler irq port s =
     (let scancode = ucast port in
      if irq = IRQ_NUM \<and> accepted scancode then
        (case tasklet s of
           None \<Rightarrow> UB
         | Some (d, pending) \<Rightarrow> Cont (IRQ_HANDLED, s\<lparr>tasklet := Some (scancode, True)\<rparr>))
      else Cont (IRQ_NONE, s))"

definition my_tasklet_fun :: "c_int \<Rightarrow> key_state \<Rightarrow> key_state outcome" where
  "my_tasklet_fun data s =
     (if unat (press_code data) < length ascii
      then Cont (s\<lparr>last_key_code := sint data, last_key_name := key_name_copy (ascii ! unat (press_code data))\<rparr>)
      else UB)"

text \<open>The softirq runs a pending tasklet once.\<close>

definition run_tasklet :: "key_state \<Rightarrow> key_state outcome" where
  "run_tasklet s =
     (case tasklet s of
        None \<Rightarrow> Cont s
      | Some (d, pending) \<Rightarrow>
          (if pending then my_tasklet_fun d (s\<lparr>tasklet := Some (d, False)\<rparr>) else Cont s))"

datatype key_output = KeyLine string int | ExecLine

definition key_buf_show :: "key_state \<Rightarrow> key_output list" where
  "key_buf_show s =
     (if last_key_code s \<noteq> -1 then [KeyLine (c_str (last_key_name s)) (last_key_code s)] else []) @ [ExecLine]"

definition key_boot :: key_state where
  "key_boot = \<lparr>tasklet = Some (0, False), last_key_name = replicate 20 (CHR 0x00), last_key_code = -1, irq_registered = True\<rparr>"

text \<open>Interrupts in a row, before the softirq gets to run.\<close>

fun key_irqs :: "c_char list \<Rightarrow> key_state \<Rightarrow> key_state outcome" where
  "key_irqs [] s = Cont s"
| "key_irqs (p # ps) s =
     (case my_irq_handler IRQ_NUM p s of
        Cont (r, s') \<Rightarrow> key_irqs ps s' | Blocked \<Rightarrow> Blocked | Exit c \<Rightarrow> Exit c | UB \<Rightarrow> UB)"

section \<open>The workqueue module\<close>

record my_work =
  w_code :: c_int
  w_pending :: bool

record wq_state =
  work1 :: my_work
  work2 :: my_work
  wq_name :: string
  wq_code :: int

definition irq_handler :: "int \<Rightarrow> c_char \<Rightarrow> wq_state \<Rightarrow> irqreturn_t \<times> wq_state" where
  "irq_handler irq port s =
     (let code = ucast port in
      if irq = IRQ_NUM \<and> accepted code
      then (IRQ_HANDLED, s\<lparr>work1 := \<lparr>w_code = code, w_pending = True\<rparr>, work2 := \<lparr>w_code = code, w_pending = True\<rparr>\<rparr>)
      else (IRQ_NONE, s))"

definition work_fn :: "c_int \<Rightarrow> wq_state \<Rightarrow> wq_state outcome" where
  "work_fn code s =
     (if unat (press_code code) < length wq_ascii
      then Cont (s\<lparr>wq_code := sint code, wq_name := key_name_copy (wq_ascii ! unat (press_code code))\<rparr>)
      else UB)"

text \<open>The worker takes a pending item and runs it; \<open>work1_fn\<close> and \<open>work2_fn\<close> differ only in the
  pause and in the clock they update.\<close>

definition work1_fn :: "wq_state \<Rightarrow> wq_state outcome" where
  "work1_fn s = (if w_pending (work1 s)
     then work_fn (w_code (work1 s)) (s\<lparr>work1 := (work1 s)\<lparr>w_pending := False\<rparr>\<rparr>) else Cont s)"

definition work2_fn :: "wq_state \<Rightarrow> wq_state outcome" where
  "work2_fn s = (if w_pending (work2 s)
     then work_fn (w_code (work2 s)) (s\<lparr>work2 := (work2 s)\<lparr>w_pending := False\<rparr>\<rparr>) else Cont s)"

definition wq_irqs :: "c_char list \<Rightarrow> wq_state \<Rightarrow> wq_state" where
  "wq_irqs ps s = fold (\<lambda>p s. snd (irq_handler IRQ_NUM p s)) ps s"

definition wq_boot :: wq_state where
  "wq_boot = \<lparr>work1 = \<lparr>w_code = 0, w_pending = False\<rparr>, work2 = \<lparr>w_code = 0, w_pending = False\<rparr>,
     wq_name = replicate 20 (CHR 0x00), wq_code = -1\<rparr>"

section \<open>Set-up and tear-down\<close>

datatype key_res = TaskletMem | Irq | ProcEntry | Wq | Work1Mem | Work2Mem

definition key_ENOMEM :: int where "key_ENOMEM = -12"
definition key_EBUSY :: int where "key_EBUSY = -16"

text \<open>The cleanup lists are in the order of the code; the value \<open>ret\<close> of a failed
  \<open>request_irq\<close> is taken as -16.\<close>

definition tasklet_init_script :: "key_res stmt list" where
  "tasklet_init_script = [call (Acquire TaskletMem) [] key_ENOMEM, call (Acquire Irq) [TaskletMem] key_EBUSY,
     call (Acquire ProcEntry) [TaskletMem, Irq] key_ENOMEM]"

definition tasklet_exit :: "key_res list" where
  "tasklet_exit = [ProcEntry, Irq, TaskletMem]"

definition wq_init_script :: "key_res stmt list" where
  "wq_init_script = [call (Acquire Wq) [] key_ENOMEM, call (Acquire Work1Mem) [Wq] key_ENOMEM,
     call (Acquire Work2Mem) [Wq, Work1Mem] key_ENOMEM, call (Acquire Irq) [Work1Mem, Work2Mem, Wq] key_EBUSY,
     call (Acquire ProcEntry) [Irq, Work1Mem, Work2Mem, Wq] key_ENOMEM]"

definition wq_exit :: "key_res list" where
  "wq_exit = [ProcEntry, Irq, Wq, Work1Mem, Work2Mem]"

interpretation tasklet_script: clean_script tasklet_init_script
  by unfold_locales (simp add: tasklet_init_script_def key_ENOMEM_def key_EBUSY_def)

interpretation wq_script: clean_script wq_init_script
  by unfold_locales (simp add: wq_init_script_def key_ENOMEM_def key_EBUSY_def insert_commute)

text \<open>
  An interrupt may arrive between any two releases. \<open>irq_window\<close> holds when, at some point of a
  tear-down that starts with \<open>held\<close>, the handler is still registered although something it uses
  has been released.
\<close>

fun irq_window :: "key_res set \<Rightarrow> key_res list \<Rightarrow> key_res list \<Rightarrow> bool" where
  "irq_window needs held [] \<longleftrightarrow> False"
| "irq_window needs held (r # rs) \<longleftrightarrow>
     (let held' = removeAll r held in Irq \<in> set held' \<and> \<not> needs \<subseteq> set held' \<or> irq_window needs held' rs)"

section \<open>Properties\<close>

lemma accepted_codes:
  "\<forall>k \<in> set [0..<256]. accepted (ucast (of_nat k :: c_char)) \<longrightarrow>
     unat (press_code (ucast (of_nat k :: c_char))) = k - 128 \<and> 128 \<le> k \<and> k < 212 \<and> k \<noteq> 156 \<and>
     sint (ucast (of_nat k :: c_char) :: c_int) = int k"
  by code_simp

lemma accepted_index:
  fixes p :: c_char
  assumes "accepted (ucast p)"
  shows "unat (press_code (ucast p)) = unat p - 128 \<and> 128 \<le> unat p \<and> unat p < 212 \<and> unat p \<noteq> 156 \<and>
    sint (ucast p :: c_int) = int (unat p)"
proof -
  have "unat p < 256" using unsigned_less [of p] by simp
  then have "unat p \<in> set [0..<256]" by simp
  from bspec [OF accepted_codes this] assms show ?thesis by simp
qed

lemma key_name_copy_str:
  "length s < 20 \<Longrightarrow> CHR 0x00 \<notin> set s \<Longrightarrow> c_str (key_name_copy s) = s \<and> length (key_name_copy s) = 20"
proof -
  assume s: "length s < 20" "CHR 0x00 \<notin> set s"
  have copy: "key_name_copy s = s @ replicate (19 - length s) (CHR 0x00) @ [CHR 0x00]"
    using s(1) by (simp add: key_name_copy_def)
  have "takeWhile (\<lambda>c. c \<noteq> CHR 0x00) (replicate n (CHR 0x00) @ [CHR 0x00]) = []" for n by (cases n) simp_all
  moreover have "\<forall>c \<in> set s. c \<noteq> CHR 0x00" using s(2) by auto
  ultimately show ?thesis using s(1) by (simp add: c_str_def copy)
qed

lemma names_short:
  "\<forall>s \<in> set ascii. length s < 20 \<and> CHR 0x00 \<notin> set s" "\<forall>s \<in> set wq_ascii. length s < 20 \<and> CHR 0x00 \<notin> set s"
  by code_simp+

text \<open>The tasklet after a series of interrupts: it holds the last accepted scan code.\<close>

definition accepted_ports :: "c_char list \<Rightarrow> c_char list" where
  "accepted_ports ps = filter (\<lambda>p. accepted (ucast p)) ps"

lemma key_irqs_tasklet:
  "tasklet s = Some (d, b) \<Longrightarrow>
   key_irqs ps s = Cont (s\<lparr>tasklet := Some (if accepted_ports ps = [] then (d, b) else (ucast (last (accepted_ports ps)), True))\<rparr>)"
proof (induction ps arbitrary: s d b)
  case Nil
  then show ?case by (cases s) (simp add: accepted_ports_def)
next
  case (Cons p ps)
  show ?case
  proof (cases "accepted (ucast p)")
    case True
    then show ?thesis
      using Cons.prems Cons.IH [of "s\<lparr>tasklet := Some (ucast p, True)\<rparr>" "ucast p" True]
      by (simp add: my_irq_handler_def accepted_ports_def)
  next
    case False
    then show ?thesis
      using Cons.prems Cons.IH [OF Cons.prems] by (simp add: my_irq_handler_def accepted_ports_def)
  qed
qed

lemma wq_irqs_works:
  "wq_irqs ps s = s\<lparr>work1 := (if accepted_ports ps = [] then work1 s else \<lparr>w_code = ucast (last (accepted_ports ps)), w_pending = True\<rparr>),
     work2 := (if accepted_ports ps = [] then work2 s else \<lparr>w_code = ucast (last (accepted_ports ps)), w_pending = True\<rparr>)\<rparr>"
proof (induction ps arbitrary: s)
  case Nil
  then show ?case by (cases s) (simp add: wq_irqs_def accepted_ports_def)
next
  case (Cons p ps)
  have "wq_irqs (p # ps) s = wq_irqs ps (snd (irq_handler IRQ_NUM p s))" by (simp add: wq_irqs_def)
  then show ?case using Cons.IH by (auto simp: irq_handler_def accepted_ports_def Let_def)
qed

lemma key_name_shown:
  fixes p :: c_char
  assumes "accepted (ucast p)"
  shows "unat (press_code (ucast p)) < length ascii" "unat (press_code (ucast p)) < length wq_ascii"
    "c_str (key_name_copy (ascii ! (unat p - 128))) = ascii ! (unat p - 128)"
    "c_str (key_name_copy (wq_ascii ! (unat p - 128))) = wq_ascii ! (unat p - 128)"
proof -
  have i: "unat p - 128 < 84" "unat (press_code (ucast p)) = unat p - 128"
    using accepted_index [OF assms] by auto
  then show "unat (press_code (ucast p)) < length ascii" "unat (press_code (ucast p)) < length wq_ascii"
    by (simp_all add: ascii_length)
  have "ascii ! (unat p - 128) \<in> set ascii" "wq_ascii ! (unat p - 128) \<in> set wq_ascii"
    using i(1) by (intro nth_mem; simp add: ascii_length)+
  then show "c_str (key_name_copy (ascii ! (unat p - 128))) = ascii ! (unat p - 128)"
    "c_str (key_name_copy (wq_ascii ! (unat p - 128))) = wq_ascii ! (unat p - 128)"
    using names_short key_name_copy_str by blast+
qed

text \<open>
  Whatever bytes the keyboard port delivers, neither module indexes its table out of range,
  and once the deferred work has run both report the last accepted key release before it: the
  proc file of the tasklet module shows the full name of that key and its scan code, and
  earlier releases that were still pending are overwritten. Without an accepted release nothing
  is reported.
\<close>

lemma keys_report_last_release:
  shows "\<exists>s. key_irqs ps key_boot = Cont s \<and> (\<exists>s'. run_tasklet s = Cont s' \<and>
      key_buf_show s' = (if accepted_ports ps = [] then [ExecLine]
        else let p = last (accepted_ports ps) in [KeyLine (ascii ! (unat p - 128)) (int (unat p)), ExecLine])) \<and>
    (\<exists>w w'. work1_fn (wq_irqs ps wq_boot) = Cont w \<and> work2_fn w = Cont w' \<and>
      (accepted_ports ps = [] \<and> wq_code w' = -1 \<or> accepted_ports ps \<noteq> [] \<and>
        wq_code w' = int (unat (last (accepted_ports ps))) \<and>
        c_str (wq_name w') = wq_ascii ! (unat (last (accepted_ports ps)) - 128)))"
proof (cases "accepted_ports ps = []")
  case True
  have b: "tasklet key_boot = Some (0, False)" by (simp add: key_boot_def)
  have "key_irqs ps key_boot = Cont key_boot"
    using key_irqs_tasklet [OF b, of ps] True b by (cases key_boot) (simp add: key_boot_def)
  moreover have "wq_irqs ps wq_boot = wq_boot" using wq_irqs_works [of ps wq_boot] True by (simp add: wq_boot_def)
  ultimately show ?thesis
    using True by (simp add: run_tasklet_def key_boot_def key_buf_show_def work1_fn_def work2_fn_def wq_boot_def)
next
  case False
  let ?p = "last (accepted_ports ps)"
  have b: "tasklet key_boot = Some (0, False)" by (simp add: key_boot_def)
  have "?p \<in> set (accepted_ports ps)" using False by (rule last_in_set)
  then have acc: "accepted (ucast ?p)" by (simp add: accepted_ports_def)
  note idx = accepted_index [OF acc] and nm = key_name_shown [OF acc]
  have pos: "uint ?p \<noteq> -1" using uint_nat [of ?p] by linarith
  let ?s = "key_boot\<lparr>tasklet := Some (ucast ?p, True)\<rparr>"
  have irqs: "key_irqs ps key_boot = Cont ?s" using key_irqs_tasklet [OF b, of ps] False by simp
  have "\<exists>s'. run_tasklet ?s = Cont s' \<and> key_buf_show s' = [KeyLine (ascii ! (unat ?p - 128)) (int (unat ?p)), ExecLine]"
    using nm(1,3) idx pos by (simp add: run_tasklet_def my_tasklet_fun_def key_buf_show_def)
  moreover have "\<exists>w w'. work1_fn (wq_irqs ps wq_boot) = Cont w \<and> work2_fn w = Cont w' \<and>
      wq_code w' = int (unat ?p) \<and> c_str (wq_name w') = wq_ascii ! (unat ?p - 128)"
    using nm(2,4) idx False
    by (simp add: wq_irqs_works [of ps] work1_fn_def work2_fn_def work_fn_def)
  ultimately show ?thesis using irqs False by (simp add: Let_def)
qed

text \<open>
  Both \<open>init\<close> functions are all-or-nothing: either every call succeeds and everything is held,
  or an error is returned and nothing is. But the tear-downs differ: the error branch of the
  tasklet module frees the tasklet while the interrupt handler is still registered, so a key
  release in between makes the handler write to freed memory; the workqueue module and both
  exit functions unregister the handler first.
\<close>

lemma key_teardown_windows:
  "(run_script oks tasklet_init_script [] = (0, [TaskletMem, Irq, ProcEntry]) \<or>
      (\<exists>c. c \<noteq> 0 \<and> run_script oks tasklet_init_script [] = (c, []))) \<and>
   (run_script oks wq_init_script [] = (0, [Wq, Work1Mem, Work2Mem, Irq, ProcEntry]) \<or>
      (\<exists>c. c \<noteq> 0 \<and> run_script oks wq_init_script [] = (c, []))) \<and>
   irq_window {TaskletMem} [TaskletMem, Irq] (st_cleanup (tasklet_init_script ! 2)) \<and>
   my_irq_handler IRQ_NUM 0x9E (key_boot\<lparr>tasklet := None\<rparr>) = UB \<and>
   \<not> irq_window {TaskletMem} [TaskletMem, Irq, ProcEntry] tasklet_exit \<and>
   \<not> irq_window {Wq, Work1Mem, Work2Mem} [Wq, Work1Mem, Work2Mem, Irq] (st_cleanup (wq_init_script ! 4)) \<and>
   \<not> irq_window {Wq, Work1Mem, Work2Mem} [Wq, Work1Mem, Work2Mem, Irq, ProcEntry] wq_exit"
proof -
  have eff: "effects tasklet_init_script [] = [TaskletMem, Irq, ProcEntry]"
    "effects wq_init_script [] = [Wq, Work1Mem, Work2Mem, Irq, ProcEntry]"
    by code_simp+
  have windows: "irq_window {TaskletMem} [TaskletMem, Irq] (st_cleanup (tasklet_init_script ! 2))"
    "my_irq_handler IRQ_NUM 0x9E (key_boot\<lparr>tasklet := None\<rparr>) = UB"
    "\<not> irq_window {TaskletMem} [TaskletMem, Irq, ProcEntry] tasklet_exit"
    "\<not> irq_window {Wq, Work1Mem, Work2Mem} [Wq, Work1Mem, Work2Mem, Irq] (st_cleanup (wq_init_script ! 4))"
    "\<not> irq_window {Wq, Work1Mem, Work2Mem} [Wq, Work1Mem, Work2Mem, Irq, ProcEntry] wq_exit"
    by code_simp+
  show ?thesis
    using tasklet_script.all_or_nothing [of oks] wq_script.all_or_nothing [of oks] windows
    unfolding eff by blast
qed

end
