(* ===== verification/Vfs_Module.thy ===== *)
theory Vfs_Module
  imports Call_Script
begin

text \<open>
  \<open>lab_vfs\<close>: three file-system modules. Their \<open>init\<close> functions register a file system and fill a
  slab cache (\<open>main.c\<close> with \<open>cached_count\<close> objects, \<open>my_vfs.c\<close> and \<open>myfs.c\<close> with 256), and
  \<open>fill_super\<close> builds the root inode. The model follows what each failure leaves behind.
\<close>

section \<open>Initialisation\<close>

datatype vfs_res = FsType | CacheMem | SlabCache | Obj nat

definition vfs_ENOMEM :: int where "vfs_ENOMEM = -12"
definition vfs_EBUSY :: int where "vfs_EBUSY = -16"

definition objs :: "nat \<Rightarrow> vfs_res list" where
  "objs n = map Obj [0..<n]"

text \<open>\<open>myvfs_init\<close> of \<open>main.c\<close>: the error branch of the \<open>i\<close>-th allocation frees the objects before
  it, the cache, the array and the registration.\<close>

definition myvfs_init :: "nat \<Rightarrow> vfs_res stmt list" where
  "myvfs_init cached_count =
     [call (Acquire FsType) [] vfs_EBUSY, call (Acquire CacheMem) [FsType] vfs_ENOMEM,
      call (Acquire SlabCache) [CacheMem, FsType] vfs_ENOMEM] @
     map (\<lambda>i. call (Acquire (Obj i)) (objs i @ [SlabCache, CacheMem, FsType]) vfs_ENOMEM) [0..<cached_count]"

text \<open>The unload function: objects that were allocated are freed, then the array and the cache.\<close>

definition myvfs_exit :: "nat \<Rightarrow> vfs_res list \<Rightarrow> vfs_res list" where
  "myvfs_exit cached_count held = minus_all held ([FsType] @ objs cached_count @ [CacheMem, SlabCache])"

text \<open>\<open>myfs_init\<close> of \<open>my_vfs.c\<close> and \<open>myfs.c\<close>: the branch after \<open>kmalloc\<close> releases nothing, the branch
  after \<open>kmem_cache_create\<close> only the array, and a failed \<open>kmem_cache_alloc\<close> is only reported.\<close>

definition myfs_init :: "vfs_res stmt list" where
  "myfs_init = [call (Acquire FsType) [] vfs_EBUSY, call (Acquire CacheMem) [] vfs_ENOMEM,
     call (Acquire SlabCache) [CacheMem] vfs_ENOMEM]"

text \<open>The allocation loop and the unload loop on the array \<open>tmp\<close>: \<open>None\<close> is a null pointer; freeing
  a null pointer with \<open>kmem_cache_free\<close> is not allowed.\<close>

definition myfs_alloc :: "bool list \<Rightarrow> nat option list" where
  "myfs_alloc oks = map (\<lambda>i. if i < length oks \<and> \<not> oks ! i then None else Some i) [0..<256]"

definition myfs_exit_frees :: "nat option list \<Rightarrow> nat list outcome" where
  "myfs_exit_frees tmp = (if list_all (\<lambda>p. p \<noteq> None) (take 256 tmp) then Cont (map the (take 256 tmp)) else UB)"

section \<open>The root inode\<close>

text \<open>
  \<open>fill_super\<close>: \<open>new_inode\<close> gives an inode with one reference, \<open>d_make_root\<close> consumes it. Both are
  kernel functions and parameters here: \<open>new_inode\<close> tells whether it succeeds, and
  \<open>d_make_root r\<close> gives success and the references left for a caller that holds \<open>r\<close>. The
  result is the return value and the references the function still accounts for.
\<close>

definition myvfs_fill_super :: "bool \<Rightarrow> (int \<Rightarrow> bool \<times> int) \<Rightarrow> int \<times> int" where
  "myvfs_fill_super new_inode_ok d_make_root =
     (if \<not> new_inode_ok then (vfs_ENOMEM, 0)
      else (case d_make_root 1 of (ok, refs) \<Rightarrow> if \<not> ok then (vfs_ENOMEM, refs - 1) else (0, refs)))"

definition myfs_fill_sb :: "bool \<Rightarrow> (int \<Rightarrow> bool \<times> int) \<Rightarrow> int \<times> int" where
  "myfs_fill_sb new_inode_ok d_make_root =
     (if \<not> new_inode_ok then (vfs_ENOMEM, 0)
      else (case d_make_root 1 of (ok, refs) \<Rightarrow> if \<not> ok then (vfs_ENOMEM, refs) else (0, refs)))"

section \<open>Lemmas\<close>

lemma objs_Suc: "objs (Suc n) = objs n @ [Obj n]"
  by (simp add: objs_def)

lemma covered_allocs:
  "covered (map (\<lambda>i. call (Acquire (Obj i)) (objs i @ [SlabCache, CacheMem, FsType]) vfs_ENOMEM) [k..<n])
     ([FsType, CacheMem, SlabCache] @ objs k)"
proof (induction "n - k" arbitrary: k)
  case (Suc m)
  then have "k < n" "m = n - Suc k" by simp_all
  then show ?case
    using Suc.hyps(1) [of "Suc k"] by (auto simp: upt_conv_Cons objs_Suc vfs_ENOMEM_def)
qed simp

interpretation myvfs: clean_script "myvfs_init n" for n
proof unfold_locales
  show "covered (myvfs_init n) []"
    using covered_allocs [of 0 n] by (simp add: myvfs_init_def vfs_ENOMEM_def vfs_EBUSY_def objs_def)
qed

lemma effects_allocs:
  "effects (map (\<lambda>i. call (Acquire (Obj i)) (cl i) c) [0..<n]) held = held @ objs n"
  by (induction n) (simp_all add: effects_def objs_def)

lemma myvfs_effects: "effects (myvfs_init n) [] = [FsType, CacheMem, SlabCache] @ objs n"
  using effects_allocs [of "\<lambda>i. objs i @ [SlabCache, CacheMem, FsType]" vfs_ENOMEM n "[FsType, CacheMem, SlabCache]"]
  by (simp add: myvfs_init_def effects_def)

section \<open>Properties\<close>

text \<open>
  Loading the module of \<open>main.c\<close> is all-or-nothing for every object count and every pattern of
  failures: it returns 0 with everything allocated, or an error with nothing held; and unloading
  releases everything that loading acquired.
\<close>

lemma myvfs_load_unload:
  "((run_script oks (myvfs_init n) [] = (0, [FsType, CacheMem, SlabCache] @ objs n) \<and> all_ok oks (myvfs_init n)) \<or>
     (\<exists>c. c \<noteq> 0 \<and> run_script oks (myvfs_init n) [] = (c, []))) \<and>
   myvfs_exit n ([FsType, CacheMem, SlabCache] @ objs n) = []"
proof
  show "(run_script oks (myvfs_init n) [] = (0, [FsType, CacheMem, SlabCache] @ objs n) \<and> all_ok oks (myvfs_init n)) \<or>
     (\<exists>c. c \<noteq> 0 \<and> run_script oks (myvfs_init n) [] = (c, []))"
    using myvfs.all_or_nothing [of oks n] unfolding myvfs_effects .
  show "myvfs_exit n ([FsType, CacheMem, SlabCache] @ objs n) = []"
    by (auto simp: myvfs_exit_def minus_all_def filter_empty_conv)
qed

text \<open>
  The other two modules are not: when \<open>kmalloc\<close> or \<open>kmem_cache_create\<close> fails, \<open>myfs_init\<close> returns
  an error but the file system stays registered with code that is about to be unloaded; and
  after a failed \<open>kmem_cache_alloc\<close>, which loading ignores, unloading passes a null pointer to
  \<open>kmem_cache_free\<close>.
\<close>

lemma myfs_load_failures:
  "run_script [True, False] myfs_init [] = (vfs_ENOMEM, [FsType]) \<and>
   run_script [True, True, False] myfs_init [] = (vfs_ENOMEM, [FsType]) \<and>
   (myfs_exit_frees (myfs_alloc oks) = UB \<longleftrightarrow> False \<in> set (take 256 oks))"
proof (intro conjI)
  show "run_script [True, False] myfs_init [] = (vfs_ENOMEM, [FsType])"
    "run_script [True, True, False] myfs_init [] = (vfs_ENOMEM, [FsType])"
    by (simp_all add: myfs_init_def minus_all_def)
  have "list_all (\<lambda>p. p \<noteq> None) (take 256 (myfs_alloc oks)) \<longleftrightarrow> (\<forall>i < 256. i < length oks \<longrightarrow> oks ! i)"
    by (auto simp: myfs_alloc_def list_all_iff)
  also have "\<dots> \<longleftrightarrow> False \<notin> set (take 256 oks)" by (auto simp: in_set_conv_nth)
  finally show "myfs_exit_frees (myfs_alloc oks) = UB \<longleftrightarrow> False \<in> set (take 256 oks)"
    by (simp add: myfs_exit_frees_def)
qed

text \<open>
  \<open>d_make_root\<close> drops the caller's reference when it fails (this is its documented behaviour):
  then \<open>myvfs_fill_super\<close> drops it a second time, leaving the count at -1, while
  \<open>myfs_fill_sb\<close> of \<open>my_vfs.c\<close> accounts for it correctly.
\<close>

lemma myvfs_fill_super_double_put:
  assumes consumes: "\<And>r. snd (d_make_root r) = r - 1"
  shows "(\<not> fst (d_make_root 1) \<longrightarrow> myvfs_fill_super True d_make_root = (vfs_ENOMEM, -1)) \<and>
    snd (myfs_fill_sb True d_make_root) = 0 \<and>
    (fst (d_make_root 1) \<longrightarrow> myvfs_fill_super True d_make_root = (0, 0))"
  using consumes [of 1]
  by (auto simp: myvfs_fill_super_def myfs_fill_sb_def split: prod.splits)

lemma myvfs_fill_super_double_put_witness:
  "myvfs_fill_super True (\<lambda>r. (False, r - 1)) = (vfs_ENOMEM, -1)"
  using myvfs_fill_super_double_put [of "\<lambda>r. (False, r - 1)"] by simp

end
