(* ===== verification/Ticket_Rpc.thy ===== *)
theory Ticket_Rpc
  imports OS_Prelude
begin

text \<open>
  The RPC bakeries of \<open>sem_05/rpc\<close>. Two of them hand out tickets and serve the ticket whose
  turn it is (\<open>compile/0\<close>, \<open>for-review/bakery_3\<close>); the locale \<open>ticket_service\<close> states what such a
  server promises and what follows for its clients. The other three (\<open>new_bakery\<close>, \<open>bakery_2\<close>,
  \<open>bakery (2)\<close>) keep Lamport's array of numbers. The calculator shares the layout of the
  rpcgen stubs.
\<close>

section \<open>Clients of a ticket service\<close>

text \<open>
  Clients are numbered; each holds at most one ticket. \<open>Take i\<close> is a call of the number procedure
  by a client without a ticket, \<open>Poll i clk\<close> one iteration of the polling loop of a client with
  a ticket. The log lists the tickets served.
\<close>

datatype 'c tk_event = Take nat | Poll nat 'c

record 's tk =
  tk_held :: "int option list"
  tk_server :: 's
  tk_log :: "int list"

fun tk_act :: "('s \<Rightarrow> int \<times> 's) \<Rightarrow> ('c \<Rightarrow> int \<Rightarrow> 's \<Rightarrow> bool \<times> 's) \<Rightarrow> 'c tk_event \<Rightarrow> 's tk \<Rightarrow> 's tk" where
  "tk_act issue serve (Take i) s =
     (if i < length (tk_held s) \<and> tk_held s ! i = None
      then (case issue (tk_server s) of (t, x) \<Rightarrow> s\<lparr>tk_held := (tk_held s)[i := Some t], tk_server := x\<rparr>)
      else s)"
| "tk_act issue serve (Poll i clk) s =
     (if i < length (tk_held s)
      then (case tk_held s ! i of
              None \<Rightarrow> s
            | Some t \<Rightarrow>
                (case serve clk t (tk_server s) of
                   (True, x) \<Rightarrow> s\<lparr>tk_held := (tk_held s)[i := None], tk_server := x, tk_log := tk_log s @ [t]\<rparr>
                 | (False, x) \<Rightarrow> s\<lparr>tk_server := x\<rparr>))
      else s)"

definition tk_run :: "('s \<Rightarrow> int \<times> 's) \<Rightarrow> ('c \<Rightarrow> int \<Rightarrow> 's \<Rightarrow> bool \<times> 's) \<Rightarrow> 'c tk_event list \<Rightarrow> 's tk \<Rightarrow> 's tk" where
  "tk_run issue serve es s = fold (tk_act issue serve) es s"

definition tk_start :: "nat \<Rightarrow> 's \<Rightarrow> 's tk" where
  "tk_start n x = \<lparr>tk_held = replicate n None, tk_server = x, tk_log = []\<rparr>"

definition tickets :: "int option list \<Rightarrow> int list" where
  "tickets hs = map the (filter (\<lambda>h. h \<noteq> None) hs)"

lemma tickets_simps [simp]: "tickets [] = []" "tickets (None # hs) = tickets hs" "tickets (Some t # hs) = t # tickets hs"
  by (simp_all add: tickets_def)

lemma tickets_set: "t \<in> set (tickets hs) \<longleftrightarrow> Some t \<in> set hs"
proof (induction hs)
  case (Cons h hs)
  then show ?case by (cases h) auto
qed simp

lemma tickets_mem: "i < length hs \<Longrightarrow> hs ! i = Some t \<Longrightarrow> t \<in> set (tickets hs)"
  unfolding tickets_set by (metis nth_mem)

lemma tickets_holder: "t \<in> set (tickets hs) \<Longrightarrow> \<exists>i < length hs. hs ! i = Some t"
  unfolding tickets_set by (simp add: in_set_conv_nth)

lemma tickets_take:
  "i < length hs \<Longrightarrow> hs ! i = None \<Longrightarrow> set (tickets (hs[i := Some t])) = insert t (set (tickets hs)) \<and>
   (distinct (tickets hs) \<and> t \<notin> set (tickets hs) \<longrightarrow> distinct (tickets (hs[i := Some t])))"
proof (induction hs arbitrary: i)
  case (Cons h hs)
  show ?case
  proof (cases i)
    case (Suc k)
    then have "set (tickets (hs[k := Some t])) = insert t (set (tickets hs))"
      "distinct (tickets hs) \<and> t \<notin> set (tickets hs) \<longrightarrow> distinct (tickets (hs[k := Some t]))"
      using Cons.IH [of k] Cons.prems by simp_all
    then show ?thesis using Suc by (cases h) auto
  qed (use Cons.prems in auto)
qed simp

lemma tickets_drop:
  "i < length hs \<Longrightarrow> hs ! i = Some t \<Longrightarrow> distinct (tickets hs) \<Longrightarrow>
   set (tickets (hs[i := None])) = set (tickets hs) - {t} \<and> distinct (tickets (hs[i := None]))"
proof (induction hs arbitrary: i)
  case (Cons h hs)
  show ?case
  proof (cases i)
    case (Suc k)
    then have k: "k < length hs" "hs ! k = Some t" using Cons.prems by simp_all
    then have t: "t \<in> set (tickets hs)" by (rule tickets_mem)
    have "distinct (tickets hs)" using Cons.prems(3) by (cases h) auto
    then have "set (tickets (hs[k := None])) = set (tickets hs) - {t}" "distinct (tickets (hs[k := None]))"
      using Cons.IH [OF k] by simp_all
    then show ?thesis using Suc Cons.prems(3) t by (cases h) auto
  qed (use Cons.prems in auto)
qed simp

lemma int_interval_tail: "{t..<u} - {t} = {t + 1..<u :: int}"
  by auto

locale ticket_service =
  fixes issue :: "'s \<Rightarrow> int \<times> 's" and serve :: "'c \<Rightarrow> int \<Rightarrow> 's \<Rightarrow> bool \<times> 's"
    and upcoming :: "'s \<Rightarrow> int" and current :: "'s \<Rightarrow> int"
  assumes issue_law: "issue x = (t, y) \<Longrightarrow> t = upcoming x \<and> upcoming y = upcoming x + 1 \<and> current y = current x"
    and serve_law: "serve c t x = (b, y) \<Longrightarrow> b = (t = current x) \<and> upcoming y = upcoming x \<and>
      current y = (if t = current x then current x + 1 else current x)"
begin

text \<open>What holds between calls when the first ticket is the first one served.\<close>

definition fair :: "int \<Rightarrow> 's tk \<Rightarrow> bool" where
  "fair c0 s \<longleftrightarrow> distinct (tickets (tk_held s)) \<and> c0 \<le> current (tk_server s) \<and>
     current (tk_server s) \<le> upcoming (tk_server s) \<and>
     set (tickets (tk_held s)) = {current (tk_server s)..<upcoming (tk_server s)} \<and>
     tk_log s = [c0..current (tk_server s) - 1]"

lemma fair_act:
  assumes "fair c0 s"
  shows "fair c0 (tk_act issue serve e s)"
proof (cases e)
  case (Take i)
  obtain t y where iss: "issue (tk_server s) = (t, y)" by (cases "issue (tk_server s)")
  show ?thesis
  proof (cases "i < length (tk_held s) \<and> tk_held s ! i = None")
    case True
    note law = issue_law [OF iss]
    have "set (tickets ((tk_held s)[i := Some t])) = insert t (set (tickets (tk_held s)))"
      "distinct (tickets ((tk_held s)[i := Some t]))"
      using tickets_take [of i "tk_held s" t] True assms law by (auto simp: fair_def)
    then show ?thesis using assms law True iss Take by (auto simp: fair_def)
  qed (use assms Take in auto)
next
  case (Poll i clk)
  show ?thesis
  proof (cases "i < length (tk_held s) \<and> tk_held s ! i \<noteq> None")
    case True
    then obtain t where t: "tk_held s ! i = Some t" by auto
    obtain b y where srv: "serve clk t (tk_server s) = (b, y)" by (cases "serve clk t (tk_server s)")
    note law = serve_law [OF srv]
    have mem: "t \<in> set (tickets (tk_held s))" using tickets_mem True t by blast
    show ?thesis
    proof (cases "t = current (tk_server s)")
      case eq: True
      have drop: "set (tickets ((tk_held s)[i := None])) = set (tickets (tk_held s)) - {t}"
        "distinct (tickets ((tk_held s)[i := None]))"
        using tickets_drop [of i "tk_held s" t] True t assms by (auto simp: fair_def)
      have up: "current (tk_server s) < upcoming (tk_server s)" using mem eq assms by (auto simp: fair_def)
      have "tk_log s = [c0..t - 1]" "c0 \<le> t" using assms eq by (simp_all add: fair_def)
      then have log: "tk_log s @ [t] = [c0..t]" using upto_rec2 [of c0 t] by simp
      have cur: "current y = t + 1" "upcoming y = upcoming (tk_server s)" "b" using law eq by simp_all
      have run: "tk_act issue serve e s = s\<lparr>tk_held := (tk_held s)[i := None], tk_server := y, tk_log := tk_log s @ [t]\<rparr>"
        using True t srv Poll cur(3) by simp
      have "set (tickets (tk_held s)) = {t..<upcoming (tk_server s)}"
        using assms unfolding fair_def eq by (elim conjE)
      then have "set (tickets (tk_held s)) - {t} = {t + 1..<upcoming (tk_server s)}"
        by (simp only: int_interval_tail)
      then show ?thesis
        unfolding run fair_def using drop up log cur \<open>c0 \<le> t\<close> eq by simp
    next
      case False
      then have "\<not> b" "current y = current (tk_server s)" "upcoming y = upcoming (tk_server s)" using law by simp_all
      then show ?thesis using assms True t srv Poll by (simp add: fair_def)
    qed
  next
    case False
    then have "tk_act issue serve e s = s" using Poll by auto
    then show ?thesis using assms by simp
  qed
qed

lemma fair_run: "fair c0 s \<Longrightarrow> fair c0 (tk_run issue serve es s)"
  unfolding tk_run_def by (induction es arbitrary: s) (auto dest: fair_act)

lemma fair_start:
  assumes "upcoming x = current x"
  shows "fair (current x) (tk_start n x)"
proof -
  have "tickets (replicate n None) = []" by (simp add: tickets_def)
  then show ?thesis using assms by (simp add: fair_def tk_start_def)
qed

text \<open>Whenever somebody waits, the holder of the current ticket is among the clients, and its next
  poll is served.\<close>

lemma fair_progress:
  assumes "fair c0 s" "i < length (tk_held s)" "tk_held s ! i = Some t"
  shows "\<exists>j < length (tk_held s). tk_held s ! j = Some (current (tk_server s)) \<and>
    fst (serve clk (current (tk_server s)) (tk_server s))"
proof -
  have "t \<in> set (tickets (tk_held s))" using assms(2,3) by (rule tickets_mem)
  then have "current (tk_server s) \<in> set (tickets (tk_held s))" using assms(1) by (auto simp: fair_def)
  then obtain j where "j < length (tk_held s)" "tk_held s ! j = Some (current (tk_server s))"
    using tickets_holder by blast
  moreover have "fst (serve clk (current (tk_server s)) (tk_server s))"
    using serve_law by (metis surjective_pairing)
  ultimately show ?thesis by blast
qed

text \<open>A service whose first ticket lies beyond the current one serves nobody, ever.\<close>

definition starved :: "int \<Rightarrow> 's tk \<Rightarrow> bool" where
  "starved c0 s \<longleftrightarrow> current (tk_server s) = c0 \<and> c0 < upcoming (tk_server s) \<and>
     (\<forall>t \<in> set (tickets (tk_held s)). c0 < t) \<and> tk_log s = []"

lemma starved_act:
  assumes "starved c0 s"
  shows "starved c0 (tk_act issue serve e s)"
proof (cases e)
  case (Take i)
  obtain t y where iss: "issue (tk_server s) = (t, y)" by (cases "issue (tk_server s)")
  then show ?thesis
    using assms issue_law [OF iss] tickets_take [of i "tk_held s" t] Take by (auto simp: starved_def)
next
  case (Poll i clk)
  show ?thesis
  proof (cases "i < length (tk_held s) \<and> tk_held s ! i \<noteq> None")
    case True
    then obtain t where t: "tk_held s ! i = Some t" by auto
    obtain b y where srv: "serve clk t (tk_server s) = (b, y)" by (cases "serve clk t (tk_server s)")
    have "t \<in> set (tickets (tk_held s))" using tickets_mem True t by blast
    then have "t \<noteq> current (tk_server s)" using assms by (auto simp: starved_def)
    then show ?thesis using serve_law [OF srv] assms True t srv Poll by (auto simp: starved_def)
  next
    case False
    then have "tk_act issue serve e s = s" using Poll by auto
    then show ?thesis using assms by simp
  qed
qed

lemma starved_run: "starved c0 s \<Longrightarrow> starved c0 (tk_run issue serve es s)"
  unfolding tk_run_def by (induction es arbitrary: s) (auto dest: starved_act)

lemma starved_start: "current x < upcoming x \<Longrightarrow> starved (current x) (tk_start n x)"
  by (simp add: starved_def tk_start_def tickets_def)

end

section \<open>The server of \<open>compile/0\<close>\<close>

record bakery0 =
  client_number_service :: int
  client_num :: int

record bakery_result =
  is_recieved_time :: int
  br_time :: "int option"

definition get_number_1_svc :: "bakery0 \<Rightarrow> int \<times> bakery0" where
  "get_number_1_svc s = (client_num s, s\<lparr>client_num := client_num s + 1\<rparr>)"

text \<open>The clock is a parameter; \<open>None\<close> is a failed \<open>clock_gettime\<close>. The first component of the result
  is the return value of the procedure, \<open>br_time\<close> is \<open>None\<close> where the code leaves it unset.\<close>

definition bakery_proc_1_svc :: "(int \<times> int) option \<Rightarrow> int \<Rightarrow> bakery0 \<Rightarrow> (bool \<times> bakery_result) \<times> bakery0" where
  "bakery_proc_1_svc clk client_number s =
     (if client_number \<noteq> client_number_service s
      then ((True, \<lparr>is_recieved_time = 0, br_time = None\<rparr>), s)
      else (case clk of
              None \<Rightarrow> ((False, \<lparr>is_recieved_time = 1, br_time = None\<rparr>), s\<lparr>client_number_service := client_number_service s + 1\<rparr>)
            | Some (sec, nsec) \<Rightarrow>
                ((True, \<lparr>is_recieved_time = 1, br_time = Some ((sec * 1000000000 + nsec) div 1000000)\<rparr>),
                 s\<lparr>client_number_service := client_number_service s + 1\<rparr>)))"

definition bakery0_boot :: bakery0 where
  "bakery0_boot = \<lparr>client_number_service = 0, client_num = 0\<rparr>"

text \<open>
  One iteration of the client's loop (lines 50 to 63), and whether it is the last: a time was received, or the call failed
  because the server could not read its clock, and the client exits with 1.  In both cases the server has
  moved on and the client is out of the queue.
\<close>

definition bakery0_poll :: "(int \<times> int) option \<Rightarrow> int \<Rightarrow> bakery0 \<Rightarrow> bool \<times> bakery0" where
  "bakery0_poll clk arg s =
     (case bakery_proc_1_svc clk arg s of ((ok, res), s') \<Rightarrow> (\<not> ok \<or> is_recieved_time res \<noteq> 0, s'))"

interpretation b0: ticket_service get_number_1_svc bakery0_poll client_num client_number_service
  by unfold_locales
    (auto simp: get_number_1_svc_def bakery0_poll_def bakery_proc_1_svc_def split: if_splits option.splits)

section \<open>The server of \<open>for-review/bakery_3\<close>\<close>

record bakery3 =
  next_number :: int
  current_number :: int

definition b3_find_max_number :: "bakery3 \<Rightarrow> int \<times> bakery3" where
  "b3_find_max_number s = (next_number s + 1, s\<lparr>next_number := next_number s + 1\<rparr>)"

text \<open>The monotonic clock in milliseconds is a parameter.\<close>

definition bakery_service_1_svc :: "int \<Rightarrow> int \<Rightarrow> bakery3 \<Rightarrow> int \<times> bakery3" where
  "bakery_service_1_svc ms num s =
     (if num \<noteq> current_number s then (-1, s)
      else (ms, s\<lparr>current_number := current_number s + 1\<rparr>))"

definition bakery3_boot :: bakery3 where
  "bakery3_boot = \<lparr>next_number = 1, current_number = 1\<rparr>"

text \<open>The client's loop ends when the result is positive; the clock is a natural number of
  milliseconds since boot, at least 1.\<close>

definition bakery3_poll :: "nat \<Rightarrow> int \<Rightarrow> bakery3 \<Rightarrow> bool \<times> bakery3" where
  "bakery3_poll ms arg s = (case bakery_service_1_svc (int ms + 1) arg s of (r, s') \<Rightarrow> (0 < r, s'))"

interpretation b3: ticket_service b3_find_max_number bakery3_poll "\<lambda>s. next_number s + 1" current_number
  by unfold_locales
    (auto simp: b3_find_max_number_def bakery3_poll_def bakery_service_1_svc_def split: if_splits)

section \<open>The array servers\<close>

text \<open>\<open>new_bakery\<close>: the numbers, and the results that the registration threads leave for the clients;
  the initialiser of \<open>results\<close> sets only its first element to -1.\<close>

definition MAX_CLIENTS :: nat where "MAX_CLIENTS = 5000"

record new_bakery =
  nb_numbers :: "int list"
  nb_results :: "int list"
  nb_max :: int

definition nb_boot :: new_bakery where
  "nb_boot = \<lparr>nb_numbers = replicate MAX_CLIENTS 0, nb_results = -1 # replicate (MAX_CLIENTS - 1) 0, nb_max = 0\<rparr>"

definition nb_find_max_number :: "nat \<Rightarrow> new_bakery \<Rightarrow> new_bakery" where
  "nb_find_max_number idx s =
     (let m = nb_max s + 1 in
      s\<lparr>nb_max := m, nb_numbers := (nb_numbers s)[idx := m], nb_results := (nb_results s)[idx := m]\<rparr>)"

definition get_number_proc_1_svc :: "nat \<Rightarrow> new_bakery \<Rightarrow> int \<times> new_bakery" where
  "get_number_proc_1_svc cid s =
     (if nb_results s ! cid = -1 then (-1, s)
      else (nb_results s ! cid, s\<lparr>nb_results := (nb_results s)[cid := -1]\<rparr>))"

definition nb_before :: "int list \<Rightarrow> nat \<Rightarrow> nat \<Rightarrow> bool" where
  "nb_before ns i j \<longleftrightarrow> ns ! i \<noteq> 0 \<and> (ns ! i < ns ! j \<or> ns ! i = ns ! j \<and> i < j)"

text \<open>The busy wait of line 84 while no other thread changes the array, and the loop around it;
  not returning is \<open>None\<close>.\<close>

partial_function (option) nb_spin :: "int list \<Rightarrow> nat \<Rightarrow> nat \<Rightarrow> unit option" where
  "nb_spin ns i j = (if nb_before ns i j then nb_spin ns i j else Some ())"

fun nb_wait_all :: "int list \<Rightarrow> nat \<Rightarrow> nat \<Rightarrow> nat \<Rightarrow> unit option" where
  "nb_wait_all ns j i 0 = Some ()"
| "nb_wait_all ns j i (Suc n) = (case nb_spin ns i j of None \<Rightarrow> None | Some u \<Rightarrow> nb_wait_all ns j (Suc i) n)"

definition result_proc_1_svc :: "int \<Rightarrow> nat \<Rightarrow> new_bakery \<Rightarrow> (int \<times> new_bakery) option" where
  "result_proc_1_svc nsec j s =
     (case nb_wait_all (nb_numbers s) j 0 MAX_CLIENTS of
        None \<Rightarrow> None
      | Some u \<Rightarrow> Some (nsec, s\<lparr>nb_numbers := (nb_numbers s)[j := 0]\<rparr>))"

text \<open>\<open>bakery (2)\<close>: the number is one more than the maximum of the array.\<close>

record bakery2 =
  b2_choosing :: "int list"
  b2_numbers :: "int list"
  b2_pids :: "int list"
  b2_result :: int

definition b2_get_number_1_svc :: "int \<Rightarrow> bakery2 \<Rightarrow> (int \<times> bakery2) outcome" where
  "b2_get_number_1_svc arg s =
     (let ind = c_rem arg 10000 in
      if ind < 0 then UB
      else (let number = fold (\<lambda>n m. if m < n then n else m) (b2_numbers s) (b2_numbers s ! 0) in
        Cont (b2_result s + 1,
          s\<lparr>b2_pids := (b2_pids s)[nat ind := arg], b2_choosing := (b2_choosing s)[nat ind := 0],
            b2_numbers := (b2_numbers s)[nat ind := number + 1], b2_result := b2_result s + 1\<rparr>)))"

section \<open>Properties\<close>

lemma nb_spin_returns: "nb_spin ns i j = (if nb_before ns i j then None else Some ())"
proof (cases "nb_before ns i j")
  case True
  have "\<not> nb_before ns i j" if "nb_spin ns i j = Some y" for y
    by (rule nb_spin.raw_induct [OF _ that]) (auto split: if_splits)
  then show ?thesis using True by (cases "nb_spin ns i j") auto
qed (simp add: nb_spin.simps)

lemma nb_wait_all_returns: "nb_wait_all ns j i n = (if \<exists>k. i \<le> k \<and> k < i + n \<and> nb_before ns k j then None else Some ())"
proof (induction n arbitrary: i)
  case (Suc n)
  have "(\<exists>k. i \<le> k \<and> k < i + Suc n \<and> nb_before ns k j) \<longleftrightarrow>
      nb_before ns i j \<or> (\<exists>k. Suc i \<le> k \<and> k < Suc i + n \<and> nb_before ns k j)"
    (is "?L \<longleftrightarrow> ?R")
  proof
    assume ?L
    then obtain k where "i \<le> k" "k < i + Suc n" "nb_before ns k j" by blast
    then show ?R by (cases "k = i") auto
  next
    assume ?R
    then show ?L by (metis Suc_leD add_Suc_shift le_refl less_add_Suc1 zero_less_Suc less_add_same_cancel1)
  qed
  then show ?case unfolding nb_wait_all.simps nb_spin_returns Suc.IH [of "Suc i"] by auto
qed simp

text \<open>
  (C23) The ticket server of \<open>compile/0\<close> takes every ticket once and in the order of issue: after any
  interleaving of calls by any number of clients that have got their numbers, the tickets taken (served, or given up because the clock failed) are 0, 1, 2, and so on
  without gaps, the tickets still held are exactly the following ones, each held by one client,
  and if anybody waits, some client holds the ticket that the server serves next.
\<close>

theorem tickets_served_in_order:
  assumes "s = tk_run get_number_1_svc bakery0_poll es (tk_start n bakery0_boot)"
  shows "tk_log s = [0..client_number_service (tk_server s) - 1] \<and> distinct (tickets (tk_held s)) \<and>
    set (tickets (tk_held s)) = {client_number_service (tk_server s)..<client_num (tk_server s)} \<and>
    (\<forall>i t. i < length (tk_held s) \<and> tk_held s ! i = Some t \<longrightarrow>
      (\<exists>j < length (tk_held s). tk_held s ! j = Some (client_number_service (tk_server s)) \<and>
        fst (bakery0_poll clk (client_number_service (tk_server s)) (tk_server s))))"
proof -
  have "b0.fair 0 (tk_start n bakery0_boot)"
    using b0.fair_start [of bakery0_boot n] by (simp add: bakery0_boot_def)
  then have fair: "b0.fair 0 s" unfolding assms by (rule b0.fair_run)
  show ?thesis
  proof (intro conjI allI impI)
    show "tk_log s = [0..client_number_service (tk_server s) - 1]" "distinct (tickets (tk_held s))"
      "set (tickets (tk_held s)) = {client_number_service (tk_server s)..<client_num (tk_server s)}"
      using fair unfolding b0.fair_def by blast+
  next
    fix i t
    assume "i < length (tk_held s) \<and> tk_held s ! i = Some t"
    then show "\<exists>j < length (tk_held s). tk_held s ! j = Some (client_number_service (tk_server s)) \<and>
        fst (bakery0_poll clk (client_number_service (tk_server s)) (tk_server s))"
      using b0.fair_progress [OF fair] by blast
  qed
qed

definition tk_demo :: "bakery0 tk" where
  "tk_demo = tk_run get_number_1_svc bakery0_poll [Take 1, Take 0, Poll 0 (Some (5, 0)), Poll 1 (Some (6, 0)), Take 2]
     (tk_start 3 bakery0_boot)"

theorem tickets_served_in_order_witness:
  "tk_log tk_demo = [0..client_number_service (tk_server tk_demo) - 1] \<and> tk_log tk_demo = [0] \<and>
   set (tickets (tk_held tk_demo)) = {client_number_service (tk_server tk_demo)..<client_num (tk_server tk_demo)}"
proof -
  have "tk_log tk_demo = [0]" by code_simp
  then show ?thesis using tickets_served_in_order [OF tk_demo_def] by simp
qed

text \<open>
  The server of \<open>for-review/bakery_3\<close> never serves anybody: it increments \<open>next_number\<close> before
  it issues the number, so the first ticket is 2, while \<open>current_number\<close> starts at 1. Whatever
  clients that only present their own tickets do, no one is served and the counter stays at 1.
\<close>

lemma bakery3_never_serves:
  "tk_log (tk_run b3_find_max_number bakery3_poll es (tk_start n bakery3_boot)) = [] \<and>
   current_number (tk_server (tk_run b3_find_max_number bakery3_poll es (tk_start n bakery3_boot))) = 1"
proof -
  have "b3.starved 1 (tk_start n bakery3_boot)"
    using b3.starved_start [of bakery3_boot n] by (simp add: bakery3_boot_def)
  from b3.starved_run [OF this, of es] show ?thesis by (simp add: b3.starved_def)
qed

text \<open>
  The waiting loop of \<open>new_bakery\<close> (and of \<open>bakery_2\<close>), while no other thread changes the numbers,
  returns exactly when client \<open>j\<close> has the least pair of number and index among the registered
  clients; otherwise it spins for ever, inside the dispatcher's only thread. A client that asks
  before its registration thread has run is given the number 0 unless its index is 0, because
  the initialiser of \<open>results\<close> sets only the first element to -1, and then enters at once.
\<close>

lemma new_bakery_waits_for_minimum:
  assumes "j < MAX_CLIENTS" "0 < k" "k < MAX_CLIENTS"
  shows "(result_proc_1_svc nsec j s = None \<longleftrightarrow>
      (\<exists>i < MAX_CLIENTS. nb_numbers s ! i \<noteq> 0 \<and>
        (nb_numbers s ! i < nb_numbers s ! j \<or> nb_numbers s ! i = nb_numbers s ! j \<and> i < j))) \<and>
    fst (get_number_proc_1_svc k nb_boot) = 0 \<and> fst (get_number_proc_1_svc 0 nb_boot) = -1 \<and>
    (\<exists>s'. result_proc_1_svc nsec k (snd (get_number_proc_1_svc k nb_boot)) = Some (nsec, s'))"
proof -
  have ret: "result_proc_1_svc nsec i x = None \<longleftrightarrow> (\<exists>m < MAX_CLIENTS. nb_before (nb_numbers x) m i)" for i x
    by (simp add: result_proc_1_svc_def nb_wait_all_returns)
  have res: "nb_results nb_boot ! k = 0" "nb_results nb_boot ! 0 = -1"
    using assms(2,3) by (simp_all add: nb_boot_def nth_Cons')
  have num: "nb_numbers (snd (get_number_proc_1_svc k nb_boot)) = replicate MAX_CLIENTS 0"
    by (simp add: get_number_proc_1_svc_def nb_boot_def)
  have "\<not> nb_before (replicate MAX_CLIENTS 0) m k" if "m < MAX_CLIENTS" for m using that by (simp add: nb_before_def)
  then have "result_proc_1_svc nsec k (snd (get_number_proc_1_svc k nb_boot)) \<noteq> None"
    unfolding ret num by blast
  moreover have "fst y = nsec" if "result_proc_1_svc nsec k x = Some y" for x y
    using that by (auto simp: result_proc_1_svc_def split: option.splits)
  ultimately have "\<exists>s'. result_proc_1_svc nsec k (snd (get_number_proc_1_svc k nb_boot)) = Some (nsec, s')"
    by (metis not_None_eq prod.collapse)
  then show ?thesis
    unfolding ret using res by (simp add: nb_before_def get_number_proc_1_svc_def)
qed

lemma new_bakery_waits_for_minimum_witness:
  "fst (get_number_proc_1_svc 7 nb_boot) = 0"
  using new_bakery_waits_for_minimum [of 1 7 0 nb_boot] by (simp add: MAX_CLIENTS_def)

lemma fold_max: "fold (\<lambda>n m. if m < n then n else m) ns m0 \<ge> m0 \<and>
    (\<forall>n \<in> set ns. n \<le> fold (\<lambda>n m. if m < n then n else m) ns m0)" for ns :: "int list"
proof (induction ns arbitrary: m0)
  case (Cons n ns)
  show ?case
  proof (cases "m0 < n")
    case True
    then show ?thesis using Cons.IH [of n] by force
  next
    case False
    then show ?thesis using Cons.IH [of m0] by force
  qed
qed simp

text \<open>
  The server of \<open>bakery (2)\<close> gives a client a number greater than every number in use, as the
  bakery algorithm asks, but what it returns is an unrelated counter; a negative argument
  indexes the arrays below zero.
\<close>

lemma bakery2_number_is_maximal:
  "(c_rem arg 10000 < 0 \<longleftrightarrow> b2_get_number_1_svc arg s = UB) \<and>
   (\<forall>r s'. b2_get_number_1_svc arg s = Cont (r, s') \<longrightarrow> r = b2_result s + 1 \<and>
     (length (b2_numbers s) = 10000 \<longrightarrow>
       (\<forall>n \<in> set (b2_numbers s). n < b2_numbers s' ! nat (c_rem arg 10000))))"
proof -
  have lt: "nat (c_rem arg 10000) < 10000" using c_rem_bounds [of 10000 arg] by linarith
  show ?thesis
    using fold_max [where ns = "b2_numbers s" and ?m0.0 = "b2_numbers s ! 0"] lt
    by (fastforce simp: b2_get_number_1_svc_def Let_def split: if_splits)
qed

lemma bakery2_number_is_maximal_witness:
  "\<exists>r s'. b2_get_number_1_svc 12345 \<lparr>b2_choosing = replicate 10000 0, b2_numbers = replicate 10000 0,
     b2_pids = replicate 10000 0, b2_result = 0\<rparr> = Cont (r, s') \<and> r = 1"
proof -
  let ?s = "\<lparr>b2_choosing = replicate 10000 0, b2_numbers = replicate 10000 0, b2_pids = replicate 10000 0, b2_result = 0\<rparr>"
  have "b2_get_number_1_svc 12345 ?s \<noteq> UB" "b2_get_number_1_svc 12345 ?s \<noteq> Blocked" "\<forall>c. b2_get_number_1_svc 12345 ?s \<noteq> Exit c"
    by (simp_all add: b2_get_number_1_svc_def Let_def)
  then obtain r s' where run: "b2_get_number_1_svc 12345 ?s = Cont (r, s')"
    by (cases "b2_get_number_1_svc 12345 ?s") auto
  then show ?thesis using bakery2_number_is_maximal [of 12345 ?s] by auto
qed

end
