(* ===== verification/C_Text.thy ===== *)
theory C_Text
  imports OS_Prelude
begin

text \<open>
  The text side of the C library as the programs use it: \<open>printf\<close> of unsigned numbers in a
  base with a minimum width, strings that end at their first NUL, and the two facts the
  readers rely on: printing a number and folding its digits back gives the number, and the
  printed digits are digits.
\<close>

abbreviation (input) NUL :: char where "NUL \<equiv> CHR 0x00"
abbreviation (input) NL :: char where "NL \<equiv> CHR 0x0A"
abbreviation (input) TAB :: char where "TAB \<equiv> CHR 0x09"
abbreviation (input) BLANK :: char where "BLANK \<equiv> CHR '' ''"

section \<open>Digits\<close>

fun digs :: "nat \<Rightarrow> nat \<Rightarrow> nat list" where
  "digs b n = (if b < 2 \<or> n < b then [n] else digs b (n div b) @ [n mod b])"

declare digs.simps [simp del]

definition digit_char :: "nat \<Rightarrow> char" where
  "digit_char d = (if d < 10 then char_of (48 + d) else char_of (87 + d))"

definition show_base :: "nat \<Rightarrow> nat \<Rightarrow> string" where
  "show_base b n = map digit_char (digs b n)"

abbreviation show_dec :: "nat \<Rightarrow> string" where "show_dec \<equiv> show_base 10"
abbreviation show_hex :: "nat \<Rightarrow> string" where "show_hex \<equiv> show_base 16"

definition show_int :: "int \<Rightarrow> string" where
  "show_int k = (if k < 0 then ''-'' @ show_dec (nat (- k)) else show_dec (nat k))"

text \<open>The width of a conversion: \<open>%6jx\<close> pads with blanks, \<open>%016lx\<close> and \<open>%.2x\<close> with zeros.\<close>

definition pad :: "char \<Rightarrow> nat \<Rightarrow> string \<Rightarrow> string" where
  "pad c w s = replicate (w - length s) c @ s"

definition fold_digits :: "nat \<Rightarrow> nat list \<Rightarrow> nat" where
  "fold_digits b ds = foldl (\<lambda>a d. a * b + d) 0 ds"

lemma fold_digs: "2 \<le> b \<Longrightarrow> fold_digits b (digs b n) = n"
proof (induction b n rule: digs.induct)
  case (1 b n)
  then show ?case by (subst digs.simps) (auto simp: fold_digits_def)
qed

lemma digs_less: "2 \<le> b \<Longrightarrow> d \<in> set (digs b n) \<Longrightarrow> d < b"
proof (induction b n rule: digs.induct)
  case (1 b n)
  show ?case
  proof (cases "n < b")
    case True
    then show ?thesis using 1 by (simp add: digs.simps [of b n])
  next
    case False
    then show ?thesis using 1 by (auto simp: digs.simps [of b n])
  qed
qed

lemma digs_not_Nil [simp]: "digs b n \<noteq> []"
  by (subst digs.simps) simp

lemma show_base_not_Nil [simp]: "show_base b n \<noteq> []"
  by (simp add: show_base_def)

section \<open>Strings\<close>

text \<open>\<open>%s\<close> prints up to the first NUL.\<close>

definition upto_nul :: "string \<Rightarrow> string" where
  "upto_nul s = takeWhile (\<lambda>c. c \<noteq> NUL) s"

lemma upto_nul_at: "NUL \<notin> set s \<Longrightarrow> upto_nul (s @ NUL # t) = s"
  by (induction s) (auto simp: upto_nul_def)

text \<open>Hexadecimal and decimal digits as the programs recognise them.\<close>

definition is_dec :: "char \<Rightarrow> bool" where
  "is_dec c \<longleftrightarrow> 48 \<le> (of_char c :: nat) \<and> (of_char c :: nat) \<le> 57"

definition is_af :: "char \<Rightarrow> bool" where
  "is_af c \<longleftrightarrow> 97 \<le> (of_char c :: nat) \<and> (of_char c :: nat) \<le> 102"

lemma digit_char_0: "digit_char 0 = CHR ''0''"
  by code_simp

lemma digit_char_values:
  "digit_char (Suc 0) = CHR ''1''" "digit_char 2 = CHR ''2''" "digit_char 3 = CHR ''3''" "digit_char 4 = CHR ''4''"
  "digit_char 5 = CHR ''5''" "digit_char 6 = CHR ''6''" "digit_char 7 = CHR ''7''" "digit_char 8 = CHR ''8''"
  "digit_char 9 = CHR ''9''" "digit_char 10 = CHR ''a''"
  by code_simp+

lemma digit_char_simps:
  assumes "d < 16"
  shows "of_char (digit_char d) = (if d < 10 then 48 + d else 87 + d)"
  using assms by (simp add: digit_char_def)

lemma digit_char_class:
  assumes "d < 16"
  shows "is_dec (digit_char d) \<longleftrightarrow> d < 10" "is_af (digit_char d) \<longleftrightarrow> 10 \<le> d"
  using assms by (auto simp: is_dec_def is_af_def digit_char_simps)


section \<open>Reading lines and numbers\<close>

text \<open>\<open>fgets\<close> with a buffer of \<open>n\<close> bytes: up to and including a newline, at most \<open>n - 1\<close> bytes.\<close>

fun fgets_upto :: "nat \<Rightarrow> string \<Rightarrow> string \<times> string" where
  "fgets_upto 0 s = ([], s)"
| "fgets_upto (Suc n) [] = ([], [])"
| "fgets_upto (Suc n) (c # s) =
     (if c = NL then ([c], s) else let (l, r) = fgets_upto n s in (c # l, r))"

definition fgets :: "nat \<Rightarrow> string \<Rightarrow> (string \<times> string) option" where
  "fgets n s = (if s = [] then None else Some (fgets_upto (n - 1) s))"

lemma fgets_upto_split: "fst (fgets_upto n s) @ snd (fgets_upto n s) = s"
  by (induction n s rule: fgets_upto.induct) (auto simp: Let_def split: prod.splits)

lemma fgets_upto_line:
  "NL \<notin> set l \<Longrightarrow> length l < n \<Longrightarrow> fgets_upto n (l @ NL # r) = (l @ [NL], r)"
proof (induction l arbitrary: n)
  case Nil
  then show ?case by (cases n) simp_all
next
  case (Cons c l)
  then show ?case by (cases n) auto
qed

lemma fgets_line:
  "NL \<notin> set l \<Longrightarrow> length l + 1 < n \<Longrightarrow> fgets n (l @ NL # r) = Some (l @ [NL], r)"
  by (simp add: fgets_def fgets_upto_line)

text \<open>All lines a loop over \<open>fgets\<close> sees.\<close>

function fgets_all :: "nat \<Rightarrow> string \<Rightarrow> string list" where
  "fgets_all n s = (if n < 2 then [] else case fgets n s of None \<Rightarrow> [] | Some (l, r) \<Rightarrow> l # fgets_all n r)"
  by pat_completeness auto
termination
proof (relation "measure (\<lambda>(n, s). length s)")
  fix n s x l r
  assume n: "\<not> n < 2" and "fgets n s = Some x" "(l, r) = x"
  then obtain c t m where s: "s = c # t" "n - 1 = Suc m" "fgets_upto (Suc m) s = (l, r)"
    by (cases s; cases "n - 1") (auto simp: fgets_def)
  have "l @ r = s" using fgets_upto_split [of "Suc m" s] s(3) by simp
  moreover have "l \<noteq> []" using s by (auto simp: Let_def split: if_splits prod.splits)
  ultimately show "((n, r), n, s) \<in> measure (\<lambda>(n, s). length s)" by (auto simp flip: length_greater_0_conv)
qed simp

declare fgets_all.simps [simp del]

lemma fgets_all_lines:
  assumes "2 \<le> n" "list_all (\<lambda>l. NL \<notin> set l \<and> length l + 1 < n) ls"
  shows "fgets_all n (concat (map (\<lambda>l. l @ [NL]) ls)) = map (\<lambda>l. l @ [NL]) ls"
  using assms(2)
proof (induction ls)
  case Nil
  then show ?case by (simp add: fgets_all.simps fgets_def)
next
  case (Cons l ls)
  then show ?case using assms(1)
    by (subst fgets_all.simps) (simp add: fgets_line)
qed

text \<open>
  The conversions of \<open>scanf\<close>: white space is skipped, then at least one digit has to be
  there.  Values outside the range of the type are clamped as by \<open>strtol\<close> and \<open>strtoul\<close>.
\<close>

definition is_space :: "char \<Rightarrow> bool" where
  "is_space c \<longleftrightarrow> c = BLANK \<or> (9 \<le> (of_char c :: nat) \<and> (of_char c :: nat) \<le> 13)"

definition skip_ws :: "string \<Rightarrow> string" where
  "skip_ws s = dropWhile is_space s"

definition hex_digit :: "char \<Rightarrow> nat option" where
  "hex_digit c = (if is_dec c then Some (of_char c - 48)
     else if is_af c then Some (of_char c - 87)
     else if 65 \<le> (of_char c :: nat) \<and> (of_char c :: nat) \<le> 70 then Some (of_char c - 55) else None)"

fun take_digits :: "(char \<Rightarrow> nat option) \<Rightarrow> string \<Rightarrow> nat list \<times> string" where
  "take_digits f [] = ([], [])"
| "take_digits f (c # s) = (case f c of None \<Rightarrow> ([], c # s)
     | Some d \<Rightarrow> let (ds, r) = take_digits f s in (d # ds, r))"

definition dec_digit :: "char \<Rightarrow> nat option" where
  "dec_digit c = (if is_dec c then Some (of_char c - 48) else None)"

lemma hex_digit_char: "d < 16 \<Longrightarrow> hex_digit (digit_char d) = Some d"
  by (auto simp: hex_digit_def digit_char_class digit_char_simps)

lemma dec_digit_char: "d < 10 \<Longrightarrow> dec_digit (digit_char d) = Some d"
  by (auto simp: dec_digit_def digit_char_class digit_char_simps)

lemma take_digits_at:
  "(\<And>d. d \<in> set ds \<Longrightarrow> f (digit_char d) = Some d) \<Longrightarrow> f c = None \<Longrightarrow>
   take_digits f (map digit_char ds @ c # r) = (ds, c # r)"
  by (induction ds) simp_all

lemma not_space_digit: "d < 16 \<Longrightarrow> \<not> is_space (digit_char d)"
  by (auto simp: is_space_def digit_char_simps simp flip: of_char_eq_iff [where 'a = nat])

text \<open>\<open>strrchr(s, '/')\<close>: the suffix from the last slash on.\<close>

fun strrchr_slash :: "string \<Rightarrow> string option" where
  "strrchr_slash [] = None"
| "strrchr_slash (c # s) = (case strrchr_slash s of
     Some r \<Rightarrow> Some r
   | None \<Rightarrow> if c = CHR ''/'' then Some (c # s) else None)"

lemma strrchr_plain: "CHR ''/'' \<notin> set n \<Longrightarrow> strrchr_slash n = None"
  by (induction n) auto

lemma strrchr_last: "CHR ''/'' \<notin> set n \<Longrightarrow> strrchr_slash (p @ CHR ''/'' # n) = Some (CHR ''/'' # n)"
  by (induction p) (auto simp: strrchr_plain)

end
