(* ===== verification/Pagemap.thy ===== *)
theory Pagemap
  imports C_Text "HOL-Library.Monad_Syntax"
begin

unbundle bit_operations_syntax

text \<open>
  The page map printer of \<open>lab_proc/main.c\<close>: \<open>pagemap_get_entry\<close> with its loop of short
  \<open>pread\<close>s, \<open>virt_to_phys_user\<close>, and \<open>fprintf_pagemap_info\<close>, which reads
  \<open>/proc/PID/maps\<close> block by block into one buffer, parses every line of the block in place
  by indices and prints one row per page of the region.

  A read of \<open>buffer[sizeof buffer]\<close> and a store past \<open>buf[999]\<close> are undefined; a model
  function returns \<open>None\<close> there, and also for a page loop that never ends.
\<close>

definition PAGE_SIZE :: nat where "PAGE_SIZE = 4096"
definition BUFSIZ :: nat where "BUFSIZ = 8192"

section \<open>Entries of a page map\<close>

record PagemapEntry =
  pfn :: u64
  soft_dirty :: bool
  file_page :: bool
  swapped :: bool
  present :: bool

definition decode_entry :: "u64 \<Rightarrow> PagemapEntry" where
  "decode_entry data = \<lparr>
     pfn = data AND (push_bit 55 1 - 1),
     soft_dirty = ((drop_bit 55 data AND 1) \<noteq> 0),
     file_page = ((drop_bit 61 data AND 1) \<noteq> 0),
     swapped = ((drop_bit 62 data AND 1) \<noteq> 0),
     present = ((drop_bit 63 data AND 1) \<noteq> 0)\<rparr>"

text \<open>
  \<open>pread\<close> is a parameter: given an offset and a count it fails or delivers some bytes, none
  at the end of the file.  The eight bytes of an entry arrive in little-endian order.
\<close>

type_synonym pread_fn = "nat \<Rightarrow> nat \<Rightarrow> c_char list option"

definition le_word :: "c_char list \<Rightarrow> u64" where
  "le_word bs = word_of_int (horner_sum uint 256 bs)"

function entry_loop :: "pread_fn \<Rightarrow> nat \<Rightarrow> c_char list \<Rightarrow> c_char list option" where
  "entry_loop pread off data =
     (if 8 \<le> length data then Some data
      else case pread (off + length data) (8 - length data) of
          None \<Rightarrow> None
        | Some [] \<Rightarrow> None
        | Some (b # bs) \<Rightarrow> entry_loop pread off (data @ b # bs))"
  by pat_completeness auto
termination by (relation "measure (\<lambda>(p, off, data). 8 - length data)") auto

declare entry_loop.simps [simp del]

definition pagemap_get_entry :: "pread_fn \<Rightarrow> u64 \<Rightarrow> PagemapEntry option" where
  "pagemap_get_entry pread vaddr =
     map_option (\<lambda>data. decode_entry (le_word data))
       (entry_loop pread (unat vaddr div PAGE_SIZE * 8) [])"

text \<open>
  \<open>virt_to_phys_user\<close>: the result (\<open>None\<close> for the return value 1) and the number of
  descriptors it leaves open.
\<close>

definition virt_to_phys_user :: "pread_fn option \<Rightarrow> u64 \<Rightarrow> u64 option \<times> nat" where
  "virt_to_phys_user opened vaddr = (case opened of
     None \<Rightarrow> (None, 0)
   | Some pread \<Rightarrow> (case pagemap_get_entry pread vaddr of
       None \<Rightarrow> (None, 1)
     | Some e \<Rightarrow> (Some (pfn e * of_nat PAGE_SIZE + vaddr mod of_nat PAGE_SIZE), 0)))"

section \<open>Parsing one line of the maps file in the buffer\<close>

primrec back_to_nl :: "string \<Rightarrow> nat \<Rightarrow> nat" where
  "back_to_nl buffer 0 = 0"
| "back_to_nl buffer (Suc x) = (if buffer ! Suc x \<noteq> NL then back_to_nl buffer x else Suc x)"

function hex_field :: "char \<Rightarrow> string \<Rightarrow> nat \<Rightarrow> u64 \<Rightarrow> (nat \<times> u64) option" where
  "hex_field stop buffer x acc =
     (if length buffer \<le> x then None
      else if buffer ! x = stop then Some (x, acc)
      else let c = buffer ! x; acc' = acc * 16 in
        if is_dec c then hex_field stop buffer (x + 1) (acc' + of_nat (of_char c - 48))
        else if is_af c then hex_field stop buffer (x + 1) (acc' + of_nat (of_char c - 97 + 10))
        else Some (x + 1, acc'))"
  by pat_completeness auto
termination by (relation "measure (\<lambda>(stop, buffer, x, acc). length buffer - x)") auto

declare hex_field.simps [simp del]

function skip_while :: "(char \<Rightarrow> bool) \<Rightarrow> string \<Rightarrow> nat \<Rightarrow> nat option" where
  "skip_while P buffer x =
     (if length buffer \<le> x then None
      else if P (buffer ! x) then skip_while P buffer (x + 1) else Some x)"
  by pat_completeness auto
termination by (relation "measure (\<lambda>(P, buffer, x). length buffer - x)") auto

declare skip_while.simps [simp del]

primrec skip_fields :: "nat \<Rightarrow> string \<Rightarrow> nat \<Rightarrow> nat option" where
  "skip_fields 0 buffer x = Some x"
| "skip_fields (Suc n) buffer x =
     Option.bind (skip_while (\<lambda>c. c \<noteq> BLANK) buffer (x + 1)) (skip_fields n buffer)"

record maps_line =
  ml_low :: u64
  ml_high :: u64
  ml_x :: nat
  ml_y :: nat

definition parse_maps_line :: "string \<Rightarrow> nat \<Rightarrow> maps_line option" where
  "parse_maps_line buffer i = do {
     let x = back_to_nl buffer (i - 1);
     let x = (if buffer ! x = NL then x + 1 else x);
     (x, low) \<leftarrow> hex_field CHR ''-'' buffer x 0;
     x \<leftarrow> skip_while (\<lambda>c. c \<noteq> CHR ''-'') buffer x;
     let x = (if buffer ! x = CHR ''-'' then x + 1 else x);
     (x, high) \<leftarrow> hex_field BLANK buffer x 0;
     x \<leftarrow> skip_fields 4 buffer x;
     x \<leftarrow> skip_while (\<lambda>c. c = BLANK) buffer x;
     y \<leftarrow> skip_while (\<lambda>c. c \<noteq> NL) buffer x;
     Some \<lparr>ml_low = low, ml_high = high, ml_x = x, ml_y = y\<rparr>
   }"

section \<open>Printing the pages of all regions\<close>

definition flag :: "bool \<Rightarrow> string" where
  "flag b = (if b then ''1'' else ''0'')"

definition page_row :: "u64 \<Rightarrow> PagemapEntry \<Rightarrow> string \<Rightarrow> string" where
  "page_row addr e lib_name =
     show_hex (unat addr) @ [TAB] @ pad BLANK 6 (show_hex (unat (pfn e))) @ [TAB, TAB, TAB]
     @ flag (soft_dirty e) @ [TAB, TAB, TAB] @ flag (file_page e) @ [TAB, TAB]
     @ flag (swapped e) @ [TAB, TAB] @ flag (present e) @ [TAB] @ lib_name @ [NL]"

definition page_out :: "pread_fn \<Rightarrow> string \<Rightarrow> u64 \<Rightarrow> string" where
  "page_out pread lib_name addr =
     (case pagemap_get_entry pread addr of None \<Rightarrow> [] | Some e \<Rightarrow> page_row addr e lib_name)"

partial_function (option) page_rows ::
  "pread_fn \<Rightarrow> string \<Rightarrow> u64 \<Rightarrow> u64 \<Rightarrow> string \<Rightarrow> string option" where
  "page_rows pread lib_name addr high out =
     (if addr < high
      then page_rows pread lib_name (addr + of_nat PAGE_SIZE) high (out @ page_out pread lib_name addr)
      else Some out)"

definition pages_line :: "u64 \<Rightarrow> string" where
  "pages_line n = ''Pages: '' @ show_dec (unat n) @ [NL]"

record pm_state =
  pm_buffer :: string
  pm_buf :: "u64 list"
  pm_out :: string

text \<open>The body of the loop over the positions of a block.\<close>

definition pm_char :: "pread_fn \<Rightarrow> nat \<Rightarrow> pm_state \<Rightarrow> pm_state option" where
  "pm_char pread i s = (let buffer = pm_buffer s in
     if buffer ! i = NL \<and> i \<noteq> 0 then do {
       ml \<leftarrow> parse_maps_line buffer i;
       let buffer' = buffer[ml_y ml := NUL];
       let lib_name = upto_nul (drop (ml_x ml) buffer');
       let n = (ml_high ml - ml_low ml) div of_nat PAGE_SIZE;
       if 1000 \<le> length (pm_buf s) then None else do {
         out \<leftarrow> page_rows pread lib_name (ml_low ml) (ml_high ml) (pm_out s @ pages_line n);
         Some (s\<lparr>pm_buf := pm_buf s @ [n], pm_out := out, pm_buffer := buffer'[ml_y ml := NL]\<rparr>)
       }
     } else Some s)"

fun pm_scan :: "pread_fn \<Rightarrow> nat list \<Rightarrow> pm_state \<Rightarrow> pm_state option" where
  "pm_scan pread [] s = Some s"
| "pm_scan pread (i # is) s = Option.bind (pm_char pread i s) (pm_scan pread is)"

text \<open>
  \<open>offset\<close> stays 0: every \<open>read\<close> fills the buffer from its beginning, and what a shorter
  block leaves behind stays there.  The list holds what the successive calls deliver; an
  empty block is end of file or an error.
\<close>

definition fill :: "string \<Rightarrow> string \<Rightarrow> string" where
  "fill block buffer = take (length buffer) block @ drop (length block) buffer"

fun pm_blocks :: "pread_fn \<Rightarrow> string list \<Rightarrow> pm_state \<Rightarrow> pm_state option" where
  "pm_blocks pread [] s = Some s"
| "pm_blocks pread (block # blocks) s =
     (if block = [] then Some s
      else Option.bind (pm_scan pread [0..<length block] (s\<lparr>pm_buffer := fill block (pm_buffer s)\<rparr>))
        (pm_blocks pread blocks))"

definition pm_head :: string where
  "pm_head = [NL] @ ''PAGEMAP:'' @ [NL] @ ''addr'' @ [TAB, TAB, TAB] @ ''pfn'' @ [TAB, TAB, TAB]
     @ ''soft-dirty'' @ [TAB] @ ''file/shared swapped present library'' @ [NL]"

definition fprintf_pagemap_info ::
  "string list option \<Rightarrow> pread_fn option \<Rightarrow> string \<Rightarrow> (int \<times> string) option" where
  "fprintf_pagemap_info maps pagemap garbage = (case (maps, pagemap) of
     (None, _) \<Rightarrow> Some (EXIT_FAILURE, [])
   | (_, None) \<Rightarrow> Some (EXIT_FAILURE, [])
   | (Some blocks, Some pread) \<Rightarrow>
       map_option (\<lambda>s. (0, pm_out s))
         (pm_blocks pread blocks \<lparr>pm_buffer = garbage, pm_buf = [], pm_out = pm_head\<rparr>))"


section \<open>Entries: decoding what the kernel encodes, through short reads\<close>

definition encode_entry :: "PagemapEntry \<Rightarrow> u64" where
  "encode_entry e = pfn e OR push_bit 55 (of_bool (soft_dirty e)) OR push_bit 61 (of_bool (file_page e))
     OR push_bit 62 (of_bool (swapped e)) OR push_bit 63 (of_bool (present e))"

definition le_bytes :: "u64 \<Rightarrow> c_char list" where
  "le_bytes w = map (\<lambda>k. ucast (drop_bit (8 * k) w)) [0..<8]"

lemma le_word_bytes: "le_word (le_bytes w) = w"
proof (rule bit_word_eqI)
  fix n :: nat assume n: "n < LENGTH(64)"
  have "bit (le_word (le_bytes w)) n \<longleftrightarrow> bit (horner_sum uint (2 ^ LENGTH(8)) (le_bytes w) :: int) n"
    using n by (simp add: le_word_def bit_word_of_int_iff)
  also have "\<dots> \<longleftrightarrow> bit w n"
    using n by (subst bit_horner_sum_uint_exp_iff)
      (simp add: le_bytes_def bit_ucast_iff bit_drop_bit_eq less_mult_imp_div_less)
  finally show "bit (le_word (le_bytes w)) n \<longleftrightarrow> bit w n" .
qed

lemma decode_entry_bits:
  "decode_entry w = \<lparr>pfn = take_bit 55 w, soft_dirty = bit w 55, file_page = bit w 61,
     swapped = bit w 62, present = bit w 63\<rparr>"
proof -
  have "push_bit 55 1 - 1 = (mask 55 :: u64)"
    by (simp add: mask_eq_exp_minus_1)
  then show ?thesis
    by (simp add: decode_entry_def take_bit_eq_mask bit_iff_and_drop_bit_eq_1 and_one_eq mod_2_eq_odd
        bit_iff_odd_drop_bit)
qed

lemma decode_encode:
  assumes "pfn e < 2 ^ 55"
  shows "decode_entry (encode_entry e) = e"
proof -
  have low: "take_bit 55 (pfn e) = pfn e"
    using assms by (simp add: take_bit_eq_mod mod_word_less)
  have hi: "\<not> bit (pfn e) k" if "55 \<le> k" for k
    using that by (subst low [symmetric]) (simp add: bit_take_bit_iff)
  have one: "bit (push_bit m (of_bool b) :: u64) k \<longleftrightarrow> m < 64 \<and> k = m \<and> b" for m k b
    by (auto simp: bit_push_bit_iff bit_1_iff of_bool_def)
  have "take_bit 55 (encode_entry e) = pfn e"
    by (rule bit_word_eqI) (auto simp: encode_entry_def bit_take_bit_iff bit_or_iff one hi not_less)
  moreover have "bit (encode_entry e) 55 = soft_dirty e" "bit (encode_entry e) 61 = file_page e"
    "bit (encode_entry e) 62 = swapped e" "bit (encode_entry e) 63 = present e"
    by (simp_all add: encode_entry_def bit_or_iff one hi)
  ultimately show ?thesis
    by (simp add: decode_entry_bits)
qed

text \<open>What is documented of \<open>pread\<close> on a file: some bytes at the offset, none only at its end.\<close>

definition pread_of :: "c_char list \<Rightarrow> pread_fn \<Rightarrow> bool" where
  "pread_of file pread \<longleftrightarrow> (\<forall>off n. \<exists>k \<le> n. pread off n = Some (take k (drop off file))
     \<and> (k = 0 \<longrightarrow> n = 0 \<or> length file \<le> off))"

lemma entry_loop_file:
  assumes law: "pread_of file pread"
  shows "j \<le> 8 \<Longrightarrow> off + j \<le> length file \<Longrightarrow>
    entry_loop pread off (take j (drop off file))
      = (if off + 8 \<le> length file then Some (take 8 (drop off file)) else None)"
proof (induction "8 - j" arbitrary: j rule: less_induct)
  case less
  have len: "length (take j (drop off file)) = j" using less.prems by simp
  show ?case
  proof (cases "j = 8")
    case True
    then show ?thesis using less.prems by (simp add: entry_loop.simps)
  next
    case False
    obtain k where k: "k \<le> 8 - j" "pread (off + j) (8 - j) = Some (take k (drop (off + j) file))"
      and k0: "k = 0 \<longrightarrow> 8 - j = 0 \<or> length file \<le> off + j"
      using law unfolding pread_of_def by blast
    let ?bs = "take k (drop (off + j) file)"
    have step: "entry_loop pread off (take j (drop off file)) =
        (if ?bs = [] then None else entry_loop pread off (take (j + length ?bs) (drop off file)))"
    proof -
      have join: "take (j + length ?bs) (drop off file) = take j (drop off file) @ ?bs"
        by (simp only: take_add drop_drop add.commute) (simp add: add.commute min_def)
      show ?thesis
        unfolding join entry_loop.simps [of pread off "take j (drop off file)"] len k(2)
        using False less.prems(1) by (cases ?bs) (simp_all del: take_eq_Nil)
    qed
    show ?thesis
    proof (cases "?bs = []")
      case True
      then have "length file \<le> off + j" using k0 False less.prems by auto
      then show ?thesis using step True False less.prems by simp
    next
      case bs: False
      then have "0 < length ?bs" by (rule length_greater_0_conv [THEN iffD2])
      then have "entry_loop pread off (take (j + length ?bs) (drop off file))
          = (if off + 8 \<le> length file then Some (take 8 (drop off file)) else None)"
        using False less.prems k(1) by (intro less.hyps) auto
      then show ?thesis using step bs by simp
    qed
  qed
qed

lemma pagemap_get_entry_file:
  assumes "pread_of file pread"
  shows "pagemap_get_entry pread vaddr = (let off = unat vaddr div PAGE_SIZE * 8 in
    if off + 8 \<le> length file then Some (decode_entry (le_word (take 8 (drop off file)))) else None)"
proof (cases "unat vaddr div PAGE_SIZE * 8 \<le> length file")
  case True
  then show ?thesis
    using entry_loop_file [OF assms, of 0 "unat vaddr div PAGE_SIZE * 8"]
    by (simp add: pagemap_get_entry_def Let_def)
next
  case False
  obtain k where "pread (unat vaddr div PAGE_SIZE * 8) 8 = Some (take k (drop (unat vaddr div PAGE_SIZE * 8) file))"
    using assms unfolding pread_of_def by blast
  then show ?thesis
    using False by (simp add: pagemap_get_entry_def Let_def entry_loop.simps)
qed

section \<open>Cursors: the index loops on the text they stand before\<close>

lemma drop_ConsD: "drop x buffer = c # cs \<Longrightarrow> x < length buffer \<and> buffer ! x = c \<and> drop (x + 1) buffer = cs"
  by (metis Suc_eq_plus1 drop_Suc drop_eq_Nil linorder_not_le list.distinct(1) list.sel(1) list.sel(3) nth_via_drop tl_drop)

lemma drop_appendD: "drop x buffer = ys @ zs \<Longrightarrow> drop (x + length ys) buffer = zs"
  by (metis add.commute append_eq_conv_conj drop_drop)

lemma skip_while_at:
  "drop x buffer = ys @ c # zs \<Longrightarrow> (\<And>y. y \<in> set ys \<Longrightarrow> P y) \<Longrightarrow> \<not> P c \<Longrightarrow>
   skip_while P buffer x = Some (x + length ys)"
proof (induction ys arbitrary: x)
  case Nil
  then show ?case by (auto simp: skip_while.simps [of P buffer x] dest: drop_ConsD)
next
  case (Cons y ys)
  from Cons.prems(1) have y: "x < length buffer" "buffer ! x = y" "drop (x + 1) buffer = ys @ c # zs"
    by (auto dest: drop_ConsD)
  show ?case
    using y Cons.prems Cons.IH [OF y(3)] by (simp add: skip_while.simps [of P buffer x])
qed

lemma hex_field_at:
  "drop x buffer = map digit_char ds @ stop # zs \<Longrightarrow> (\<And>d. d \<in> set ds \<Longrightarrow> d < 16) \<Longrightarrow>
   \<not> is_dec stop \<Longrightarrow> \<not> is_af stop \<Longrightarrow>
   hex_field stop buffer x acc = Some (x + length ds, foldl (\<lambda>a d. a * 16 + of_nat d) acc ds)"
proof (induction ds arbitrary: x acc)
  case Nil
  then show ?case by (auto simp: hex_field.simps [of stop buffer x] dest: drop_ConsD)
next
  case (Cons d ds)
  from Cons.prems(1) have y: "x < length buffer" "buffer ! x = digit_char d"
      "drop (x + 1) buffer = map digit_char ds @ stop # zs"
    by (auto dest: drop_ConsD)
  have d: "d < 16" using Cons.prems(2) by simp
  have ns: "digit_char d \<noteq> stop"
    using Cons.prems(3,4) digit_char_class [OF d] by (metis linorder_not_le)
  have ih: "hex_field stop buffer (x + 1) b = Some (x + 1 + length ds, foldl (\<lambda>a d. a * 16 + of_nat d) b ds)" for b
    using Cons.prems by (intro Cons.IH y(3)) auto
  show ?case
    using y ns d by (cases "d < 10")
      (simp_all add: hex_field.simps [of stop buffer x] Let_def digit_char_class digit_char_simps
        ih [simplified])
qed

lemma foldl_of_nat:
  "foldl (\<lambda>a d. a * 16 + of_nat d) (of_nat n) ds = (of_nat (foldl (\<lambda>a d. a * 16 + d) n ds) :: u64)"
proof (induction ds arbitrary: n)
  case (Cons d ds)
  show ?case using Cons.IH [of "n * 16 + d"] by simp
qed simp

lemma foldl_zeros: "foldl (\<lambda>a d. a * 16 + d) 0 (replicate k 0 @ ds) = foldl (\<lambda>a d. a * 16 + d) (0 :: nat) ds"
  by (induction k) simp_all

lemma line_start:
  assumes buffer: "buffer = pre @ line @ post" and nl: "pre = [] \<or> last pre = NL" "NL \<notin> set line"
  shows "length pre \<le> x \<Longrightarrow> x < length pre + length line \<Longrightarrow>
    (let x' = back_to_nl buffer x in if buffer ! x' = NL then x' + 1 else x') = length pre"
proof (induction x)
  case 0
  then have "pre = []" "line \<noteq> []" by auto
  then have "buffer ! 0 \<in> set line" by (simp add: buffer nth_append)
  then show ?case using nl(2) \<open>pre = []\<close> by (auto simp: Let_def)
next
  case (Suc x)
  have "buffer ! Suc x = line ! (Suc x - length pre)" using Suc.prems by (auto simp: buffer nth_append)
  also have "\<dots> \<in> set line" using Suc.prems by (intro nth_mem) auto
  finally have n: "buffer ! Suc x \<noteq> NL" using nl(2) by metis
  show ?case
  proof (cases "length pre \<le> x")
    case True
    then show ?thesis using Suc n by (simp add: Let_def)
  next
    case False
    then have pre: "length pre = Suc x" "pre \<noteq> []" using Suc.prems by auto
    then have "buffer ! x = last pre" by (simp add: buffer nth_append last_conv_nth)
    then have "buffer ! x = NL" using nl(1) pre(2) by auto
    then have "back_to_nl buffer x = x" by (cases x) auto
    then show ?thesis using n pre \<open>buffer ! x = NL\<close> by (simp add: Let_def)
  qed
qed

lemma skip_fields_at:
  "drop x buffer = concat (map ((#) BLANK) fs) @ BLANK # zs \<Longrightarrow> (\<And>f. f \<in> set fs \<Longrightarrow> BLANK \<notin> set f) \<Longrightarrow>
   skip_fields (length fs) buffer x = Some (x + length (concat (map ((#) BLANK) fs)))"
proof (induction fs arbitrary: x)
  case (Cons f fs)
  let ?rest = "concat (map ((#) BLANK) fs) @ BLANK # zs"
  have d: "drop (x + 1) buffer = f @ ?rest"
    using Cons.prems(1) by (auto dest: drop_ConsD)
  obtain r where r: "?rest = BLANK # r" by (cases fs) auto
  have "skip_while (\<lambda>c. c \<noteq> BLANK) buffer (x + 1) = Some (x + 1 + length f)"
    using d Cons.prems(2) unfolding r by (intro skip_while_at) auto
  moreover have "drop (x + 1 + length f) buffer = ?rest" using d by (rule drop_appendD)
  then have "skip_fields (length fs) buffer (x + 1 + length f)
      = Some (x + 1 + length f + length (concat (map ((#) BLANK) fs)))"
    using Cons.prems(2) by (intro Cons.IH) auto
  ultimately show ?case by simp
qed simp

section \<open>A line of the maps file\<close>

text \<open>The line the kernel prints for a region: addresses, four fields, the name after blanks.\<close>

record vma =
  vm_start :: nat
  vm_end :: nat
  vm_fields :: "string list"
  vm_gap :: nat
  vm_name :: string

definition maps_addr :: "nat \<Rightarrow> string" where
  "maps_addr n = pad CHR ''0'' 8 (show_hex n)"

definition vma_line :: "vma \<Rightarrow> string" where
  "vma_line v = maps_addr (vm_start v) @ ''-'' @ maps_addr (vm_end v)
     @ concat (map ((#) BLANK) (vm_fields v)) @ BLANK # replicate (vm_gap v) BLANK @ vm_name v"

definition vma_ok :: "vma \<Rightarrow> bool" where
  "vma_ok v \<longleftrightarrow> vm_start v \<le> vm_end v \<and> vm_end v \<le> 2 ^ 64 - PAGE_SIZE \<and> length (vm_fields v) = 4
     \<and> list_all (\<lambda>f. BLANK \<notin> set f \<and> NL \<notin> set f) (vm_fields v)
     \<and> NL \<notin> set (vm_name v) \<and> NUL \<notin> set (vm_name v) \<and> (vm_name v = [] \<or> hd (vm_name v) \<noteq> BLANK)"

lemma maps_addr_digits:
  obtains ds where "maps_addr n = map digit_char ds" "\<forall>d \<in> set ds. d < 16"
    "foldl (\<lambda>a d. a * 16 + of_nat d) 0 ds = (of_nat n :: u64)"
proof
  let ?ds = "replicate (8 - length (digs 16 n)) 0 @ digs 16 n"
  show "maps_addr n = map digit_char ?ds"
    by (simp add: maps_addr_def pad_def show_base_def digit_char_0)
  show "\<forall>d \<in> set ?ds. d < 16" using digs_less [of 16 _ n] by auto
  show "foldl (\<lambda>a d. a * 16 + of_nat d) 0 ?ds = (of_nat n :: u64)"
    using foldl_of_nat [of 0 ?ds] fold_digs [of 16 n] by (simp add: foldl_zeros fold_digits_def del: foldl_append)
qed

lemma maps_addr_chars: "c \<in> set (maps_addr n) \<Longrightarrow> is_dec c \<or> is_af c"
proof -
  obtain ds where "maps_addr n = map digit_char ds" "\<forall>d \<in> set ds. d < 16"
    by (rule maps_addr_digits [of n])
  then show "c \<in> set (maps_addr n) \<Longrightarrow> is_dec c \<or> is_af c"
    by (auto simp: digit_char_class not_less)
qed

lemma vma_line_no_nl: "vma_ok v \<Longrightarrow> NL \<notin> set (vma_line v)"
  by (auto simp: vma_line_def vma_ok_def list_all_iff is_dec_def is_af_def dest: maps_addr_chars)

lemma vma_line_not_Nil: "vma_line v \<noteq> []"
  by (simp add: vma_line_def)

lemma vma_range_at:
  assumes at: "drop p buffer = maps_addr lo @ CHR ''-'' # maps_addr hi @ BLANK # rest"
  defines "x1 \<equiv> p + length (maps_addr lo)"
  defines "x2 \<equiv> x1 + 1 + length (maps_addr hi)"
  shows "hex_field CHR ''-'' buffer p 0 = Some (x1, of_nat lo)"
    and "skip_while (\<lambda>c. c \<noteq> CHR ''-'') buffer x1 = Some x1" and "buffer ! x1 = CHR ''-''"
    and "hex_field BLANK buffer (x1 + 1) 0 = Some (x2, of_nat hi)"
    and "drop x2 buffer = BLANK # rest"
proof -
  obtain d1 where d1: "maps_addr lo = map digit_char d1" "\<forall>d \<in> set d1. d < 16"
    "foldl (\<lambda>a d. a * 16 + of_nat d) 0 d1 = (of_nat lo :: u64)" by (rule maps_addr_digits [of lo])
  obtain d2 where d2: "maps_addr hi = map digit_char d2" "\<forall>d \<in> set d2. d < 16"
    "foldl (\<lambda>a d. a * 16 + of_nat d) 0 d2 = (of_nat hi :: u64)" by (rule maps_addr_digits [of hi])
  have c0: "drop p buffer = map digit_char d1 @ CHR ''-'' # maps_addr hi @ BLANK # rest"
    using at d1(1) by simp
  have c1: "drop x1 buffer = CHR ''-'' # maps_addr hi @ BLANK # rest"
    using drop_appendD [OF at] by (simp add: x1_def)
  have c2: "drop (x1 + 1) buffer = map digit_char d2 @ BLANK # rest"
    using drop_ConsD [OF c1] d2(1) by simp
  have l: "length (maps_addr lo) = length d1" "length (maps_addr hi) = length d2"
    using d1(1) d2(1) by simp_all
  show "hex_field CHR ''-'' buffer p 0 = Some (x1, of_nat lo)"
    unfolding x1_def l d1(3) [symmetric]
    by (rule hex_field_at [OF c0 bspec [OF d1(2)]]) (simp_all add: is_dec_def is_af_def)
  show "hex_field BLANK buffer (x1 + 1) 0 = Some (x2, of_nat hi)"
    unfolding x2_def l d2(3) [symmetric]
    by (rule hex_field_at [OF c2 bspec [OF d2(2)]]) (simp_all add: is_dec_def is_af_def)
  show "skip_while (\<lambda>c. c \<noteq> CHR ''-'') buffer x1 = Some x1"
    using skip_while_at [of x1 buffer "[]"] c1 by simp
  show "buffer ! x1 = CHR ''-''" using drop_ConsD [OF c1] by simp
  show "drop x2 buffer = BLANK # rest"
    using drop_appendD [OF c2] by (simp add: x2_def l)
qed

lemma vma_name_at:
  assumes at: "drop p buffer = concat (map ((#) BLANK) fs) @ BLANK # replicate k BLANK @ name @ NL # post"
    and fs: "length fs = 4" "list_all (\<lambda>f. BLANK \<notin> set f \<and> NL \<notin> set f) fs"
    and name: "NL \<notin> set name" "name = [] \<or> hd name \<noteq> BLANK"
  defines "x3 \<equiv> p + length (concat (map ((#) BLANK) fs))"
  defines "x4 \<equiv> x3 + (1 + k)"
  shows "skip_fields 4 buffer p = Some x3"
    and "skip_while (\<lambda>c. c = BLANK) buffer x3 = Some x4"
    and "skip_while (\<lambda>c. c \<noteq> NL) buffer x4 = Some (x4 + length name)"
proof -
  have c3: "drop x3 buffer = (BLANK # replicate k BLANK) @ name @ NL # post"
    using drop_appendD [OF at] by (simp add: x3_def)
  have c3': "drop x3 buffer = (BLANK # replicate k BLANK) @ hd (name @ [NL]) # tl (name @ NL # post)"
    using c3 by (cases name) simp_all
  have nb: "hd (name @ [NL]) \<noteq> BLANK"
    using name(2) by (cases name) auto
  have c4: "drop x4 buffer = name @ NL # post"
    using drop_appendD [OF c3] by (simp add: x4_def)
  show "skip_fields 4 buffer p = Some x3"
    using skip_fields_at [OF at] fs by (auto simp: x3_def list_all_iff)
  have "skip_while (\<lambda>c. c = BLANK) buffer x3 = Some (x3 + length (BLANK # replicate k BLANK))"
  proof (rule skip_while_at [OF c3'])
    show "hd (name @ [NL]) \<noteq> BLANK" by (rule nb)
  qed auto
  then show "skip_while (\<lambda>c. c = BLANK) buffer x3 = Some x4"
    by (simp add: x4_def)
  show "skip_while (\<lambda>c. c \<noteq> NL) buffer x4 = Some (x4 + length name)"
    using name(1) by (intro skip_while_at [OF c4]) auto
qed

lemma parse_maps_line_at:
  assumes ok: "vma_ok v" and nl: "pre = [] \<or> last pre = NL"
    and buffer: "buffer = pre @ vma_line v @ NL # post"
  shows "parse_maps_line buffer (length pre + length (vma_line v)) = Some \<lparr>
    ml_low = of_nat (vm_start v), ml_high = of_nat (vm_end v),
    ml_x = length pre + length (vma_line v) - length (vm_name v), ml_y = length pre + length (vma_line v)\<rparr>"
proof -
  let ?p = "length pre" and ?i = "length pre + length (vma_line v)"
  let ?fs = "concat (map ((#) BLANK) (vm_fields v))"
  let ?x1 = "?p + length (maps_addr (vm_start v))"
  let ?x2 = "?x1 + 1 + length (maps_addr (vm_end v))"
  obtain f fs where f: "vm_fields v = f # fs" using ok by (cases "vm_fields v") (auto simp: vma_ok_def)
  have at: "drop ?p buffer = maps_addr (vm_start v) @ CHR ''-'' # maps_addr (vm_end v) @ BLANK #
      f @ concat (map ((#) BLANK) fs) @ BLANK # replicate (vm_gap v) BLANK @ vm_name v @ NL # post"
    by (simp add: buffer vma_line_def f)
  note r = vma_range_at [OF at]
  have at2: "drop ?x2 buffer = ?fs @ BLANK # replicate (vm_gap v) BLANK @ vm_name v @ NL # post"
    using r(5) by (simp add: f)
  have nm: "length (vm_fields v) = 4" "list_all (\<lambda>f. BLANK \<notin> set f \<and> NL \<notin> set f) (vm_fields v)"
    "NL \<notin> set (vm_name v)" "vm_name v = [] \<or> hd (vm_name v) \<noteq> BLANK"
    using ok unfolding vma_ok_def by blast+
  note n = vma_name_at [OF at2 nm]
  have "0 < length (vma_line v)" using vma_line_not_Nil [of v] by simp
  then have i: "?p \<le> ?i - 1" "?i - 1 < ?i" by linarith+
  have start: "(if buffer ! back_to_nl buffer (?i - 1) = NL then back_to_nl buffer (?i - 1) + 1
      else back_to_nl buffer (?i - 1)) = ?p"
    by (rule line_start [OF buffer nl vma_line_no_nl [OF ok] i, unfolded Let_def])
  have dash: "(if buffer ! ?x1 = CHR ''-'' then ?x1 + 1 else ?x1) = ?x1 + 1" using r(3) by simp
  have pos: "?x2 + length ?fs + (1 + vm_gap v) = ?i - length (vm_name v)"
    "?i - length (vm_name v) + length (vm_name v) = ?i"
    by (simp_all add: vma_line_def)
  show ?thesis
    unfolding parse_maps_line_def Let_def start
    by (simp only: bind.bind_lunit prod.case r(1,2,4) dash n [unfolded pos(1)] pos(2))
qed

section \<open>The pages of a region\<close>

definition page_count :: "nat \<Rightarrow> nat \<Rightarrow> nat" where
  "page_count lo hi = (hi - lo + (PAGE_SIZE - 1)) div PAGE_SIZE"

definition region_rows :: "pread_fn \<Rightarrow> string \<Rightarrow> nat \<Rightarrow> nat \<Rightarrow> string" where
  "region_rows pread name lo hi =
     concat (map (\<lambda>k. page_out pread name (of_nat (lo + k * PAGE_SIZE))) [0..<page_count lo hi])"

lemma page_count_step:
  "lo < hi \<Longrightarrow> page_count lo hi = Suc (page_count (lo + PAGE_SIZE) hi)"
  "hi \<le> lo \<Longrightarrow> page_count lo hi = 0"
proof -
  assume "lo < hi"
  then show "page_count lo hi = Suc (page_count (lo + PAGE_SIZE) hi)"
    by (cases "hi \<le> lo + PAGE_SIZE")
      (auto simp: page_count_def PAGE_SIZE_def le_div_geq)
qed (simp add: page_count_def PAGE_SIZE_def)

lemma region_rows_step:
  "lo < hi \<Longrightarrow> region_rows pread name lo hi
     = page_out pread name (of_nat lo) @ region_rows pread name (lo + PAGE_SIZE) hi"
proof -
  assume "lo < hi"
  then have "[0..<page_count lo hi] = 0 # map Suc [0..<page_count (lo + PAGE_SIZE) hi]"
    by (simp add: page_count_step(1) upt_conv_Cons map_Suc_upt del: upt_Suc)
  then show ?thesis
    by (simp add: region_rows_def comp_def algebra_simps)
qed

lemma page_rows_ends:
  assumes hi: "hi \<le> 2 ^ 64 - PAGE_SIZE"
  shows "lo < 2 ^ 64 \<Longrightarrow> page_rows pread name (of_nat lo) (of_nat hi) out
    = Some (out @ region_rows pread name lo hi)"
proof (induction "hi - lo" arbitrary: lo out rule: less_induct)
  case less
  have lt: "(of_nat lo :: u64) < of_nat hi \<longleftrightarrow> lo < hi"
    using less.prems hi by (simp add: word_less_nat_alt unat_of_nat PAGE_SIZE_def)
  show ?case
  proof (cases "lo < hi")
    case True
    then have "lo + PAGE_SIZE < 2 ^ 64" using hi by (simp add: PAGE_SIZE_def)
    moreover have "hi - (lo + PAGE_SIZE) < hi - lo" using True by (simp add: PAGE_SIZE_def)
    moreover have "(of_nat lo + of_nat PAGE_SIZE :: u64) = of_nat (lo + PAGE_SIZE)" by simp
    ultimately show ?thesis
      using less.hyps [of "lo + PAGE_SIZE"] True lt
      by (subst page_rows.simps) (simp add: region_rows_step del: of_nat_add)
  next
    case False
    then show ?thesis
      using lt by (subst page_rows.simps) (simp add: region_rows_def page_count_step(2))
  qed
qed

section \<open>A block of whole lines\<close>

definition vma_pages :: "vma \<Rightarrow> u64" where
  "vma_pages v = of_nat ((vm_end v - vm_start v) div PAGE_SIZE)"

definition vma_out :: "pread_fn \<Rightarrow> vma \<Rightarrow> string" where
  "vma_out pread v = pages_line (vma_pages v) @ region_rows pread (vm_name v) (vm_start v) (vm_end v)"

definition block_of :: "vma list \<Rightarrow> string" where
  "block_of vs = concat (map (\<lambda>v. vma_line v @ [NL]) vs)"

lemma pm_char_other: "pm_buffer s ! i \<noteq> NL \<Longrightarrow> pm_char pread i s = Some s"
  by (simp add: pm_char_def Let_def)

lemma vma_pages_word:
  assumes "vma_ok v"
  shows "(of_nat (vm_end v) - of_nat (vm_start v)) div of_nat PAGE_SIZE = vma_pages v"
proof (rule word_unat_eq_iff [THEN iffD2])
  have le: "vm_start v \<le> vm_end v" "vm_end v < 2 ^ 64"
    using assms by (auto simp: vma_ok_def PAGE_SIZE_def)
  then have "of_nat (vm_end v) - of_nat (vm_start v) = (of_nat (vm_end v - vm_start v) :: u64)" by simp
  moreover have "(vm_end v - vm_start v) div PAGE_SIZE < 2 ^ 64"
    using le(2) by (simp add: PAGE_SIZE_def)
  moreover have "unat (of_nat (vm_end v - vm_start v) :: u64) = vm_end v - vm_start v"
    using le(2) by (simp add: unat_of_nat)
  ultimately show "unat ((of_nat (vm_end v) - of_nat (vm_start v)) div of_nat PAGE_SIZE :: u64) = unat (vma_pages v)"
    by (simp add: vma_pages_def unat_div unat_of_nat PAGE_SIZE_def del: of_nat_diff)
qed

lemma pm_char_line:
  assumes ok: "vma_ok v" and nl: "pre = [] \<or> last pre = NL"
    and buffer: "pm_buffer s = pre @ vma_line v @ NL # post"
    and room: "length (pm_buf s) < 1000"
  shows "pm_char pread (length pre + length (vma_line v)) s =
    Some (s\<lparr>pm_buf := pm_buf s @ [vma_pages v], pm_out := pm_out s @ vma_out pread v\<rparr>)"
proof -
  let ?i = "length pre + length (vma_line v)"
  let ?x = "?i - length (vm_name v)"
  obtain front where front: "vma_line v = front @ vm_name v" by (simp add: vma_line_def)
  have at: "pm_buffer s ! ?i = NL" "?i \<noteq> 0"
    using vma_line_not_Nil [of v] by (simp_all add: buffer nth_append)
  have y: "(pm_buffer s)[?i := NUL] = (pre @ vma_line v) @ NUL # post"
    "(pm_buffer s)[?i := NL] = pm_buffer s"
    by (simp_all add: buffer list_update_append)
  have "drop ?x ((pm_buffer s)[?i := NUL]) = vm_name v @ NUL # post"
    unfolding y by (simp add: front)
  then have name: "upto_nul (drop ?x ((pm_buffer s)[?i := NUL])) = vm_name v"
    using ok by (simp add: upto_nul_at vma_ok_def)
  have rows: "page_rows pread (vm_name v) (of_nat (vm_start v)) (of_nat (vm_end v)) out
      = Some (out @ region_rows pread (vm_name v) (vm_start v) (vm_end v))" for out
    using ok by (intro page_rows_ends) (auto simp: vma_ok_def PAGE_SIZE_def)
  show ?thesis
    using at room unfolding pm_char_def Let_def parse_maps_line_at [OF ok nl buffer]
    by (simp add: name rows vma_pages_word [OF ok] y(2) vma_out_def)
qed

lemma pm_char_overflow:
  assumes "vma_ok v" "pre = [] \<or> last pre = NL" "pm_buffer s = pre @ vma_line v @ NL # post"
    and full: "1000 \<le> length (pm_buf s)"
  shows "pm_char pread (length pre + length (vma_line v)) s = None"
  using full vma_line_not_Nil [of v]
  unfolding pm_char_def Let_def parse_maps_line_at [OF assms(1-3)] by (simp add: assms(3) nth_append)

lemma pm_scan_append: "pm_scan pread (is @ js) s = Option.bind (pm_scan pread is s) (pm_scan pread js)"
  by (induction "is" arbitrary: s) (auto split: Option.bind_splits)

lemma pm_scan_other:
  "(\<And>i. i \<in> set is \<Longrightarrow> pm_buffer s ! i \<noteq> NL) \<Longrightarrow> pm_scan pread is s = Some s"
  by (induction "is") (simp_all add: pm_char_other)

definition pm_printed :: "pread_fn \<Rightarrow> vma list \<Rightarrow> pm_state \<Rightarrow> pm_state option" where
  "pm_printed pread vs s = (if length (pm_buf s) + length vs \<le> 1000
     then Some (s\<lparr>pm_buf := pm_buf s @ map vma_pages vs, pm_out := pm_out s @ concat (map (vma_out pread) vs)\<rparr>)
     else None)"

lemma pm_scan_line:
  assumes "vma_ok v" "pre = [] \<or> last pre = NL" "pm_buffer s = pre @ vma_line v @ NL # post"
  shows "pm_scan pread [length pre..<length pre + length (vma_line v) + 1] s = pm_printed pread [v] s"
proof -
  let ?i = "length pre + length (vma_line v)"
  have "pm_buffer s ! i \<noteq> NL" if "i \<in> set [length pre..<?i]" for i
  proof -
    have "pm_buffer s ! i = vma_line v ! (i - length pre)" "i - length pre < length (vma_line v)"
      using that by (auto simp: assms(3) nth_append)
    then show ?thesis using vma_line_no_nl [OF assms(1)] by (metis nth_mem)
  qed
  then have "pm_scan pread [length pre..<?i] s = Some s" by (rule pm_scan_other)
  moreover have "[length pre..<?i + 1] = [length pre..<?i] @ [?i]" by simp
  ultimately show ?thesis
    using pm_char_line [OF assms, of pread] pm_char_overflow [OF assms, of pread]
    by (simp add: pm_scan_append pm_printed_def not_le)
qed

lemma pm_printed_Cons:
  "length (pm_buf s) \<le> 1000 \<Longrightarrow>
   Option.bind (pm_printed pread [v] s) (pm_printed pread vs) = pm_printed pread (v # vs) s"
  by (auto simp: pm_printed_def)

lemma pm_printed_append:
  "Option.bind (pm_printed pread vs s) (pm_printed pread ws) = pm_printed pread (vs @ ws) s"
  by (auto simp: pm_printed_def)

lemma pm_printed_frame:
  "pm_printed pread vs s = Some t \<Longrightarrow> length (pm_buf t) \<le> 1000 \<and> pm_buffer t = pm_buffer s"
  by (auto simp: pm_printed_def split: if_splits)

lemma pm_scan_lines:
  "list_all vma_ok vs \<Longrightarrow> pre = [] \<or> last pre = NL \<Longrightarrow> pm_buffer s = pre @ block_of vs @ post \<Longrightarrow>
   length (pm_buf s) \<le> 1000 \<Longrightarrow>
   pm_scan pread [length pre..<length pre + length (block_of vs)] s = pm_printed pread vs s"
proof (induction vs arbitrary: pre s)
  case Nil
  then show ?case by (simp add: block_of_def pm_printed_def)
next
  case (Cons v vs)
  let ?pre = "pre @ vma_line v @ [NL]"
  have b: "pm_buffer s = pre @ vma_line v @ NL # block_of vs @ post"
    using Cons.prems by (simp add: block_of_def)
  have len: "length (block_of (v # vs)) = length (vma_line v) + 1 + length (block_of vs)"
    "length ?pre = length pre + length (vma_line v) + 1"
    by (simp_all add: block_of_def)
  have split: "[length pre..<length pre + length (block_of (v # vs))] =
      [length pre..<length pre + length (vma_line v) + 1] @ [length ?pre..<length ?pre + length (block_of vs)]"
    unfolding len add.assoc [symmetric] by (rule upt_add_eq_append) simp
  have line: "pm_scan pread [length pre..<length pre + length (vma_line v) + 1] s = pm_printed pread [v] s"
    using Cons.prems by (intro pm_scan_line [OF _ _ b]) auto
  have rest: "pm_scan pread [length ?pre..<length ?pre + length (block_of vs)] t = pm_printed pread vs t"
    if "pm_printed pread [v] s = Some t" for t
    using Cons.prems b pm_printed_frame [OF that] by (intro Cons.IH) auto
  show ?case
    unfolding split pm_scan_append line pm_printed_Cons [OF Cons.prems(4), of pread v vs, symmetric]
    using rest by (cases "pm_printed pread [v] s") simp_all
qed

lemma pm_blocks_lines:
  "list_all (\<lambda>vs. vs \<noteq> [] \<and> list_all vma_ok vs \<and> length (block_of vs) \<le> length (pm_buffer s)) vss \<Longrightarrow>
   length (pm_buf s) \<le> 1000 \<Longrightarrow>
   map_option pm_out (pm_blocks pread (map block_of vss) s) = map_option pm_out (pm_printed pread (concat vss) s)"
proof (induction vss arbitrary: s)
  case Nil
  then show ?case by (simp add: pm_printed_def)
next
  case (Cons vs vss)
  let ?s = "s\<lparr>pm_buffer := fill (block_of vs) (pm_buffer s)\<rparr>"
  have ne: "block_of vs \<noteq> []" using Cons.prems by (cases vs) (auto simp: block_of_def)
  have "pm_scan pread [0..<length (block_of vs)] ?s = pm_printed pread vs ?s"
    using Cons.prems pm_scan_lines [of vs "[]" ?s "drop (length (block_of vs)) (pm_buffer s)" pread]
    by (simp add: fill_def)
  then have head: "pm_blocks pread (map block_of (vs # vss)) s
      = Option.bind (pm_printed pread vs ?s) (pm_blocks pread (map block_of vss))"
    using ne by simp
  have same: "map_option pm_out (pm_printed pread (vs @ concat vss) s)
      = map_option pm_out (Option.bind (pm_printed pread vs ?s) (pm_printed pread (concat vss)))"
    by (simp add: pm_printed_append) (simp add: pm_printed_def)
  have tail: "map_option pm_out (pm_blocks pread (map block_of vss) t)
      = map_option pm_out (pm_printed pread (concat vss) t)" if "pm_printed pread vs ?s = Some t" for t
    using Cons.prems pm_printed_frame [OF that] by (intro Cons.IH) (auto simp: list_all_iff fill_def)
  show ?case
    unfolding head concat.simps same using tail by (cases "pm_printed pread vs ?s") simp_all
qed

section \<open>Properties\<close>

lemma pagemap_entries:
  assumes law: "pread_of (concat (map (\<lambda>e. le_bytes (encode_entry e)) es)) pread"
    and small: "list_all (\<lambda>e. pfn e < 2 ^ 55) es"
  shows "pagemap_get_entry pread vaddr =
    (if unat vaddr div PAGE_SIZE < length es then Some (es ! (unat vaddr div PAGE_SIZE)) else None)"
proof -
  let ?rec = "\<lambda>e. le_bytes (encode_entry e)" and ?k = "unat vaddr div PAGE_SIZE"
  have len: "length (concat (map ?rec xs)) = 8 * length xs" for xs
    by (induction xs) (simp_all add: le_bytes_def)
  have at: "take 8 (drop (k * 8) (concat (map ?rec xs))) = ?rec (xs ! k)" if "k < length xs" for k xs
    using that
  proof (induction xs arbitrary: k)
    case (Cons x xs)
    then show ?case by (cases k) (simp_all add: le_bytes_def)
  qed simp
  show ?thesis
  proof (cases "?k < length es")
    case True
    then have "pfn (es ! ?k) < 2 ^ 55" using small by (simp add: list_all_length)
    then show ?thesis
      using True by (simp add: pagemap_get_entry_file [OF law] Let_def len at le_word_bytes decode_encode)
  next
    case False
    then show ?thesis by (simp add: pagemap_get_entry_file [OF law] Let_def len)
  qed
qed

text \<open>A page map read three bytes at a time.\<close>

definition three_at_a_time :: "c_char list \<Rightarrow> pread_fn" where
  "three_at_a_time file off n = Some (take (min n 3) (drop off file))"

lemma three_at_a_time_law: "pread_of file (three_at_a_time file)"
  unfolding pread_of_def three_at_a_time_def by (intro allI exI [of _ "min _ 3"]) auto

definition sample_entries :: "PagemapEntry list" where
  "sample_entries =
    [\<lparr>pfn = 7, soft_dirty = False, file_page = True, swapped = False, present = True\<rparr>,
     \<lparr>pfn = 0x12345, soft_dirty = True, file_page = False, swapped = False, present = True\<rparr>]"

lemma sample_entries_small: "list_all (\<lambda>e. pfn e < 2 ^ 55) sample_entries"
  by (simp add: sample_entries_def)

lemma sample_page: "unat (0x1ABC :: u64) div PAGE_SIZE = 1" "unat (0x1ABC :: u64) mod PAGE_SIZE = 0xABC"
  by (simp_all add: PAGE_SIZE_def)

text \<open>
  \<open>pagemap_get_entry\<close> reads the 8-byte entry of the page of an address through any
  pattern of short reads and decodes exactly the fields that the kernel encoded; an entry
  past the end of the page map is reported as a failure.
\<close>

lemma pagemap_entry_roundtrip:
  assumes law: "pread_of (concat (map (\<lambda>e. le_bytes (encode_entry e)) es)) pread"
    and small: "list_all (\<lambda>e. pfn e < 2 ^ 55) es"
  shows "pagemap_get_entry pread vaddr =
    (if unat vaddr div PAGE_SIZE < length es then Some (es ! (unat vaddr div PAGE_SIZE)) else None)"
  using law small by (rule pagemap_entries)

lemma pagemap_entry_roundtrip_witness:
  "pagemap_get_entry (three_at_a_time (concat (map (\<lambda>e. le_bytes (encode_entry e)) sample_entries))) 0x1ABC
     = Some \<lparr>pfn = 0x12345, soft_dirty = True, file_page = False, swapped = False, present = True\<rparr>"
  using pagemap_entry_roundtrip [OF three_at_a_time_law sample_entries_small, of "0x1ABC"]
  unfolding sample_page by (simp add: sample_entries_def)

text \<open>
  A translated address keeps its offset in the page and lies in the frame of the entry;
  the descriptor is closed on success and left open when the entry cannot be read.
\<close>

lemma virt_to_phys_user_page:
  assumes "pagemap_get_entry pread vaddr = Some e" "pfn e < 2 ^ 52"
  shows "\<exists>p. virt_to_phys_user (Some pread) vaddr = (Some p, 0)
    \<and> unat p div PAGE_SIZE = unat (pfn e) \<and> unat p mod PAGE_SIZE = unat vaddr mod PAGE_SIZE
    \<and> virt_to_phys_user (Some (\<lambda>off n. None)) vaddr = (None, 1)"
proof -
  have f: "unat (pfn e) < 2 ^ 52" using assms(2) by (simp add: word_less_nat_alt)
  let ?o = "vaddr mod of_nat PAGE_SIZE"
  have o: "unat ?o = unat vaddr mod PAGE_SIZE" by (simp add: unat_mod PAGE_SIZE_def)
  then have "unat ?o < PAGE_SIZE" by (simp add: PAGE_SIZE_def)
  with f have "unat (pfn e * of_nat PAGE_SIZE + ?o) = unat (pfn e) * PAGE_SIZE + unat ?o"
    by (simp add: unat_word_ariths PAGE_SIZE_def)
  moreover have "pagemap_get_entry (\<lambda>off n. None) vaddr = None"
    by (simp add: pagemap_get_entry_def entry_loop.simps)
  ultimately show ?thesis
    using assms(1) o \<open>unat ?o < PAGE_SIZE\<close> by (simp add: virt_to_phys_user_def)
qed

lemma virt_to_phys_user_page_witness:
  "\<exists>p. virt_to_phys_user (Some (three_at_a_time (concat (map (\<lambda>e. le_bytes (encode_entry e)) sample_entries)))) 0x1ABC = (Some p, 0)
    \<and> unat p div PAGE_SIZE = 0x12345 \<and> unat p mod PAGE_SIZE = 0xABC"
proof -
  let ?pread = "three_at_a_time (concat (map (\<lambda>e. le_bytes (encode_entry e)) sample_entries))"
  have e: "pagemap_get_entry ?pread 0x1ABC
      = Some \<lparr>pfn = 0x12345, soft_dirty = True, file_page = False, swapped = False, present = True\<rparr>"
    using pagemap_entries [OF three_at_a_time_law sample_entries_small, of "0x1ABC"]
    unfolding sample_page by (simp add: sample_entries_def)
  show ?thesis
    using virt_to_phys_user_page [OF e] unfolding sample_page by auto
qed

text \<open>
  (C29) If every \<open>read\<close> of the maps file delivers whole lines (as the kernel's sequential
  files do for a buffer of two pages), the page map printer prints, whatever the buffer held
  before, for every region in order the number of its pages and one row per page; it runs
  past the array \<open>buf\<close> exactly if there are more than 1000 regions.
\<close>

theorem fprintf_pagemap_info_prints:
  assumes "length garbage = BUFSIZ"
    and "list_all (\<lambda>vs. vs \<noteq> [] \<and> list_all vma_ok vs \<and> length (block_of vs) \<le> BUFSIZ) vss"
  shows "fprintf_pagemap_info (Some (map block_of vss)) (Some pread) garbage =
    (if length (concat vss) \<le> 1000
     then Some (0, pm_head @ concat (map (vma_out pread) (concat vss))) else None)"
proof -
  let ?s = "\<lparr>pm_buffer = garbage, pm_buf = [], pm_out = pm_head\<rparr>"
  have "map_option pm_out (pm_blocks pread (map block_of vss) ?s)
      = map_option pm_out (pm_printed pread (concat vss) ?s)"
    using assms by (intro pm_blocks_lines) simp_all
  moreover have "map_option (\<lambda>s. (0 :: int, pm_out s)) m = map_option (Pair 0) (map_option pm_out m)" for m :: "pm_state option"
    by (cases m) simp_all
  ultimately have "fprintf_pagemap_info (Some (map block_of vss)) (Some pread) garbage
      = map_option (Pair 0) (map_option pm_out (pm_printed pread (concat vss) ?s))"
    by (simp only: fprintf_pagemap_info_def prod.case option.case)
  then show ?thesis
    by (simp add: pm_printed_def)
qed

definition sample_vma :: vma where
  "sample_vma = \<lparr>vm_start = 0x1000, vm_end = 0x3000,
     vm_fields = [''r-xp'', ''00000000'', ''08:01'', ''42''], vm_gap = 3, vm_name = ''/bin/cat''\<rparr>"

lemma sample_vma_line:
  "vma_line sample_vma = ''00001000-00003000 r-xp 00000000 08:01 42    /bin/cat''"
proof -
  have "digs 16 0x1000 = [1, 0, 0, 0]" "digs 16 0x3000 = [3, 0, 0, 0]"
    by (simp_all add: digs.simps [of 16 "numeral _"] digs.simps [of 16 "Suc 0"])
  moreover have "replicate 4 c = [c, c, c, c]" for c :: char by (simp add: eval_nat_numeral)
  ultimately have "maps_addr 0x1000 = ''00001000''" "maps_addr 0x3000 = ''00003000''"
    by (simp_all add: maps_addr_def pad_def show_base_def digit_char_values digit_char_0)
  then show ?thesis by (simp add: sample_vma_def vma_line_def numeral_3_eq_3)
qed

lemma sample_vma_ok: "vma_ok sample_vma"
  by (simp add: sample_vma_def vma_ok_def PAGE_SIZE_def)

theorem fprintf_pagemap_info_prints_witness:
  "fprintf_pagemap_info (Some [block_of [sample_vma, sample_vma], block_of [sample_vma]])
     (Some (\<lambda>off n. None)) (replicate 8192 BLANK)
   = Some (0, pm_head @ concat (replicate 3 (''Pages: 2'' @ [NL])))"
proof -
  have ok: "list_all (\<lambda>vs. vs \<noteq> [] \<and> list_all vma_ok vs \<and> length (block_of vs) \<le> BUFSIZ)
      [[sample_vma, sample_vma], [sample_vma]]"
    by (simp add: sample_vma_ok block_of_def sample_vma_line BUFSIZ_def)
  have out: "vma_out (\<lambda>off n. None) sample_vma = ''Pages: 2'' @ [NL]"
    by (simp add: vma_out_def sample_vma_def vma_pages_def pages_line_def region_rows_def page_count_def
        page_out_def pagemap_get_entry_def entry_loop.simps PAGE_SIZE_def show_base_def
        digs.simps [of 10 2] digit_char_values)
  show ?thesis
    using fprintf_pagemap_info_prints [OF _ ok, of "replicate 8192 BLANK" "\<lambda>off n. None"]
    by (simp add: BUFSIZ_def out numeral_3_eq_3)
qed
end
