(* ===== verification/Proc_Report.thy ===== *)
theory Proc_Report
  imports Pagemap
begin

text \<open>
  The process reporter of \<open>lab_proc/main.c\<close> around the page map printer: the section
  writers (\<open>read_environ\<close>, \<open>read_file\<close>, \<open>read_maps\<close>, \<open>read_symlink\<close>, \<open>list_dir\<close>,
  \<open>read_stat\<close>, \<open>read_pagemap\<close>), the memory dump \<open>print_mem\<close>, and \<open>main\<close>, which calls
  them in order.  Every writer maps what the files of \<open>/proc\<close> hold (\<open>None\<close>: it cannot be
  opened) to the text it appends to its output.
\<close>

section \<open>Copying sections\<close>

definition err_opening :: "string \<Rightarrow> string" where
  "err_opening path = ''Error opening '' @ path @ [NL]"

definition err_reading :: "string \<Rightarrow> string" where
  "err_reading path = ''Error reading '' @ path @ [NL]"

definition section_head :: "string \<Rightarrow> string" where
  "section_head desc = [NL] @ ''['' @ desc @ '']'' @ [NL]"

text \<open>The \<open>fread\<close> loop with its buffer of 4096 bytes.\<close>

definition nul_to_nl :: "char \<Rightarrow> char" where
  "nul_to_nl c = (if c = NUL then NL else c)"

function copy_loop :: "string \<Rightarrow> string" where
  "copy_loop s = (if s = [] then [] else map nul_to_nl (take 4096 s) @ copy_loop (drop 4096 s))"
  by pat_completeness auto
termination by (relation "measure length") auto

declare copy_loop.simps [simp del]

definition read_environ :: "string option \<Rightarrow> string \<Rightarrow> string \<Rightarrow> string" where
  "read_environ file path desc = (case file of None \<Rightarrow> err_opening path
     | Some s \<Rightarrow> section_head desc @ copy_loop s @ [NL])"

definition read_file :: "string option \<Rightarrow> string \<Rightarrow> string \<Rightarrow> string" where
  "read_file file path desc = (case file of None \<Rightarrow> err_opening path
     | Some s \<Rightarrow> section_head desc @ copy_loop s @ [NL])"

definition read_symlink :: "string option \<Rightarrow> string \<Rightarrow> string \<Rightarrow> string" where
  "read_symlink link path desc = (case link of None \<Rightarrow> err_reading path
     | Some target \<Rightarrow> [NL] @ ''['' @ desc @ '']: '' @ upto_nul (take 4095 target) @ [NL])"

definition list_dir :: "string list option \<Rightarrow> string \<Rightarrow> string \<Rightarrow> string" where
  "list_dir dir path desc = [NL] @ ''['' @ desc @ '']:'' @ [NL] @ (case dir of None \<Rightarrow> err_opening path
     | Some names \<Rightarrow> concat (map (\<lambda>d_name. d_name @ [NL]) names))"

text \<open>
  \<open>read_pagemap\<close>: at most five reads of 4096 bytes, each printed as 64-bit words.  The list
  holds what the calls return: \<open>None\<close> for -1.
\<close>

definition print_words :: "c_char list \<Rightarrow> string" where
  "print_words bs = concat (map (\<lambda>k. pad CHR ''0'' 16 (show_hex (unat (le_word (take 8 (drop (8 * k) bs))))) @ [NL])
     [0..<length bs div 8])"

fun pagemap_reads :: "nat \<Rightarrow> c_char list option list \<Rightarrow> string \<Rightarrow> string" where
  "pagemap_reads i [] path = []"
| "pagemap_reads i (r # rs) path =
     (if i < 5 then case r of
        None \<Rightarrow> err_reading path
      | Some bs \<Rightarrow> if bs = [] then [] else print_words bs @ pagemap_reads (i + 1) rs path
      else [])"

definition read_pagemap :: "c_char list option list option \<Rightarrow> string \<Rightarrow> string \<Rightarrow> string" where
  "read_pagemap reads path desc = (case reads of None \<Rightarrow> err_opening path
     | Some rs \<Rightarrow> section_head desc @ pagemap_reads 0 rs path)"

section \<open>The memory map with totals\<close>

text \<open>
  \<open>%p\<close> of \<open>sscanf\<close> on the addresses of a maps file: hexadecimal digits with an optional
  \<open>0x\<close>.
\<close>

definition scan_ptr :: "string \<Rightarrow> (u64 \<times> string) option" where
  "scan_ptr s = (let s = skip_ws s;
       s = (if take 2 s = ''0x'' then drop 2 s else s);
       (ds, r) = take_digits hex_digit s;
       n = fold_digits 16 ds in
     if ds = [] then None else Some (if int n < 2 ^ 64 then of_nat n else - 1, r))"

text \<open>\<open>sscanf(buffer, "%p-%p", &st, &end)\<close>: what does not match keeps its old value.\<close>

definition scan_range :: "string \<Rightarrow> u64 \<times> u64 \<Rightarrow> u64 \<times> u64" where
  "scan_range s se = (case scan_ptr s of
     None \<Rightarrow> se
   | Some (a, r) \<Rightarrow> (case r of
       [] \<Rightarrow> (a, snd se)
     | c # r' \<Rightarrow> if c = CHR ''-'' then (case scan_ptr r' of None \<Rightarrow> (a, snd se) | Some (b, _) \<Rightarrow> (a, b))
         else (a, snd se)))"

definition c_div :: "int \<Rightarrow> int \<Rightarrow> int" where
  "c_div a b = (if a < 0 then - ((- a) div b) else a div b)"

record maps_acc =
  ma_range :: "u64 \<times> u64"
  ma_sum :: u64
  ma_pages :: u64
  ma_out :: string

definition maps_line_step :: "string \<Rightarrow> maps_acc \<Rightarrow> maps_acc" where
  "maps_line_step buffer m = (let (st, en) = scan_range buffer (ma_range m);
       diff = sint (en - st); pages = c_div diff (int PAGE_SIZE) in
     m\<lparr>ma_range := (st, en),
       ma_out := ma_out m @ pad BLANK 5 (show_int pages) @ ''  '' @ buffer,
       ma_sum := ma_sum m + of_int diff, ma_pages := ma_pages m + of_int pages\<rparr>)"

definition maps_totals :: "maps_acc \<Rightarrow> string" where
  "maps_totals m = ''Total pages: '' @ show_int (sint (ma_pages m)) @ [NL]
     @ ''Total vsize: '' @ show_int (sint (ma_sum m)) @ [NL]"

text \<open>\<open>st\<close> and \<open>end\<close> start uninitialised: their first values are a parameter.\<close>

definition read_maps :: "u64 \<times> u64 \<Rightarrow> string option \<Rightarrow> string \<Rightarrow> string \<Rightarrow> string" where
  "read_maps uninit file path desc = (case file of None \<Rightarrow> err_opening path
     | Some s \<Rightarrow> (let m = fold maps_line_step (fgets_all 4096 s)
           \<lparr>ma_range = uninit, ma_sum = 0, ma_pages = 0, ma_out = section_head desc\<rparr>
         in ma_out m @ maps_totals m))"

section \<open>The fields of the stat file\<close>

text \<open>The conversions of the \<open>fscanf\<close> format and the values they store.\<close>

datatype conv = Ld | Lu | Dd | Du | Str nat | Chr

datatype field = FInt int | FStr string | FChr char

definition scan_int :: "string \<Rightarrow> (int \<times> string) option" where
  "scan_int s = (let s = skip_ws s;
       neg = (take 1 s = ''-'');
       s = (if neg \<or> take 1 s = ''+'' then drop 1 s else s);
       (ds, r) = take_digits dec_digit s;
       n = int (fold_digits 10 ds) in
     if ds = [] then None else Some (if neg then - n else n, r))"

definition clamp_long :: "int \<Rightarrow> int" where
  "clamp_long k = max (- (2 ^ 63)) (min (2 ^ 63 - 1) k)"

definition clamp_ulong :: "int \<Rightarrow> int" where
  "clamp_ulong k = (if 2 ^ 64 \<le> \<bar>k\<bar> then 2 ^ 64 - 1 else k mod 2 ^ 64)"

definition as_int :: "int \<Rightarrow> int" where
  "as_int k = (k + 2 ^ 31) mod 2 ^ 32 - 2 ^ 31"

fun scan_conv :: "conv \<Rightarrow> string \<Rightarrow> (field \<times> string) option" where
  "scan_conv Ld s = map_option (\<lambda>(k, r). (FInt (clamp_long k), r)) (scan_int s)"
| "scan_conv Lu s = map_option (\<lambda>(k, r). (FInt (clamp_ulong k), r)) (scan_int s)"
| "scan_conv Dd s = map_option (\<lambda>(k, r). (FInt (as_int (clamp_long k)), r)) (scan_int s)"
| "scan_conv Du s = map_option (\<lambda>(k, r). (FInt (clamp_ulong k mod 2 ^ 32), r)) (scan_int s)"
| "scan_conv (Str n) s = (let s = skip_ws s; w = take n (takeWhile (\<lambda>c. \<not> is_space c) s) in
     if w = [] then None else Some (FStr w, drop (length w) s))"
| "scan_conv Chr s = (case skip_ws s of [] \<Rightarrow> None | c # r \<Rightarrow> Some (FChr c, r))"

text \<open>\<open>fscanf\<close> stops at the first conversion that fails; the rest stays unassigned.\<close>

fun fscanf :: "conv list \<Rightarrow> string \<Rightarrow> field list" where
  "fscanf [] s = []"
| "fscanf (c # cs) s = (case scan_conv c s of None \<Rightarrow> [] | Some (v, r) \<Rightarrow> v # fscanf cs r)"

definition stat_format :: "conv list" where
  "stat_format = [Ld, Str 255, Chr] @ replicate 6 Ld @ replicate 8 Lu @ replicate 13 Ld @ replicate 7 Lu
     @ replicate 3 Dd @ [Du] @ replicate 12 Lu @ [Dd]"

definition stat_args :: nat where "stat_args = 52"

text \<open>How a line prints its variable; the number is the position of the variable's \<open>&\<close> argument.\<close>

datatype print_conv = PLd | PLu | PD | PS | PC | PLuLx

fun print_field :: "print_conv \<Rightarrow> field \<Rightarrow> string" where
  "print_field PLd (FInt k) = show_int k"
| "print_field PLu (FInt k) = show_int (k mod 2 ^ 64)"
| "print_field PD (FInt k) = show_int (as_int k)"
| "print_field PLuLx (FInt k) = show_int (k mod 2 ^ 64) @ '' ('' @ show_hex (nat (k mod 2 ^ 64)) @ '')''"
| "print_field PS (FStr s) = s"
| "print_field PC (FChr c) = [c]"
| "print_field _ _ = []"

definition stat_lines :: "(string \<times> print_conv \<times> nat) list" where
  "stat_lines =
    [(''1. PID: '', PLd, 1), (''2. Command: '', PS, 2), (''3. State: '', PC, 3), (''4. PPID: '', PLd, 4),
     (''5. PGRP: '', PLd, 5), (''6. Session: '', PLd, 6), (''7. TTY_NR: '', PLd, 7), (''8. Tpgid: '', PLd, 8),
     (''9. Flags: '', PLd, 9), (''10. Minflt: '', PLu, 10), (''11. Cminflt: '', PLu, 11),
     (''12. Majflt: '', PLu, 12), (''13. Cmajflt: '', PLu, 13), (''14. Utime: '', PLu, 14),
     (''15. Stime: '', PLu, 15), (''16. Cutime: '', PLu, 16), (''17. Cstime: '', PLu, 17),
     (''18. Priority: '', PLd, 18), (''19. Nice: '', PLd, 19), (''20. Num Threads: '', PLd, 20),
     (''21. Starttime: '', PLd, 22), (''22. Vsize: '', PLd, 23), (''23. Rss: '', PLd, 24),
     (''24. Rsslim: '', PLd, 25), (''25. Startcode: '', PLuLx, 26), (''26. Endcode: '', PLuLx, 27),
     (''27. Startstack: '', PLu, 28), (''28. Kstkesp: '', PLu, 29), (''29. Kstkeip: '', PLu, 30),
     (''30. Signal: '', PLu, 31), (''31. Blocked: '', PLu, 32), (''32. Sigignore: '', PLu, 33),
     (''33. Sigcatch: '', PLu, 34), (''34. Wchan: '', PLu, 35), (''35. Nswap: '', PLu, 36),
     (''36. Cnswap: '', PLu, 37), (''37. Exit_signal: '', PD, 38), (''38. Processor: '', PD, 39),
     (''39. Rt_priority: '', PD, 40), (''40. Policy: '', PD, 41), (''41. Delayacct_blkio_ticks: '', PLu, 42),
     (''42. Guest_time: '', PLu, 43), (''43. Cguest_time: '', PLu, 44), (''44. Start_data: '', PLu, 45),
     (''45. End_data: '', PLu, 46), (''46. Start_brk: '', PLu, 47), (''47. Arg_start: '', PLu, 48),
     (''48. Arg_end: '', PLu, 49), (''49. Env_start: '', PLu, 50), (''50. Env_end: '', PLu, 51),
     (''51. Exit_code: '', PD, 52)]"

text \<open>
  Printing a variable that was not assigned, and a conversion beyond the 52 arguments that
  succeeds, are undefined (\<open>None\<close>).
\<close>

definition print_stat :: "field list \<Rightarrow> string option" where
  "print_stat vs = (if length vs = stat_args
     then Some ([NL] @ ''[Process Stat]'' @ [NL]
       @ concat (map (\<lambda>(label, p, k). label @ print_field p (vs ! (k - 1)) @ [NL]) stat_lines))
     else None)"

definition read_stat :: "string option \<Rightarrow> string \<Rightarrow> string option" where
  "read_stat file path = (case file of None \<Rightarrow> Some (err_opening path)
     | Some s \<Rightarrow> print_stat (fscanf stat_format s))"

section \<open>The memory dump\<close>

definition dump_byte :: "nat \<Rightarrow> c_char \<Rightarrow> string" where
  "dump_byte i b = pad CHR ''0'' 2 (show_hex (unat b)) @ [BLANK] @ (if (i + 1) mod 16 = 0 then [NL] else [])"

definition dump_block :: "c_char list \<Rightarrow> string" where
  "dump_block bs = concat (map (\<lambda>i. dump_byte i (bs ! i)) [0..<length bs])"

text \<open>The loop of \<open>read\<close>s after the \<open>lseek\<close>; the file position is explicit.\<close>

function dump_region :: "pread_fn \<Rightarrow> nat \<Rightarrow> nat \<Rightarrow> string" where
  "dump_region read_at pos sz = (if sz = 0 then []
     else case read_at pos (if BUFSIZ < sz then BUFSIZ else sz) of
       None \<Rightarrow> []
     | Some [] \<Rightarrow> []
     | Some (b # bs) \<Rightarrow> dump_block (b # bs) @ dump_region read_at (pos + length (b # bs)) (sz - length (b # bs)))"
  by pat_completeness auto
termination by (relation "measure (\<lambda>(r, pos, sz). sz)") auto

declare dump_region.simps [simp del]

text \<open>\<open>sscanf(line, "%lx-%lx %4s", ...)\<close> with all three conversions done.\<close>

definition scan_mem_line :: "string \<Rightarrow> (u64 \<times> u64 \<times> string) option" where
  "scan_mem_line line = (case scan_ptr line of
     Some (a, c # r) \<Rightarrow> if c = CHR ''-'' then (case scan_ptr r of
         Some (b, r') \<Rightarrow> (case scan_conv (Str 4) r' of Some (FStr perm, _) \<Rightarrow> Some (a, b, perm) | _ \<Rightarrow> None)
       | None \<Rightarrow> None) else None
   | _ \<Rightarrow> None)"

fun has_sub :: "string \<Rightarrow> string \<Rightarrow> bool" where
  "has_sub pat [] = (pat = [])"
| "has_sub pat (c # s) = (take (length pat) (c # s) = pat \<or> has_sub pat s)"

definition dump_line :: "pread_fn \<Rightarrow> nat \<Rightarrow> string \<Rightarrow> string" where
  "dump_line mem i line = (case scan_mem_line line of
     None \<Rightarrow> []
   | Some (start, end', perm) \<Rightarrow>
       if \<not> (has_sub ''[stack]'' line \<or> i = 2 \<or> i = 3) then []
       else if hd perm \<noteq> CHR ''r'' then []
       else dump_region mem (unat start) (unat (end' - start)) @ [NL])"

definition print_mem :: "pread_fn option \<Rightarrow> string option \<Rightarrow> bool \<Rightarrow> string option" where
  "print_mem mem maps out_opens = (case (mem, maps, out_opens) of
     (Some m, Some s, True) \<Rightarrow>
       Some (concat (map (\<lambda>(k, line). dump_line m k line) (enumerate 1 (fgets_all 256 s))))
   | _ \<Rightarrow> None)"

section \<open>The main program\<close>

text \<open>What the program finds under \<open>/proc/PID\<close>, and whether its output files can be created.\<close>

record proc_dir =
  pd_exists :: bool
  pd_environ :: "string option"
  pd_stat :: "string option"
  pd_cmdline :: "string option"
  pd_fd :: "string list option"
  pd_cwd :: "string option"
  pd_exe :: "string option"
  pd_root :: "string option"
  pd_io :: "string option"
  pd_comm :: "string option"
  pd_task :: "string list option"
  pd_maps :: "string option"
  pd_map_blocks :: "string list option"
  pd_pagemap :: "pread_fn option"
  pd_mem :: "pread_fn option"
  pd_out_opens :: bool
  pd_pagemap_out_opens :: bool
  pd_mem_out_opens :: bool

record proc_result =
  pr_status :: int
  pr_output :: string
  pr_pagemap :: string
  pr_mem :: "string option"
  pr_system :: "string list"

definition proc_path :: "string \<Rightarrow> string \<Rightarrow> string" where
  "proc_path pid name = take 4095 (''/proc/'' @ pid @ ''/'' @ name)"

definition quoted :: "string \<Rightarrow> string" where
  "quoted s = [CHR 0x27] @ s @ [CHR 0x27]"

definition pmap_cmd :: "string \<Rightarrow> string \<Rightarrow> string" where
  "pmap_cmd pid name = ''(echo '' @ quoted ''Address           Pages     RSS   Dirty Mode  Mapping'' @ ''; ''
     @ ''sudo pmap '' @ pid @ '' -x | tail -n +3 | head -n -1 | ''
     @ ''awk '' @ quoted ''{ if ($2 ~ /^[0-9]+$/) { $2 = $2/4; $3 = $3/4; } print }'' @ ''; ''
     @ ''sudo pmap '' @ pid @ '' -x | tail -1) >> pmap_'' @ name"

text \<open>The sections of the report, in the order of the calls.\<close>

definition report_sections :: "u64 \<times> u64 \<Rightarrow> string \<Rightarrow> proc_dir \<Rightarrow> string option" where
  "report_sections uninit pid d = do {
     let e = read_environ (pd_environ d) (proc_path pid ''environ'') ''Process Environment Variables'';
     s \<leftarrow> read_stat (pd_stat d) (proc_path pid ''stat'');
     Some (e @ s
       @ read_file (pd_cmdline d) (proc_path pid ''cmdline'') ''Command Line Arguments''
       @ list_dir (pd_fd d) (proc_path pid ''fd'') ''File Descriptors''
       @ read_symlink (pd_cwd d) (proc_path pid ''cwd'') ''Current Working Directory''
       @ read_symlink (pd_exe d) (proc_path pid ''exe'') ''Executable Path''
       @ read_symlink (pd_root d) (proc_path pid ''root'') ''Root Directory''
       @ read_file (pd_io d) (proc_path pid ''io'') ''I/O Statistics''
       @ read_file (pd_comm d) (proc_path pid ''comm'') ''Process Name''
       @ list_dir (pd_task d) (proc_path pid ''task'') ''Task Subdirectory''
       @ read_maps uninit (pd_maps d) (proc_path pid ''maps'') ''Memory Map'')
   }"

text \<open>\<open>strcat\<close> into an array of \<open>n\<close> bytes and \<open>sprintf\<close> into one: defined only if the text fits.\<close>

definition fits :: "nat \<Rightarrow> string \<Rightarrow> bool" where
  "fits n s \<longleftrightarrow> length s < n"

definition proc_main :: "u64 \<times> u64 \<Rightarrow> string \<Rightarrow> string list \<Rightarrow> proc_dir \<Rightarrow> proc_result option" where
  "proc_main uninit garbage argv d = (case argv of
     [prog, pid, name] \<Rightarrow>
       if \<not> pd_out_opens d then Some \<lparr>pr_status = EXIT_FAILURE, pr_output = [], pr_pagemap = [], pr_mem = None, pr_system = []\<rparr>
       else if \<not> pd_exists d then Some \<lparr>pr_status = EXIT_FAILURE, pr_output = [], pr_pagemap = [], pr_mem = None, pr_system = []\<rparr>
       else do {
         report \<leftarrow> report_sections uninit pid d;
         if \<not> fits 40 (''pagemap_'' @ name) then None else do {
           (st, pm) \<leftarrow> fprintf_pagemap_info (pd_map_blocks d) (pd_pagemap d) garbage;
           if st = 0 \<and> \<not> pd_pagemap_out_opens d then None
           else if \<not> fits 40 (''mem_'' @ name) then None
           else if \<not> fits 300 (pmap_cmd pid name) then None
           else Some \<lparr>pr_status = 0, pr_output = report @ [NL] @ ''[Process Memory Pages]'' @ [NL],
             pr_pagemap = pm, pr_mem = print_mem (pd_mem d) (pd_maps d) (pd_mem_out_opens d),
             pr_system = [pmap_cmd pid name]\<rparr>
         }
       }
   | _ \<Rightarrow> Some \<lparr>pr_status = EXIT_FAILURE, pr_output = [], pr_pagemap = [], pr_mem = None, pr_system = []\<rparr>)"

section \<open>Copies do not depend on the buffer\<close>

lemma copy_loop_map: "copy_loop s = map nul_to_nl s"
proof (induction s rule: copy_loop.induct)
  case (1 s)
  show ?case
  proof (cases "s = []")
    case False
    then have "copy_loop s = map nul_to_nl (take 4096 s) @ map nul_to_nl (drop 4096 s)"
      using 1 by (simp add: copy_loop.simps [of s])
    then show ?thesis by (simp flip: map_append)
  qed (simp add: copy_loop.simps)
qed

section \<open>Totals of the memory map\<close>

lemma maps_addr_scan:
  assumes n: "n < 2 ^ 64" and c: "hex_digit c = None" "c \<noteq> CHR ''x''"
  shows "scan_ptr (maps_addr n @ c # r) = Some (of_nat n, c # r)"
proof -
  let ?ds = "replicate (8 - length (digs 16 n)) 0 @ digs 16 n"
  have ds: "maps_addr n = map digit_char ?ds"
    by (simp add: maps_addr_def pad_def show_base_def digit_char_0)
  have lt: "d < 16" if "d \<in> set ?ds" for d using that digs_less [of 16 d n] by auto
  have ne: "?ds \<noteq> []" by simp
  have val: "fold_digits 16 ?ds = n"
    using fold_digs [of 16 n] by (simp add: fold_digits_def foldl_zeros del: foldl_append)
  obtain e es where e: "?ds = e # es" using ne by (cases ?ds) auto
  then have "\<not> is_space (digit_char e)" using lt by (simp add: not_space_digit)
  then have ws: "skip_ws (map digit_char ?ds @ c # r) = map digit_char ?ds @ c # r"
    unfolding e by (simp add: skip_ws_def)
  have nx: "digit_char d \<noteq> CHR ''x''" if "d < 16" for d
  proof
    assume "digit_char d = CHR ''x''"
    then have "hex_digit (CHR ''x'') = Some d" using hex_digit_char [OF that] by simp
    then show False by (simp add: hex_digit_def is_dec_def is_af_def)
  qed
  have "take 2 (map digit_char ?ds @ c # r) \<noteq> ''0x''"
    using lt nx c unfolding e by (cases es) auto
  moreover have "take_digits hex_digit (map digit_char ?ds @ c # r) = (?ds, c # r)"
    using lt c(1) by (intro take_digits_at) (auto simp: hex_digit_char)
  ultimately show ?thesis
    unfolding ds scan_ptr_def Let_def ws using ne val n by simp
qed

lemma scan_range_line:
  assumes "vma_ok v"
  shows "scan_range (vma_line v @ r) se = (of_nat (vm_start v), of_nat (vm_end v))"
proof -
  have b: "vm_start v < 2 ^ 64" "vm_end v < 2 ^ 64" using assms by (auto simp: vma_ok_def PAGE_SIZE_def)
  obtain f fs where f: "vm_fields v = f # fs" using assms by (cases "vm_fields v") (auto simp: vma_ok_def)
  have d: "hex_digit (CHR ''-'') = None" "hex_digit BLANK = None"
    by (simp_all add: hex_digit_def is_dec_def is_af_def)
  show ?thesis
    unfolding scan_range_def vma_line_def f
    by (simp add: maps_addr_scan [OF b(1) d(1)] maps_addr_scan [OF b(2) d(2)])
qed

definition vma_size :: "vma \<Rightarrow> nat" where
  "vma_size v = vm_end v - vm_start v"

definition maps_row :: "vma \<Rightarrow> string" where
  "maps_row v = pad BLANK 5 (show_dec (vma_size v div PAGE_SIZE)) @ ''  '' @ vma_line v @ [NL]"

lemma maps_line_step_vma:
  assumes "vma_ok v" "vma_size v < 2 ^ 63"
  shows "maps_line_step (vma_line v @ [NL]) m = m\<lparr>ma_range := (of_nat (vm_start v), of_nat (vm_end v)),
    ma_out := ma_out m @ maps_row v, ma_sum := ma_sum m + of_nat (vma_size v),
    ma_pages := ma_pages m + of_nat (vma_size v div PAGE_SIZE)\<rparr>"
proof -
  have "of_nat (vm_end v) - of_nat (vm_start v) = (of_nat (vma_size v) :: u64)"
    using assms(1) by (simp add: vma_ok_def vma_size_def)
  moreover have "sint (of_nat (vma_size v) :: u64) = int (vma_size v)"
    using assms(2) by (simp add: signed_of_nat signed_take_bit_int_eq_self)
  ultimately show ?thesis
    by (simp add: maps_line_step_def scan_range_line [OF assms(1)] Let_def c_div_def maps_row_def show_int_def
        zdiv_int [symmetric])
qed

lemma fold_maps_lines:
  "list_all (\<lambda>v. vma_ok v \<and> vma_size v < 2 ^ 63) vs \<Longrightarrow>
   \<exists>rg. fold maps_line_step (map (\<lambda>v. vma_line v @ [NL]) vs) m = m\<lparr>ma_range := rg,
     ma_out := ma_out m @ concat (map maps_row vs), ma_sum := ma_sum m + of_nat (sum_list (map vma_size vs)),
     ma_pages := ma_pages m + of_nat (sum_list (map (\<lambda>v. vma_size v div PAGE_SIZE) vs))\<rparr>"
proof (induction vs arbitrary: m)
  case Nil
  show ?case by (rule exI [of _ "ma_range m"]) simp
next
  case (Cons v vs)
  then have "vma_ok v" "vma_size v < 2 ^ 63" "list_all (\<lambda>v. vma_ok v \<and> vma_size v < 2 ^ 63) vs" by simp_all
  from Cons.IH [OF this(3), of "maps_line_step (vma_line v @ [NL]) m"]
  obtain rg where "fold maps_line_step (map (\<lambda>v. vma_line v @ [NL]) (v # vs)) m =
    maps_line_step (vma_line v @ [NL]) m \<lparr>ma_range := rg,
     ma_out := ma_out (maps_line_step (vma_line v @ [NL]) m) @ concat (map maps_row vs),
     ma_sum := ma_sum (maps_line_step (vma_line v @ [NL]) m) + of_nat (sum_list (map vma_size vs)),
     ma_pages := ma_pages (maps_line_step (vma_line v @ [NL]) m) + of_nat (sum_list (map (\<lambda>v. vma_size v div PAGE_SIZE) vs))\<rparr>"
    by auto
  then show ?case
    using maps_line_step_vma [OF \<open>vma_ok v\<close> \<open>vma_size v < 2 ^ 63\<close>, of m]
    by (intro exI [of _ rg]) (simp add: add.assoc)
qed

lemma sint_of_small: "n < 2 ^ 63 \<Longrightarrow> sint (of_nat n :: u64) = int n"
  by (simp add: signed_of_nat signed_take_bit_int_eq_self)

text \<open>
  (C30) For a maps file whose lines fit the buffer, the report shows every line behind its
  number of pages, and the totals are the sums over all regions, whatever the uninitialised
  pointers held.
\<close>

theorem read_maps_totals:
  assumes lines: "list_all (\<lambda>v. vma_ok v \<and> length (vma_line v) < 4095) vs"
    and sum: "sum_list (map vma_size vs) < 2 ^ 63"
  shows "read_maps uninit (Some (block_of vs)) path desc = section_head desc @ concat (map maps_row vs)
    @ ''Total pages: '' @ show_dec (sum_list (map (\<lambda>v. vma_size v div PAGE_SIZE) vs)) @ [NL]
    @ ''Total vsize: '' @ show_dec (sum_list (map vma_size vs)) @ [NL]"
proof -
  have small: "vma_size v < 2 ^ 63" if "v \<in> set vs" for v
    using sum member_le_sum_list [of "vma_size v" "map vma_size vs"] that by simp
  have pages: "sum_list (map (\<lambda>v. vma_size v div PAGE_SIZE) vs) < 2 ^ 63"
    using sum sum_list_mono [of vs "\<lambda>v. vma_size v div PAGE_SIZE" vma_size] by simp
  have "fgets_all 4096 (block_of vs) = map (\<lambda>v. vma_line v @ [NL]) vs"
    using fgets_all_lines [of 4096 "map vma_line vs"] lines
    by (simp add: block_of_def comp_def list_all_iff vma_line_no_nl)
  moreover have "list_all (\<lambda>v. vma_ok v \<and> vma_size v < 2 ^ 63) vs"
    using lines small by (simp add: list_all_iff)
  from fold_maps_lines [OF this, of "\<lparr>ma_range = uninit, ma_sum = 0, ma_pages = 0, ma_out = section_head desc\<rparr>"]
  obtain rg where "fold maps_line_step (map (\<lambda>v. vma_line v @ [NL]) vs)
      \<lparr>ma_range = uninit, ma_sum = 0, ma_pages = 0, ma_out = section_head desc\<rparr>
    = \<lparr>ma_range = rg, ma_sum = of_nat (sum_list (map vma_size vs)),
       ma_pages = of_nat (sum_list (map (\<lambda>v. vma_size v div PAGE_SIZE) vs)),
       ma_out = section_head desc @ concat (map maps_row vs)\<rparr>" by auto
  ultimately show ?thesis
    by (simp only: read_maps_def option.case Let_def maps_totals_def maps_acc.simps
        sint_of_small [OF sum] sint_of_small [OF pages] show_int_def) simp
qed

theorem read_maps_totals_witness:
  "read_maps (7, 3) (Some (block_of [sample_vma, sample_vma])) ''m'' ''d''
   = section_head ''d'' @ maps_row sample_vma @ maps_row sample_vma
     @ ''Total pages: 4'' @ [NL] @ ''Total vsize: 16384'' @ [NL]"
proof -
  have lines: "list_all (\<lambda>v. vma_ok v \<and> length (vma_line v) < 4095) [sample_vma, sample_vma]"
    by (simp add: sample_vma_ok sample_vma_line)
  have sz: "vma_size sample_vma = 8192" by (simp add: vma_size_def sample_vma_def)
  have "show_dec 16384 = ''16384''" "show_dec 4 = ''4''"
    by (simp_all add: show_base_def digs.simps [of 10 "numeral _"] digs.simps [of 10 "Suc 0"] digit_char_values)
  then show ?thesis
    using read_maps_totals [OF lines, of "(7, 3)" "''m''" "''d''"] by (simp add: sz PAGE_SIZE_def)
qed

section \<open>Scanning what the kernel prints\<close>

fun show_field :: "field \<Rightarrow> string" where
  "show_field (FInt k) = show_int k"
| "show_field (FStr s) = s"
| "show_field (FChr c) = [c]"

fun fits_conv :: "conv \<Rightarrow> field \<Rightarrow> bool" where
  "fits_conv Ld (FInt k) = (- (2 ^ 63) \<le> k \<and> k < 2 ^ 63)"
| "fits_conv Lu (FInt k) = (0 \<le> k \<and> k < 2 ^ 64)"
| "fits_conv Dd (FInt k) = (- (2 ^ 31) \<le> k \<and> k < 2 ^ 31)"
| "fits_conv Du (FInt k) = (0 \<le> k \<and> k < 2 ^ 32)"
| "fits_conv (Str n) (FStr s) = (s \<noteq> [] \<and> length s \<le> n \<and> list_all (\<lambda>c. \<not> is_space c) s)"
| "fits_conv Chr (FChr c) = (\<not> is_space c)"
| "fits_conv _ _ = False"

text \<open>
  What is stored of a field: a number outside the range of its conversion is clamped or cut as \<open>fscanf\<close> of the GNU library does.
\<close>

fun readable :: "conv \<Rightarrow> field \<Rightarrow> bool" where
  "readable (Str n) (FStr s) = (s \<noteq> [] \<and> length s \<le> n \<and> list_all (\<lambda>c. \<not> is_space c) s)"
| "readable Chr (FChr c) = (\<not> is_space c)"
| "readable c (FInt k) = (c = Ld \<or> c = Lu \<or> c = Dd \<or> c = Du)"
| "readable _ _ = False"

fun conv_stored :: "conv \<Rightarrow> field \<Rightarrow> field" where
  "conv_stored Ld (FInt k) = FInt (clamp_long k)"
| "conv_stored Lu (FInt k) = FInt (clamp_ulong k)"
| "conv_stored Dd (FInt k) = FInt (as_int (clamp_long k))"
| "conv_stored Du (FInt k) = FInt (clamp_ulong k mod 2 ^ 32)"
| "conv_stored _ v = v"

fun stat_text :: "field list \<Rightarrow> string" where
  "stat_text [] = []"
| "stat_text [v] = show_field v @ [NL]"
| "stat_text (v # w # vs) = show_field v @ BLANK # stat_text (w # vs)"

lemma spaces: "is_space BLANK" "is_space NL"
  by (simp_all add: is_space_def)

lemma dec_digits_scan:
  assumes "dec_digit w = None"
  shows "take_digits dec_digit (show_dec n @ w # r) = (digs 10 n, w # r)"
    and "\<exists>c s. show_dec n = c # s \<and> \<not> is_space c \<and> c \<noteq> CHR ''-'' \<and> c \<noteq> CHR ''+''"
proof -
  have lt: "d < 10" if "d \<in> set (digs 10 n)" for d using that digs_less [of 10 d n] by simp
  show "take_digits dec_digit (show_dec n @ w # r) = (digs 10 n, w # r)"
    unfolding show_base_def using lt assms by (intro take_digits_at) (auto simp: dec_digit_char)
  obtain d ds where d: "digs 10 n = d # ds" by (cases "digs 10 n") auto
  then have "d < 10" using lt by simp
  then have "dec_digit (digit_char d) = Some d" "\<not> is_space (digit_char d)"
    by (simp_all add: dec_digit_char not_space_digit)
  moreover have "dec_digit (CHR ''-'') = None" "dec_digit (CHR ''+'') = None"
    by (simp_all add: dec_digit_def is_dec_def)
  ultimately show "\<exists>c s. show_dec n = c # s \<and> \<not> is_space c \<and> c \<noteq> CHR ''-'' \<and> c \<noteq> CHR ''+''"
    using d by (auto simp: show_base_def)
qed

lemma space_not_digit: "is_space w \<Longrightarrow> dec_digit w = None"
  by (auto simp: is_space_def dec_digit_def is_dec_def)

lemma scan_int_show:
  assumes "is_space w"
  shows "scan_int (show_int k @ w # r) = Some (k, w # r)"
proof (cases "k < 0")
  case True
  have "\<not> is_space (CHR ''-'')" by (simp add: is_space_def)
  then show ?thesis
    using True dec_digits_scan(1) [OF space_not_digit [OF assms], of "nat (- k)" r] fold_digs [of 10 "nat (- k)"]
    by (simp add: scan_int_def show_int_def skip_ws_def Let_def)
next
  case False
  obtain c s where c: "show_dec (nat k) = c # s" "\<not> is_space c" "c \<noteq> CHR ''-''" "c \<noteq> CHR ''+''"
    using dec_digits_scan(2) [OF space_not_digit [OF assms]] by blast
  have "take_digits dec_digit (c # s @ w # r) = (digs 10 (nat k), w # r)"
    using dec_digits_scan(1) [OF space_not_digit [OF assms], of "nat k" r] c(1) by simp
  then show ?thesis
    using False c fold_digs [of 10 "nat k"] by (simp add: scan_int_def show_int_def skip_ws_def Let_def)
qed

lemma skip_ws_space: "is_space w \<Longrightarrow> skip_ws (w # s) = skip_ws s"
  by (simp add: skip_ws_def)

lemma scan_conv_space: "is_space w \<Longrightarrow> scan_conv c (w # s) = scan_conv c s"
  by (cases c) (simp_all add: scan_int_def skip_ws_space)

lemma scan_conv_none: "scan_conv c [NL] = None"
  by (cases c) (simp_all add: scan_int_def skip_ws_def spaces)

lemma takeWhile_word:
  "list_all (\<lambda>c. \<not> is_space c) s \<Longrightarrow> is_space w \<Longrightarrow> takeWhile (\<lambda>c. \<not> is_space c) (s @ w # r) = s"
  by (induction s) simp_all

lemma fits_stored: "fits_conv c v \<Longrightarrow> readable c v \<and> conv_stored c v = v"
  by (cases "(c, v)" rule: fits_conv.cases) (simp_all add: clamp_long_def clamp_ulong_def as_int_def)

lemma scan_conv_stored:
  assumes "readable c v" "is_space w"
  shows "scan_conv c (show_field v @ w # r) = Some (conv_stored c v, w # r)"
proof -
  have word: "skip_ws (s @ w # r) = s @ w # r" if "list_all (\<lambda>c. \<not> is_space c) s" "s \<noteq> []" for s
    using that by (cases s) (simp_all add: skip_ws_def)
  show ?thesis
  proof (cases v)
    case (FInt k)
    then show ?thesis using assms by (cases c) (simp_all add: scan_int_show)
  next
    case (FStr s)
    then obtain n where n: "c = Str n" "s \<noteq> []" "length s \<le> n" "list_all (\<lambda>c. \<not> is_space c) s" using assms(1) by (cases c) simp_all
    then have "0 < n" by (cases n) auto
    then show ?thesis using n FStr assms(2) word [of s] takeWhile_word [of s w r] by (simp add: Let_def)
  next
    case (FChr ch)
    then show ?thesis using assms word [of "[ch]"] by (cases c) simp_all
  qed
qed

lemma scan_conv_show: "fits_conv c v \<Longrightarrow> is_space w \<Longrightarrow> scan_conv c (show_field v @ w # r) = Some (v, w # r)"
  using scan_conv_stored [of c v w r] fits_stored [of c v] by simp

lemma fscanf_stored:
  "list_all2 readable cs vs \<Longrightarrow> cs \<noteq> [] \<Longrightarrow> fscanf (cs @ extra) (stat_text vs) = map2 conv_stored cs vs"
proof (induction cs vs rule: list_all2_induct)
  case (Cons c cs v vs)
  show ?case
  proof (cases cs)
    case Nil
    then have "vs = []" using Cons.hyps by simp
    have "fscanf extra [NL] = []" by (cases extra) (simp_all add: scan_conv_none)
    then show ?thesis
      using Nil \<open>vs = []\<close> Cons.hyps scan_conv_stored [of c v NL] by (simp add: spaces)
  next
    case (Cons c' cs')
    note cs = Cons
    obtain w ws where vs: "vs = w # ws" using cs \<open>list_all2 readable cs vs\<close> by (cases vs) auto
    have sp: "fscanf (c # ds) (BLANK # s) = fscanf (c # ds) s" for c ds s
      by (simp add: scan_conv_space spaces)
    have "fscanf (cs @ extra) (BLANK # stat_text vs) = map2 conv_stored cs vs"
      using cs sp [of c' "cs' @ extra" "stat_text vs"] Cons.IH by simp
    then show ?thesis
      using vs \<open>readable c v\<close> scan_conv_stored [of c v BLANK] by (simp add: spaces)
  qed
qed simp

lemma fscanf_stat_text:
  assumes "list_all2 fits_conv cs vs" "cs \<noteq> []"
  shows "fscanf (cs @ extra) (stat_text vs) = vs"
proof -
  have "list_all2 readable cs vs" using assms(1) by (rule list_all2_mono) (simp add: fits_stored)
  moreover have "map2 conv_stored cs vs = vs" using assms(1) by (induction rule: list_all2_induct) (simp_all add: fits_stored)
  ultimately show ?thesis using fscanf_stored assms(2) by metis
qed

text \<open>
  (C31) The stat section, for a stat file of 52 fields whose command name has no blank and at most 255 characters: every field is printed as it is stored, where a
  number in the range of its conversion is stored unchanged and the others are clamped or cut - a resident set
  limit from \<open>2^63\<close> on, such as the unlimited one, shows as \<open>2^63 - 1\<close>.  The lines numbered up to 20 show the
  field of that number, the lines numbered from 21 on the field after it.
\<close>

theorem read_stat_prints:
  assumes "list_all2 readable (take 52 stat_format) vs"
  defines "ws \<equiv> map2 conv_stored (take 52 stat_format) vs"
  shows "read_stat (Some (stat_text vs)) path = Some ([NL] @ ''[Process Stat]'' @ [NL]
      @ concat (map (\<lambda>(label, p, k). label @ print_field p (ws ! (k - 1)) @ [NL]) stat_lines))
    \<and> (\<forall>i < 52. fits_conv (stat_format ! i) (vs ! i) \<longrightarrow> ws ! i = vs ! i)
    \<and> (\<forall>k. 2 ^ 63 \<le> k \<and> vs ! 24 = FInt k \<longrightarrow> ws ! 24 = FInt (2 ^ 63 - 1))
    \<and> map (\<lambda>(label, p, k). k) stat_lines = [1..<21] @ [22..<53]
    \<and> map (\<lambda>(label, p, k). takeWhile (\<lambda>c. c \<noteq> CHR ''.'') label) stat_lines = map show_dec [1..<52]"
proof (intro conjI)
  have len: "length vs = 52" "52 < length stat_format" using list_all2_lengthD [OF assms(1)] by (simp_all add: stat_format_def)
  have ws: "ws ! i = conv_stored (stat_format ! i) (vs ! i)" if "i < 52" for i using that len by (simp add: ws_def)
  have "stat_format = take 52 stat_format @ drop 52 stat_format" by simp
  then have "fscanf stat_format (stat_text vs) = ws"
    using fscanf_stored [OF assms(1), of "drop 52 stat_format"] by (simp add: ws_def stat_format_def)
  moreover have "length ws = 52" using len by (simp add: ws_def)
  ultimately show "read_stat (Some (stat_text vs)) path = Some ([NL] @ ''[Process Stat]'' @ [NL]
      @ concat (map (\<lambda>(label, p, k). label @ print_field p (ws ! (k - 1)) @ [NL]) stat_lines))"
    by (simp only: read_stat_def print_stat_def stat_args_def option.case simp_thms if_True)
  show "\<forall>i < 52. fits_conv (stat_format ! i) (vs ! i) \<longrightarrow> ws ! i = vs ! i" using ws fits_stored by simp
  have "stat_format ! 24 = Ld" by code_simp
  then show "\<forall>k. 2 ^ 63 \<le> k \<and> vs ! 24 = FInt k \<longrightarrow> ws ! 24 = FInt (2 ^ 63 - 1)" using ws [of 24] by (auto simp: clamp_long_def)
  show "map (\<lambda>(label, p, k). k) stat_lines = [1..<21] @ [22..<53]" by code_simp
  show "map (\<lambda>(label, p, k). takeWhile (\<lambda>c. c \<noteq> CHR ''.'') label) stat_lines = map show_dec [1..<52]"
    by code_simp
qed

text \<open>A process without a limit of its resident set.\<close>

definition sample_stat :: "field list" where
  "sample_stat = [FInt 4711, FStr ''(cat)'', FChr CHR ''S''] @ replicate 21 (FInt 1) @ [FInt 18446744073709551615] @ replicate 26 (FInt 1) @ [FInt 0]"

theorem read_stat_prints_witness:
  "map2 conv_stored (take 52 stat_format) sample_stat ! 24 = FInt 9223372036854775807 \<and>
   read_stat (Some (stat_text sample_stat)) ''s'' = Some ([NL] @ ''[Process Stat]'' @ [NL]
      @ concat (map (\<lambda>(label, p, k). label @ print_field p (map2 conv_stored (take 52 stat_format) sample_stat ! (k - 1)) @ [NL]) stat_lines))"
proof -
  have sample: "list_all2 readable (take 52 stat_format) sample_stat" by code_simp
  have "sample_stat ! 24 = FInt 18446744073709551615" by code_simp
  then have "map2 conv_stored (take 52 stat_format) sample_stat ! 24 = FInt (2 ^ 63 - 1)"
    using read_stat_prints [OF sample] by simp
  then show ?thesis using read_stat_prints [OF sample, of "''s''"] by simp
qed

text \<open>
  A blank in the command name ends the scan after three conversions: the variables of all
  the other lines are printed uninitialised.
\<close>

lemma read_stat_blank_in_name:
  assumes "- (2 ^ 63) \<le> pid" "pid < 2 ^ 63" and n1: "n1 \<noteq> []" "length n1 \<le> 255" "list_all (\<lambda>c. \<not> is_space c) n1"
    and c: "\<not> is_space c" and d: "\<not> is_space d" "\<not> is_dec d" "d \<noteq> CHR ''-''" "d \<noteq> CHR ''+''"
  shows "read_stat (Some (show_int pid @ BLANK # n1 @ BLANK # c # d # rest)) path = None"
proof -
  let ?extra = "drop 3 stat_format"
  have fmt: "stat_format = Ld # Str 255 # Chr # ?extra" "\<exists>m. ?extra = Ld # m"
    by (simp_all add: stat_format_def eval_nat_numeral)
  have "scan_int (d # rest) = None"
    using d by (simp add: scan_int_def skip_ws_def Let_def dec_digit_def)
  then have "fscanf ?extra (d # rest) = []" using fmt(2) by auto
  moreover have "scan_conv Chr (BLANK # c # d # rest) = Some (FChr c, d # rest)"
    using c by (simp add: skip_ws_def spaces)
  moreover have "scan_conv (Str 255) (BLANK # n1 @ BLANK # c # d # rest) = Some (FStr n1, BLANK # c # d # rest)"
    using scan_conv_show [of "Str 255" "FStr n1" BLANK "c # d # rest"] n1 by (simp add: scan_conv_space spaces del: scan_conv.simps)
  moreover have "scan_conv Ld (show_int pid @ BLANK # n1 @ BLANK # c # d # rest)
      = Some (FInt pid, BLANK # n1 @ BLANK # c # d # rest)"
    using scan_conv_show [of Ld "FInt pid" BLANK] assms(1,2) by (simp add: spaces del: scan_conv.simps)
  ultimately have "fscanf stat_format (show_int pid @ BLANK # n1 @ BLANK # c # d # rest)
      = [FInt pid, FStr n1, FChr c]"
    by (subst fmt(1)) (simp only: fscanf.simps option.case prod.case)
  then show ?thesis by (simp add: read_stat_def print_stat_def stat_args_def)
qed

text \<open>An unlimited resident set size is clamped to the largest \<open>long\<close>.\<close>

lemma scan_rsslim_unlimited:
  "is_space w \<Longrightarrow> scan_conv Ld (show_int (2 ^ 64 - 1) @ w # r) = Some (FInt (2 ^ 63 - 1), w # r)"
  by (simp add: scan_int_show clamp_long_def)

section \<open>The memory dump\<close>

text \<open>The whole text of a region: two hexadecimal digits per byte, sixteen bytes per line.\<close>

lemma dump_block_append:
  assumes "16 dvd length as"
  shows "dump_block (as @ bs) = dump_block as @ dump_block bs"
proof -
  let ?n = "length as"
  have up: "[0..<?n + length bs] = [0..<?n] @ map (\<lambda>i. i + ?n) [0..<length bs]"
    unfolding map_add_upt using upt_add_eq_append [of 0 ?n "length bs"] by (simp only: le0 add.commute)
  obtain k where k: "?n = 16 * k" using assms by (rule dvdE)
  have "(i + ?n + 1) mod 16 = (i + 1) mod 16" for i
    using mod_mult_self2 [of "i + 1" 16 k] unfolding k by (simp only: ac_simps)
  then have shift: "dump_byte (i + ?n) b = dump_byte i b" for i b by (simp add: dump_byte_def)
  have "map (\<lambda>i. dump_byte i ((as @ bs) ! i)) [0..<?n] = map (\<lambda>i. dump_byte i (as ! i)) [0..<?n]"
    by (rule map_cong) (auto simp: nth_append)
  moreover have "map (\<lambda>i. dump_byte i ((as @ bs) ! i)) (map (\<lambda>i. i + ?n) [0..<length bs])
      = map (\<lambda>i. dump_byte i (bs ! i)) [0..<length bs]"
    unfolding map_map comp_def by (rule map_cong) (auto simp: shift nth_append)
  ultimately show ?thesis
    unfolding dump_block_def length_append up map_append concat_append by (simp only:)
qed

text \<open>Reads of the memory file that always deliver what was asked for.\<close>

definition full_reads :: "(nat \<Rightarrow> c_char) \<Rightarrow> pread_fn \<Rightarrow> bool" where
  "full_reads mem read_at \<longleftrightarrow> (\<forall>pos n. read_at pos n = Some (map mem [pos..<pos + n]))"

lemma dump_region_full:
  assumes law: "full_reads mem read_at"
  shows "dump_region read_at pos sz = dump_block (map mem [pos..<pos + sz])"
proof (induction sz arbitrary: pos rule: less_induct)
  case (less sz)
  show ?case
  proof (cases "sz = 0")
    case True
    then show ?thesis by (simp add: dump_region.simps dump_block_def)
  next
    case False
    define n where "n = (if BUFSIZ < sz then BUFSIZ else sz)"
    have n: "0 < n" "n \<le> sz" "16 dvd n \<or> n = sz"
      using False by (auto simp: n_def BUFSIZ_def)
    have r: "read_at pos n = Some (map mem [pos..<pos + n])" using law by (simp add: full_reads_def)
    obtain b bs where bs: "map mem [pos..<pos + n] = b # bs"
      using n(1) by (cases "map mem [pos..<pos + n]") auto
    then have len: "length (b # bs) = n" by (metis add_diff_cancel_left' length_map length_upt)
    have "dump_region read_at pos sz = dump_block (b # bs) @ dump_region read_at (pos + n) (sz - n)"
      unfolding dump_region.simps [of read_at pos sz] n_def [symmetric] r bs
      using False len by (simp only: list.case option.case if_False)
    also have "\<dots> = dump_block (map mem [pos..<pos + n]) @ dump_block (map mem [pos + n..<pos + n + (sz - n)])"
      using less [of "sz - n" "pos + n"] n bs by simp
    also have "\<dots> = dump_block (map mem [pos..<pos + n] @ map mem [pos + n..<pos + sz])"
    proof (cases "n = sz")
      case True
      then show ?thesis by (simp add: dump_block_def)
    next
      case False
      then have "16 dvd length (map mem [pos..<pos + n])" using n(3) by simp
      then show ?thesis using n(2) by (simp add: dump_block_append del: length_map)
    qed
    also have "map mem [pos..<pos + n] @ map mem [pos + n..<pos + sz] = map mem [pos..<pos + sz]"
      using n(2) upt_add_eq_append [of pos "pos + n" "sz - n"] by (simp flip: map_append)
    finally show ?thesis .
  qed
qed

text \<open>
  When reads of the memory file are complete, the dump of a readable region is the text of
  all its bytes in lines of sixteen, independent of the 8192-byte buffer; regions that are not
  readable, and lines other than the second, the third and the stack, print nothing.
\<close>

lemma print_mem_region:
  assumes law: "full_reads mem read_at"
    and line: "scan_mem_line line = Some (start, end', perm)"
  shows "dump_line read_at i line =
    (if (has_sub ''[stack]'' line \<or> i = 2 \<or> i = 3) \<and> hd perm = CHR ''r''
     then dump_block (map mem [unat start..<unat start + unat (end' - start)]) @ [NL] else [])"
  using line by (simp add: dump_line_def dump_region_full [OF law])

lemma print_mem_region_witness:
  "dump_line (\<lambda>pos n. Some (map (\<lambda>a. of_nat a) [pos..<pos + n])) 2 ''0a-0d r--p'' = ''0a 0b 0c '' @ [NL]"
proof -
  have law: "full_reads (\<lambda>a. of_nat a) (\<lambda>pos n. Some (map (\<lambda>a. of_nat a) [pos..<pos + n]))"
    by (simp add: full_reads_def)
  have line: "scan_mem_line ''0a-0d r--p'' = Some (10, 13, ''r--p'')" by code_simp
  have "dump_block (map (\<lambda>a. of_nat a) [10..<13]) = ''0a 0b 0c ''" by code_simp
  then show ?thesis using print_mem_region [OF law line, of 2] by simp
qed

section \<open>The main program\<close>

text \<open>
  The run on an existing process reaches its end and returns 0 only if the output name has
  at most 31 characters: a longer name overruns the 40-byte array that \<open>strcat\<close> fills.  With
  a wrong number of arguments, an unwritable report or no such process it returns 1 and writes
  nothing.
\<close>

lemma proc_main_name_bound:
  assumes "proc_main uninit garbage argv d = Some r"
  shows "(pr_status r = 0 \<and> (\<exists>prog pid name. argv = [prog, pid, name] \<and> length name \<le> 31
        \<and> length (pmap_cmd pid name) < 300 \<and> pd_exists d \<and> pd_out_opens d)
      \<and> length (pr_system r) = 1)
    \<or> (pr_status r = 1 \<and> pr_output r = [] \<and> pr_pagemap r = [] \<and> pr_mem r = None \<and> pr_system r = [])"
proof (cases "\<exists>prog pid name. argv = [prog, pid, name] \<and> pd_out_opens d \<and> pd_exists d")
  case True
  then obtain prog pid name where a: "argv = [prog, pid, name]" "pd_out_opens d" "pd_exists d" by blast
  with assms show ?thesis
    by (auto simp: proc_main_def fits_def split: option.splits if_splits Option.bind_splits prod.splits)
next
  case False
  then have "r = \<lparr>pr_status = 1, pr_output = [], pr_pagemap = [], pr_mem = None, pr_system = []\<rparr>"
    using assms by (auto simp: proc_main_def split: list.splits if_splits)
  then show ?thesis by simp
qed

definition sample_dir :: proc_dir where
  "sample_dir = \<lparr>pd_exists = True, pd_environ = Some ''A=1'', pd_stat = None, pd_cmdline = None, pd_fd = None,
     pd_cwd = None, pd_exe = None, pd_root = None, pd_io = None, pd_comm = None, pd_task = None, pd_maps = None,
     pd_map_blocks = None, pd_pagemap = None, pd_mem = None, pd_out_opens = True, pd_pagemap_out_opens = True,
     pd_mem_out_opens = True\<rparr>"

lemma proc_main_name_bound_witness:
  "(\<exists>r. proc_main (0, 0) [] [''p'', ''1'', ''o''] sample_dir = Some r \<and> length (pr_system r) = 1)
   \<and> proc_main (0, 0) [] [''p'', ''1'', replicate 32 CHR ''o''] sample_dir = None"
proof
  obtain r where r: "proc_main (0, 0) [] [''p'', ''1'', ''o''] sample_dir = Some r" "pr_status r = 0"
    by (simp add: proc_main_def sample_dir_def report_sections_def read_stat_def fprintf_pagemap_info_def
        fits_def pmap_cmd_def quoted_def)
  from proc_main_name_bound [OF r(1)] r
  show "\<exists>r. proc_main (0, 0) [] [''p'', ''1'', ''o''] sample_dir = Some r \<and> length (pr_system r) = 1" by auto
  show "proc_main (0, 0) [] [''p'', ''1'', replicate 32 CHR ''o''] sample_dir = None"
    by (simp add: proc_main_def sample_dir_def report_sections_def read_stat_def fits_def)
qed
end
