(* ===== verification/Dir_Walk.thy ===== *)
theory Dir_Walk
  imports C_Text
begin

text \<open>
  The two directory walkers of \<open>lab_fs/main.c\<close>, \<open>dopath_no\<close> (one growing path) and
  \<open>dopath_chdir\<close> (a bare name and a moving working directory), the callback \<open>myfunc\<close> and the
  main program, and the recursive printer of \<open>lab_fs/tree.c\<close>.  Both walkers run on a model of
  the file tree with the path resolution of the kernel.  The recursion on the tree is bounded
  by fuel; the theorems show that the height of the tree is enough.
\<close>

section \<open>The file tree and the calls that read it\<close>

text \<open>A directory has its read and its search permission and its entries in \<open>readdir\<close> order.\<close>

datatype node = Leaf | Dir (readable: bool) (searchable: bool) (entries: "(string \<times> node) list")

fun lookup :: "node \<Rightarrow> string list \<Rightarrow> node option" where
  "lookup t [] = Some t"
| "lookup Leaf (n # ns) = None"
| "lookup (Dir r x es) (n # ns) =
     (if x then (case map_of es n of None \<Rightarrow> None | Some c \<Rightarrow> lookup c ns) else None)"

fun is_dir :: "node option \<Rightarrow> bool" where
  "is_dir (Some (Dir r x es)) = True"
| "is_dir _ = False"

fun comps :: "string \<Rightarrow> string list" where
  "comps [] = [[]]"
| "comps (c # s) = (if c = CHR ''/'' then [] # comps s
     else case comps s of [] \<Rightarrow> [[c]] | w # ws \<Rightarrow> (c # w) # ws)"

definition resolve_comp :: "node \<Rightarrow> string list option \<Rightarrow> string \<Rightarrow> string list option" where
  "resolve_comp root at c = (case at of None \<Rightarrow> None
     | Some p \<Rightarrow>
         if c = [] \<or> c = ''.'' then (if is_dir (lookup root p) then Some p else None)
         else if c = ''..'' then (if is_dir (lookup root p) then Some (butlast p) else None)
         else if lookup root (p @ [c]) = None then None else Some (p @ [c]))"

definition resolve :: "node \<Rightarrow> string list \<Rightarrow> string \<Rightarrow> string list option" where
  "resolve root cwd path = (if path = [] then None
     else foldl (resolve_comp root) (Some (if hd path = CHR ''/'' then [] else cwd)) (comps path))"

definition s_lstat :: "node \<Rightarrow> string list \<Rightarrow> string \<Rightarrow> node option" where
  "s_lstat root cwd path = Option.bind (resolve root cwd path) (lookup root)"

definition s_opendir :: "node \<Rightarrow> string list \<Rightarrow> string \<Rightarrow> string list option" where
  "s_opendir root cwd path = (case s_lstat root cwd path of
     Some (Dir r x es) \<Rightarrow> if r then Some ([''.'', ''..''] @ map fst es) else None
   | _ \<Rightarrow> None)"

definition s_chdir :: "node \<Rightarrow> string list \<Rightarrow> string \<Rightarrow> string list option" where
  "s_chdir root cwd path = (case resolve root cwd path of
     None \<Rightarrow> None
   | Some p \<Rightarrow> (case lookup root p of Some (Dir r x es) \<Rightarrow> if x then Some p else None | _ \<Rightarrow> None))"

section \<open>The walkers\<close>

datatype ftw = FTW_F | FTW_D | FTW_DNR | FTW_NS

type_synonym myfunc_t = "string \<Rightarrow> nat \<Rightarrow> ftw \<Rightarrow> int"

text \<open>
  The globals \<open>fullpath\<close> or \<open>filename\<close> (up to the terminating NUL), the level, the working
  directory of the process, and the calls of \<open>func\<close> so far.
\<close>

record walk =
  w_path :: string
  w_level :: nat
  w_cwd :: "string list"
  w_calls :: "(string \<times> nat \<times> ftw) list"

definition call_func :: "myfunc_t \<Rightarrow> ftw \<Rightarrow> walk \<Rightarrow> int \<times> walk" where
  "call_func func t s = (func (w_path s) (w_level s) t,
     s\<lparr>w_calls := w_calls s @ [(w_path s, w_level s, t)]\<rparr>)"

text \<open>
  The \<open>readdir\<close> loop: \<open>.\<close> and \<open>..\<close> are skipped, every other entry is stored by \<open>put\<close> and
  visited, and a result other than 0 stops the loop.  \<open>None\<close> stands for undefined behaviour,
  for the exit in \<open>err_sys\<close>, and for a walk that has run out of fuel.
\<close>

fun entry_visits ::
  "(string \<Rightarrow> walk \<Rightarrow> walk option) \<Rightarrow> (walk \<Rightarrow> (int \<times> walk) option) \<Rightarrow> string list \<Rightarrow> int \<Rightarrow> walk
    \<Rightarrow> (int \<times> walk) option" where
  "entry_visits put visit [] ret s = Some (ret, s)"
| "entry_visits put visit (d # ds) ret s =
     (if d = ''.'' \<or> d = ''..'' then entry_visits put visit ds ret s
      else case Option.bind (put d s) visit of
          None \<Rightarrow> None
        | Some (ret', s') \<Rightarrow> if ret' \<noteq> 0 then Some (ret', s') else entry_visits put visit ds ret' s')"

definition path_size :: nat where "path_size = 4096"

text \<open>\<open>strcpy(&fullpath[n], d_name)\<close>\<close>

definition put_at :: "nat \<Rightarrow> string \<Rightarrow> walk \<Rightarrow> walk option" where
  "put_at n d s = (let p = take n (w_path s) @ d in
     if length p < path_size then Some (s\<lparr>w_path := p\<rparr>) else None)"

primrec dopath_no :: "nat \<Rightarrow> node \<Rightarrow> myfunc_t \<Rightarrow> walk \<Rightarrow> (int \<times> walk) option" where
  "dopath_no 0 root func s = None"
| "dopath_no (Suc fuel) root func s = (case s_lstat root (w_cwd s) (w_path s) of
     None \<Rightarrow> Some (call_func func FTW_NS s)
   | Some Leaf \<Rightarrow> Some (call_func func FTW_F s)
   | Some (Dir _ _ _) \<Rightarrow>
       (let (ret, s) = call_func func FTW_D s in
        if ret \<noteq> 0 then Some (ret, s) else
        let n = length (w_path s) + 1 in
        if path_size \<le> n then None else
        let s = s\<lparr>w_path := w_path s @ ''/''\<rparr> in
        case s_opendir root (w_cwd s) (w_path s) of
          None \<Rightarrow> Some (call_func func FTW_DNR s)
        | Some names \<Rightarrow>
            map_option (\<lambda>(ret, s). (ret, s\<lparr>w_level := w_level s - 1, w_path := take (n - 1) (w_path s)\<rparr>))
              (entry_visits (put_at n) (dopath_no fuel root func) names ret
                (s\<lparr>w_level := w_level s + 1\<rparr>))))"

primrec dopath_chdir :: "nat \<Rightarrow> node \<Rightarrow> myfunc_t \<Rightarrow> walk \<Rightarrow> (int \<times> walk) option" where
  "dopath_chdir 0 root func s = None"
| "dopath_chdir (Suc fuel) root func s = (case s_lstat root (w_cwd s) (w_path s) of
     None \<Rightarrow> Some (call_func func FTW_NS s)
   | Some Leaf \<Rightarrow> Some (call_func func FTW_F s)
   | Some (Dir _ _ _) \<Rightarrow>
       (let (ret, s) = call_func func FTW_D s in
        if ret \<noteq> 0 then Some (ret, s) else
        case s_opendir root (w_cwd s) (w_path s) of
          None \<Rightarrow> Some (call_func func FTW_DNR s)
        | Some names \<Rightarrow>
            (case s_chdir root (w_cwd s) (w_path s) of
              None \<Rightarrow> None
            | Some cwd \<Rightarrow>
                (case entry_visits (put_at 0) (dopath_chdir fuel root func) names ret
                    (s\<lparr>w_cwd := cwd, w_level := w_level s + 1\<rparr>) of
                  None \<Rightarrow> None
                | Some (ret, s) \<Rightarrow>
                    (let s = s\<lparr>w_level := w_level s - 1\<rparr> in
                     map_option (\<lambda>cwd. (ret, s\<lparr>w_cwd := cwd\<rparr>)) (s_chdir root (w_cwd s) ''..''))))))"

definition walk_start :: "string list \<Rightarrow> string \<Rightarrow> walk option" where
  "walk_start cwd pathname = (if length pathname < path_size
     then Some \<lparr>w_path = pathname, w_level = 0, w_cwd = cwd, w_calls = []\<rparr> else None)"

definition myftw_no :: "nat \<Rightarrow> node \<Rightarrow> string list \<Rightarrow> string \<Rightarrow> myfunc_t \<Rightarrow> (int \<times> walk) option" where
  "myftw_no fuel root cwd pathname func = Option.bind (walk_start cwd pathname) (dopath_no fuel root func)"

definition myftw_chdir :: "nat \<Rightarrow> node \<Rightarrow> string list \<Rightarrow> string \<Rightarrow> myfunc_t \<Rightarrow> (int \<times> walk) option" where
  "myftw_chdir fuel root cwd pathname func = Option.bind (walk_start cwd pathname) (dopath_chdir fuel root func)"

section \<open>The callback\<close>

text \<open>The UTF-8 bytes of the two box drawing strings of the program.\<close>

definition bar :: string where
  "bar = [CHR 0xE2, CHR 0x94, CHR 0x82, BLANK, BLANK, BLANK]"

definition corner :: string where
  "corner = [CHR 0xE2, CHR 0x94, CHR 0x94] @ concat (replicate 3 [CHR 0xE2, CHR 0x94, CHR 0x80])"

definition myfunc_indent :: "nat \<Rightarrow> string" where
  "myfunc_indent level = concat (map (\<lambda>i. if i \<noteq> level - 1 then bar else corner) [0..<level])"

definition myfunc_text :: "string \<times> nat \<times> ftw \<Rightarrow> string" where
  "myfunc_text = (\<lambda>(pathname, level, type).
     if type = FTW_F \<or> type = FTW_D then
       myfunc_indent level
       @ (if level > 0 then (case strrchr_slash pathname of Some f \<Rightarrow> drop 1 f | None \<Rightarrow> pathname) else pathname)
       @ [NL]
     else [])"

definition myfunc :: myfunc_t where
  "myfunc pathname level type = 0"

definition ftw_output :: "bool \<Rightarrow> walk \<Rightarrow> string" where
  "ftw_output print s = (if print then concat (map myfunc_text (w_calls s)) else [])"

text \<open>
  \<open>main\<close>: the walk with \<open>chdir\<close> prints the tree; \<open>compare\<close> then repeats both walks silently
  from whatever working directory the first walk has left.  The result: the exit status, the
  text of the tree, and the calls of the two silent walks.
\<close>

definition compare_walks ::
  "nat \<Rightarrow> node \<Rightarrow> string list \<Rightarrow> string \<Rightarrow> ((string \<times> nat \<times> ftw) list \<times> (string \<times> nat \<times> ftw) list) option" where
  "compare_walks fuel root cwd pathname =
     (case myftw_no fuel root cwd pathname myfunc of
       None \<Rightarrow> None
     | Some (_, s1) \<Rightarrow> map_option (\<lambda>(_, s2). (w_calls s1, w_calls s2)) (myftw_chdir fuel root (w_cwd s1) pathname myfunc))"

definition ftw_main ::
  "nat \<Rightarrow> node \<Rightarrow> string list \<Rightarrow> string list
    \<Rightarrow> (int \<times> string \<times> (string \<times> nat \<times> ftw) list \<times> (string \<times> nat \<times> ftw) list) option" where
  "ftw_main fuel root cwd argv = (case argv of
     [prog, dir] \<Rightarrow> (case myftw_chdir fuel root cwd dir myfunc of
         None \<Rightarrow> None
       | Some (ret, s) \<Rightarrow> map_option (\<lambda>c. (ret, ftw_output True s, c)) (compare_walks fuel root (w_cwd s) dir))
   | _ \<Rightarrow> Some (1, [], [], []))"

section \<open>The printer of tree.c\<close>

text \<open>
  \<open>print_tree\<close> reads the directory and the files by bare names after its \<open>chdir\<close>; a directory
  that cannot be opened is a null pointer for \<open>readdir\<close> (\<open>None\<close>).  A failed \<open>chdir\<close> is ignored,
  and a failed \<open>lstat\<close> leaves the old contents of \<open>sbuf\<close>; both are taken as undefined here too.
\<close>

fun tree_entries :: "(string \<Rightarrow> string list \<Rightarrow> (string \<times> string list) option) \<Rightarrow> node \<Rightarrow> nat \<Rightarrow> string list \<Rightarrow> string list
    \<Rightarrow> (string \<times> string list) option" where
  "tree_entries sub root indent [] cwd = Some ([], cwd)"
| "tree_entries sub root indent (d # ds) cwd = (case (if d = ''.'' \<or> d = ''..'' then Some ([], cwd)
      else case s_lstat root cwd d of
         None \<Rightarrow> None
       | Some Leaf \<Rightarrow> Some (concat (replicate indent ''| _'') @ d @ [NL], cwd)
       | Some (Dir _ _ _) \<Rightarrow> map_option (\<lambda>(t, cwd'). (concat (replicate indent ''| _'') @ d @ [NL] @ t @ ''|'' @ [NL], cwd')) (sub d cwd)) of
    None \<Rightarrow> None
  | Some (t, cwd') \<Rightarrow> map_option (\<lambda>(t', cwd''). (t @ t', cwd'')) (tree_entries sub root indent ds cwd'))"

primrec print_tree :: "nat \<Rightarrow> node \<Rightarrow> nat \<Rightarrow> string \<Rightarrow> string list \<Rightarrow> (string \<times> string list) option" where
  "print_tree 0 root indent dirname cwd = None"
| "print_tree (Suc fuel) root indent dirname cwd =
     (case (s_opendir root cwd dirname, s_chdir root cwd dirname) of
       (Some names, Some cwd') \<Rightarrow>
         (case tree_entries (print_tree fuel root (indent + 2)) root indent names cwd' of
           None \<Rightarrow> None
         | Some (t, cwd'') \<Rightarrow> map_option (\<lambda>up. (t, up)) (s_chdir root cwd'' ''..''))
     | _ \<Rightarrow> None)"

definition tree_main :: "nat \<Rightarrow> node \<Rightarrow> string list \<Rightarrow> string list \<Rightarrow> (int \<times> string) option" where
  "tree_main fuel root cwd argv = (case argv of
     [prog, dir] \<Rightarrow> map_option (\<lambda>(t, _). (0, dir @ [NL] @ ''|'' @ [NL] @ t @ [NL])) (print_tree fuel root 1 dir cwd)
   | _ \<Rightarrow> Some (1, ''usage: ./tree dir'' @ [NL]))"

section \<open>Well-formed trees\<close>

definition name_ok :: "string \<Rightarrow> bool" where
  "name_ok n \<longleftrightarrow> n \<noteq> [] \<and> n \<noteq> ''.'' \<and> n \<noteq> ''..'' \<and> CHR ''/'' \<notin> set n \<and> length n \<le> 255"

lemma entry_size: "e \<in> set es \<Longrightarrow> size (snd e) < size (Dir r x es)"
  by (induction es) auto

text \<open>Names are unique and legal, and who may list a directory may also enter it.\<close>

function (sequential) wf_node :: "node \<Rightarrow> bool" where
  "wf_node Leaf = True"
| "wf_node (Dir r x es) = (distinct (map fst es) \<and> (r \<longrightarrow> x) \<and> (\<forall>e \<in> set es. name_ok (fst e) \<and> wf_node (snd e)))"
  by pat_completeness auto
termination by (relation "measure (size)") (simp_all add: entry_size del: node.size)

function (sequential) height :: "node \<Rightarrow> nat" where
  "height Leaf = 0"
| "height (Dir r x es) = Suc (fold max (map (\<lambda>e. height (snd e)) es) 0)"
  by pat_completeness auto
termination by (relation "measure (size)") (simp_all add: entry_size del: node.size)

text \<open>Every path the walk without \<open>chdir\<close> builds fits its buffer.\<close>

function (sequential) paths_fit :: "string \<Rightarrow> node \<Rightarrow> bool" where
  "paths_fit path Leaf = (length path < path_size)"
| "paths_fit path (Dir r x es) =
     (length path + 1 < path_size \<and> (\<forall>e \<in> set es. paths_fit (path @ ''/'' @ fst e) (snd e)))"
  by pat_completeness auto
termination by (relation "measure (\<lambda>(p, t). size t)") (simp_all add: entry_size del: node.size)

lemma fold_max_ge: "y \<in> set ys \<or> y \<le> a \<Longrightarrow> y \<le> fold max ys (a :: nat)"
proof (induction ys arbitrary: a)
  case (Cons z zs)
  have "y \<in> set zs \<or> y \<le> max z a" using Cons.prems by auto
  from Cons.IH [OF this] show ?case by simp
qed simp

lemma height_entry: "e \<in> set es \<Longrightarrow> height (snd e) < height (Dir r x es)"
  unfolding height.simps less_Suc_eq_le by (rule fold_max_ge) simp

section \<open>Path resolution\<close>

lemma lookup_append: "lookup t (p @ q) = Option.bind (lookup t p) (\<lambda>u. lookup u q)"
  by (induction t p rule: lookup.induct) (auto split: option.splits)

lemma lookup_child:
  "lookup root p = Some (Dir r True es) \<Longrightarrow> distinct (map fst es) \<Longrightarrow> (n, c) \<in> set es \<Longrightarrow>
   lookup root (p @ [n]) = Some c"
  by (simp add: lookup_append)

lemma lookup_parent:
  assumes "lookup root (p @ [n]) \<noteq> None"
  obtains r es where "lookup root p = Some (Dir r True es)"
proof -
  from assms obtain u where u: "lookup root p = Some u" "lookup u [n] \<noteq> None"
    by (auto simp: lookup_append bind_eq_None_conv)
  then show thesis by (cases u) (auto intro: that split: if_splits)
qed

lemma comps_not_Nil [simp]: "comps s \<noteq> []"
  by (induction s) (auto split: list.splits)

lemma comps_plain: "CHR ''/'' \<notin> set n \<Longrightarrow> comps n = [n]"
  by (induction n) auto

lemma comps_append: "CHR ''/'' \<notin> set n \<Longrightarrow> comps (p @ CHR ''/'' # n) = comps p @ [n]"
proof (induction p)
  case (Cons c p)
  then show ?case by (cases "comps p") simp_all
qed (simp add: comps_plain)

lemma resolve_append:
  assumes "CHR ''/'' \<notin> set n" "path \<noteq> []"
  shows "resolve root cwd (path @ ''/'' @ n) = resolve_comp root (resolve root cwd path) n"
  using assms by (simp add: resolve_def comps_append)

lemma resolve_name:
  assumes "name_ok n" "lookup root (p @ [n]) = Some c"
  shows "resolve root p n = Some (p @ [n])" "resolve_comp root (Some p) n = Some (p @ [n])"
proof -
  have "hd n \<noteq> CHR ''/''" using assms(1) by (auto simp: name_ok_def dest: hd_in_set)
  then show "resolve root p n = Some (p @ [n])"
    using assms by (simp add: resolve_def name_ok_def comps_plain resolve_comp_def)
  show "resolve_comp root (Some p) n = Some (p @ [n])"
    using assms by (simp add: name_ok_def resolve_comp_def)
qed

lemma chdir_up:
  assumes "lookup root p = Some (Dir r True es)"
  shows "s_chdir root p ''..'' = Some (butlast p)"
proof -
  have up: "resolve root p ''..'' = Some (butlast p)"
    using assms by (simp add: resolve_def resolve_comp_def)
  show ?thesis
  proof (cases "p = []")
    case True
    then show ?thesis using assms up by (simp add: s_chdir_def)
  next
    case False
    then have "lookup root (butlast p @ [last p]) \<noteq> None" using assms by simp
    then obtain r' es' where "lookup root (butlast p) = Some (Dir r' True es')" by (rule lookup_parent)
    then show ?thesis using up by (simp add: s_chdir_def)
  qed
qed

section \<open>What the walkers report\<close>

function (sequential) bare_calls :: "string \<Rightarrow> nat \<Rightarrow> node \<Rightarrow> (string \<times> nat \<times> ftw) list" where
  "bare_calls name l Leaf = [(name, l, FTW_F)]"
| "bare_calls name l (Dir r x es) = (name, l, FTW_D) #
     (if r then concat (map (\<lambda>e. bare_calls (fst e) (l + 1) (snd e)) es) else [(name, l, FTW_DNR)])"
  by pat_completeness auto
termination by (relation "measure (\<lambda>(n, l, t). size t)") (simp_all add: entry_size del: node.size)

function (sequential) path_calls :: "string \<Rightarrow> nat \<Rightarrow> node \<Rightarrow> (string \<times> nat \<times> ftw) list" where
  "path_calls path l Leaf = [(path, l, FTW_F)]"
| "path_calls path l (Dir r x es) = (path, l, FTW_D) #
     (if r then concat (map (\<lambda>e. path_calls (path @ ''/'' @ fst e) (l + 1) (snd e)) es)
      else [(path @ ''/'', l, FTW_DNR)])"
  by pat_completeness auto
termination by (relation "measure (\<lambda>(p, l, t). size t)") (simp_all add: entry_size del: node.size)

lemma entry_visits_ok:
  assumes "\<And>n c s. (n, c) \<in> set es \<Longrightarrow> I s \<Longrightarrow> \<exists>s1 s2. put n s = Some s1 \<and> visit s1 = Some (0, s2)
      \<and> I s2 \<and> w_calls s2 = w_calls s @ f n c"
    and "\<And>n c. (n, c) \<in> set es \<Longrightarrow> n \<noteq> ''.'' \<and> n \<noteq> ''..''"
  shows "I s \<Longrightarrow> \<exists>s'. entry_visits put visit (map fst es) 0 s = Some (0, s') \<and> I s'
    \<and> w_calls s' = w_calls s @ concat (map (\<lambda>e. f (fst e) (snd e)) es)"
  using assms
proof (induction es arbitrary: s)
  case (Cons e es)
  obtain n c where e: "e = (n, c)" by (cases e)
  from Cons.prems(2) [of n c s] Cons.prems(1) obtain s1 s2 where s2: "put n s = Some s1" "visit s1 = Some (0, s2)"
    "I s2" "w_calls s2 = w_calls s @ f n c" by (auto simp: e)
  have "\<exists>s'. entry_visits put visit (map fst es) 0 s2 = Some (0, s') \<and> I s'
      \<and> w_calls s' = w_calls s2 @ concat (map (\<lambda>e. f (fst e) (snd e)) es)"
  proof (rule Cons.IH [OF s2(3)])
    show "\<exists>s1 s2. put n s = Some s1 \<and> visit s1 = Some (0, s2) \<and> I s2 \<and> w_calls s2 = w_calls s @ f n c"
      if "(n, c) \<in> set es" "I s" for n c s
      using that by (intro Cons.prems(2)) simp_all
    show "n \<noteq> ''.'' \<and> n \<noteq> ''..''" if "(n, c) \<in> set es" for n c
      using that by (intro Cons.prems(3) [of n c]) simp
  qed
  then show ?case using s2 Cons.prems(3) [of n c] by (auto simp: e)
qed simp

lemma entry_visits_dots:
  "entry_visits put visit ([''.'', ''..''] @ ns) ret s = entry_visits put visit ns ret s"
  by simp

section \<open>The walk that changes directory\<close>

lemma call_myfunc: "call_func myfunc t s = (0, s\<lparr>w_calls := w_calls s @ [(w_path s, w_level s, t)]\<rparr>)"
  by (simp add: call_func_def myfunc_def)

lemma dopath_chdir_calls:
  "wf_node t \<Longrightarrow> height t < fuel \<Longrightarrow> resolve root (w_cwd s) (w_path s) = Some p \<Longrightarrow> lookup root p = Some t \<Longrightarrow>
   \<exists>s'. dopath_chdir fuel root myfunc s = Some (0, s') \<and> w_level s' = w_level s
     \<and> w_calls s' = w_calls s @ bare_calls (w_path s) (w_level s) t
     \<and> w_cwd s' = (case t of Leaf \<Rightarrow> w_cwd s | Dir r x es \<Rightarrow> if r then butlast p else w_cwd s)"
proof (induction fuel arbitrary: t s p)
  case (Suc fuel)
  have st: "s_lstat root (w_cwd s) (w_path s) = Some t" using Suc.prems by (simp add: s_lstat_def)
  show ?case
  proof (cases t)
    case Leaf
    then show ?thesis using st by (simp add: call_myfunc)
  next
    case (Dir r x es)
    let ?s = "s\<lparr>w_calls := w_calls s @ [(w_path s, w_level s, FTW_D)]\<rparr>"
    have od: "s_opendir root (w_cwd s) (w_path s) = (if r then Some ([''.'', ''..''] @ map fst es) else None)"
      using st Dir by (simp add: s_opendir_def)
    show ?thesis
    proof (cases r)
      case False
      then show ?thesis using st Dir od by (simp add: call_myfunc)
    next
      case True
      then have x: "x" "distinct (map fst es)" using Suc.prems(1) Dir by auto
      have at: "lookup root p = Some (Dir r True es)" using Suc.prems(4) Dir x by simp
      have cd: "s_chdir root (w_cwd s) (w_path s) = Some p" using Suc.prems(3) at by (simp add: s_chdir_def)
      let ?I = "\<lambda>u. w_cwd u = p \<and> w_level u = w_level s + 1"
      let ?u = "?s\<lparr>w_cwd := p, w_level := w_level s + 1\<rparr>"
      have "\<exists>s'. entry_visits (put_at 0) (dopath_chdir fuel root myfunc) (map fst es) 0 ?u = Some (0, s') \<and> ?I s'
          \<and> w_calls s' = w_calls ?u @ concat (map (\<lambda>e. bare_calls (fst e) (w_level s + 1) (snd e)) es)"
      proof (rule entry_visits_ok)
        fix n c and u :: walk assume e: "(n, c) \<in> set es" and u: "?I u"
        then have ok: "name_ok n" "wf_node c" using Suc.prems(1) Dir by auto
        have h: "height c < fuel" using Suc.prems(2) height_entry [OF e, of r x] Dir by simp
        have ch: "lookup root (p @ [n]) = Some c" using at x(2) e by (rule lookup_child)
        let ?v = "u\<lparr>w_path := n\<rparr>"
        have "put_at 0 n u = Some ?v" using ok(1) by (simp add: put_at_def name_ok_def path_size_def)
        moreover have "resolve root (w_cwd ?v) (w_path ?v) = Some (p @ [n])"
          using u resolve_name(1) [OF ok(1) ch] by simp
        from Suc.IH [OF ok(2) h this ch]
        obtain s2 where "dopath_chdir fuel root myfunc ?v = Some (0, s2)" "w_level s2 = w_level u"
            "w_calls s2 = w_calls u @ bare_calls n (w_level u) c" "w_cwd s2 = p"
          using u by (auto split: node.splits)
        ultimately show "\<exists>s1 s2. put_at 0 n u = Some s1 \<and> dopath_chdir fuel root myfunc s1 = Some (0, s2) \<and> ?I s2
            \<and> w_calls s2 = w_calls u @ bare_calls n (w_level s + 1) c"
          using u by auto
      qed (use Suc.prems(1) Dir in \<open>auto simp: name_ok_def\<close>)
      then obtain s' where s': "entry_visits (put_at 0) (dopath_chdir fuel root myfunc) (map fst es) 0 ?u = Some (0, s')"
        "w_cwd s' = p" "w_level s' = w_level s + 1"
        "w_calls s' = w_calls ?u @ concat (map (\<lambda>e. bare_calls (fst e) (w_level s + 1) (snd e)) es)" by blast
      then show ?thesis
        using st Dir od True cd chdir_up [OF at] by (simp add: call_myfunc)
    qed
  qed
qed simp

section \<open>The walk along one path\<close>

lemma dopath_no_calls:
  "wf_node t \<Longrightarrow> height t < fuel \<Longrightarrow> paths_fit (w_path s) t \<Longrightarrow> w_path s \<noteq> [] \<Longrightarrow>
   resolve root (w_cwd s) (w_path s) = Some p \<Longrightarrow> lookup root p = Some t \<Longrightarrow>
   \<exists>s' ext. dopath_no fuel root myfunc s = Some (0, s') \<and> w_level s' = w_level s \<and> w_cwd s' = w_cwd s
     \<and> w_path s' = w_path s @ ext \<and> w_calls s' = w_calls s @ path_calls (w_path s) (w_level s) t"
proof (induction fuel arbitrary: t s p)
  case (Suc fuel)
  have st: "s_lstat root (w_cwd s) (w_path s) = Some t" using Suc.prems by (simp add: s_lstat_def)
  show ?case
  proof (cases t)
    case Leaf
    then show ?thesis using st by (simp add: call_myfunc)
  next
    case (Dir r x es)
    let ?n = "length (w_path s) + 1" and ?base = "w_path s @ ''/''"
    let ?s = "s\<lparr>w_calls := w_calls s @ [(w_path s, w_level s, FTW_D)], w_path := ?base\<rparr>"
    have fit: "\<not> path_size \<le> ?n" using Suc.prems(3) Dir by simp
    have "resolve root (w_cwd s) ?base = Some p"
      using resolve_append [of "[]" "w_path s" root "w_cwd s"] Suc.prems(4-6) Dir by (simp add: resolve_comp_def)
    then have od: "s_opendir root (w_cwd s) ?base = (if r then Some ([''.'', ''..''] @ map fst es) else None)"
      using Suc.prems(6) Dir by (simp add: s_opendir_def s_lstat_def)
    show ?thesis
    proof (cases r)
      case False
      then show ?thesis using st Dir od fit by (simp add: call_myfunc)
    next
      case True
      then have x: "x" "distinct (map fst es)" using Suc.prems(1) Dir by auto
      have at: "lookup root p = Some (Dir r True es)" using Suc.prems(6) Dir x by simp
      let ?I = "\<lambda>u. take ?n (w_path u) = ?base \<and> w_cwd u = w_cwd s \<and> w_level u = w_level s + 1"
      let ?u = "?s\<lparr>w_level := w_level s + 1\<rparr>"
      have "\<exists>s'. entry_visits (put_at ?n) (dopath_no fuel root myfunc) (map fst es) 0 ?u = Some (0, s') \<and> ?I s'
          \<and> w_calls s' = w_calls ?u @ concat (map (\<lambda>e. path_calls (w_path s @ ''/'' @ fst e) (w_level s + 1) (snd e)) es)"
      proof (rule entry_visits_ok)
        fix n c and u :: walk assume e: "(n, c) \<in> set es" and u: "?I u"
        let ?v = "u\<lparr>w_path := w_path s @ ''/'' @ n\<rparr>"
        have ok: "name_ok n" "wf_node c" "paths_fit (w_path ?v) c"
          using e Suc.prems(1,3) Dir by auto
        then have "length (w_path ?v) < path_size" by (cases c) auto
        then have put: "put_at ?n n u = Some ?v" using u by (simp add: put_at_def)
        have h: "height c < fuel" using Suc.prems(2) height_entry [OF e, of r x] Dir by simp
        have ch: "lookup root (p @ [n]) = Some c" using at x(2) e by (rule lookup_child)
        have "CHR ''/'' \<notin> set n" using ok(1) by (simp add: name_ok_def)
        then have res: "resolve root (w_cwd ?v) (w_path ?v) = Some (p @ [n])"
          using u resolve_append [of n "w_path s" root "w_cwd s"] Suc.prems(4,5) resolve_name(2) [OF ok(1) ch] by simp
        from Suc.IH [OF ok(2) h ok(3) _ res ch]
        obtain s2 ext where "dopath_no fuel root myfunc ?v = Some (0, s2)" "w_level s2 = w_level u" "w_cwd s2 = w_cwd u"
            "w_path s2 = (w_path s @ ''/'' @ n) @ ext" "w_calls s2 = w_calls u @ path_calls (w_path s @ ''/'' @ n) (w_level u) c"
          by auto
        then show "\<exists>s1 s2. put_at ?n n u = Some s1 \<and> dopath_no fuel root myfunc s1 = Some (0, s2) \<and> ?I s2
            \<and> w_calls s2 = w_calls u @ path_calls (w_path s @ ''/'' @ n) (w_level s + 1) c"
          using u put by auto
      qed (use Suc.prems(1) Dir in \<open>auto simp: name_ok_def\<close>)
      then obtain s' where s': "entry_visits (put_at ?n) (dopath_no fuel root myfunc) (map fst es) 0 ?u = Some (0, s')"
        "take ?n (w_path s') = ?base" "w_cwd s' = w_cwd s" "w_level s' = w_level s + 1"
        "w_calls s' = w_calls ?u @ concat (map (\<lambda>e. path_calls (w_path s @ ''/'' @ fst e) (w_level s + 1) (snd e)) es)"
        by blast
      have "take (length (w_path s)) (w_path s') = w_path s"
        using arg_cong [OF s'(2), of "take (length (w_path s))"] by simp
      then show ?thesis
        using st Dir od fit True s' by (simp add: call_myfunc)
    qed
  qed
qed simp

section \<open>Both walks print the same tree\<close>

lemma myfunc_text_base:
  assumes "CHR ''/'' \<notin> set n"
  shows "myfunc_text (p @ ''/'' @ n, Suc l, t) = myfunc_text (n, Suc l, t)"
  using strrchr_last [OF assms, of p] strrchr_plain [OF assms] by (simp add: myfunc_text_def)

definition calls_text :: "(string \<times> nat \<times> ftw) list \<Rightarrow> string" where
  "calls_text cs = concat (map myfunc_text cs)"

lemma calls_text_simps [simp]:
  "calls_text [] = []" "calls_text (c # cs) = myfunc_text c @ calls_text cs"
  "calls_text (concat (map f es)) = concat (map (\<lambda>e. calls_text (f e)) es)"
  by (simp_all add: calls_text_def) (induction es; simp)

lemma myfunc_text_DNR [simp]: "myfunc_text (p, l, FTW_DNR) = []"
  by (simp add: myfunc_text_def)

lemma text_below:
  "wf_node t \<Longrightarrow> CHR ''/'' \<notin> set n \<Longrightarrow> calls_text (path_calls (p @ ''/'' @ n) (Suc l) t) = calls_text (bare_calls n (Suc l) t)"
proof (induction n "Suc l" t arbitrary: p l rule: bare_calls.induct)
  case (2 name r x es)
  have "calls_text (path_calls ((p @ ''/'' @ name) @ ''/'' @ fst e) (Suc (Suc l)) (snd e))
      = calls_text (bare_calls (fst e) (Suc (Suc l)) (snd e))" if "e \<in> set es" "r" for e
    using that 2(2) by (intro 2(1)) (auto simp: name_ok_def)
  then show ?case
    using 2(3) myfunc_text_base [of name p l FTW_D] by (simp cong: map_cong)
qed (use myfunc_text_base in simp)

lemma text_same:
  assumes "wf_node t"
  shows "calls_text (path_calls path 0 t) = calls_text (bare_calls path 0 t)"
proof (cases t)
  case (Dir r x es)
  have "calls_text (path_calls (path @ ''/'' @ fst e) (Suc 0) (snd e)) = calls_text (bare_calls (fst e) (Suc 0) (snd e))"
    if "e \<in> set es" for e
    using assms that Dir by (intro text_below) (auto simp: name_ok_def)
  then show ?thesis using Dir by (simp cong: map_cong)
qed simp

lemma walks_both:
  assumes "wf_node t" "height t < fuel" "paths_fit dir t" "resolve root cwd dir = Some p" "lookup root p = Some t"
  shows "\<exists>s1 s2. myftw_no fuel root cwd dir myfunc = Some (0, s1) \<and> myftw_chdir fuel root cwd dir myfunc = Some (0, s2)
    \<and> ftw_output True s1 = ftw_output True s2 \<and> ftw_output True s2 = calls_text (bare_calls dir 0 t)
    \<and> w_cwd s1 = cwd
    \<and> w_cwd s2 = (case t of Leaf \<Rightarrow> cwd | Dir r x es \<Rightarrow> if r then butlast p else cwd)"
proof -
  let ?s = "\<lparr>w_path = dir, w_level = 0, w_cwd = cwd, w_calls = []\<rparr>"
  have len: "length dir < path_size" using assms(3) by (cases t) auto
  then have start: "walk_start cwd dir = Some ?s" by (simp add: walk_start_def)
  have "dir \<noteq> []" using assms(4) by (auto simp: resolve_def)
  then obtain s1 ext where "dopath_no fuel root myfunc ?s = Some (0, s1)" "w_cwd s1 = cwd"
      "w_calls s1 = path_calls dir 0 t"
    using dopath_no_calls [OF assms(1,2), of ?s root p] assms(3-5) by auto
  moreover obtain s2 where "dopath_chdir fuel root myfunc ?s = Some (0, s2)" "w_calls s2 = bare_calls dir 0 t"
      "w_cwd s2 = (case t of Leaf \<Rightarrow> cwd | Dir r x es \<Rightarrow> if r then butlast p else cwd)"
    using dopath_chdir_calls [OF assms(1,2), of root ?s p] assms(4,5) by (cases t) auto
  ultimately show ?thesis
    using text_same [OF assms(1)]
    by (simp add: myftw_no_def myftw_chdir_def start ftw_output_def flip: calls_text_def)
qed

text \<open>
  (C10) On a well-formed tree whose paths fit the buffer, both walks end, return 0 and print the
  same text; the walk along one path leaves the working directory alone, the walk with
  \<open>chdir\<close> leaves the process in the parent of the directory it walked.
\<close>

theorem ftw_walks_agree:
  assumes "wf_node t" "height t < fuel" "paths_fit dir t" "resolve root cwd dir = Some p" "lookup root p = Some t"
  shows "\<exists>s1 s2. myftw_no fuel root cwd dir myfunc = Some (0, s1) \<and> myftw_chdir fuel root cwd dir myfunc = Some (0, s2)
    \<and> ftw_output True s1 = ftw_output True s2 \<and> ftw_output True s2 = calls_text (bare_calls dir 0 t)
    \<and> w_cwd s1 = cwd
    \<and> w_cwd s2 = (case t of Leaf \<Rightarrow> cwd | Dir r x es \<Rightarrow> if r then butlast p else cwd)"
  using assms by (rule walks_both)

definition sample_tree :: node where
  "sample_tree = Dir True True [(''a'', Dir True True [(''f'', Leaf)]), (''b'', Leaf)]"

theorem ftw_walks_agree_witness:
  "\<exists>s1 s2. myftw_no 3 sample_tree [''a''] ''.'' myfunc = Some (0, s1)
    \<and> myftw_chdir 3 sample_tree [''a''] ''.'' myfunc = Some (0, s2)
    \<and> ftw_output True s1 = ''.'' @ [NL] @ corner @ ''f'' @ [NL]
    \<and> ftw_output True s2 = ''.'' @ [NL] @ corner @ ''f'' @ [NL] \<and> w_cwd s1 = [''a''] \<and> w_cwd s2 = []"
proof -
  let ?t = "Dir True True [(''f'', Leaf)]"
  have "wf_node ?t" "height ?t < 3" "paths_fit ''.'' ?t" "resolve sample_tree [''a''] ''.'' = Some [''a'']"
    "lookup sample_tree [''a''] = Some ?t" "calls_text (bare_calls ''.'' 0 ?t) = ''.'' @ [NL] @ corner @ ''f'' @ [NL]"
    by (simp_all add: name_ok_def path_size_def sample_tree_def resolve_def resolve_comp_def myfunc_text_def
        myfunc_indent_def)
  then show ?thesis using ftw_walks_agree [of ?t 3 "''.''" sample_tree "[''a'']" "[''a'']"] by auto
qed

text \<open>
  The silent walks that \<open>compare\<close> times start in the parent of the directory: for the start
  directory \<open>.\<close> they walk another tree than the one printed.
\<close>

lemma ftw_main_compares_parent:
  assumes "wf_node t" "height t < fuel" "paths_fit dir t" "resolve root cwd dir = Some p" "lookup root p = Some t"
    and "t = Dir True x es"
  shows "ftw_main fuel root cwd [prog, dir] =
    map_option (\<lambda>c. (0, calls_text (bare_calls dir 0 t), c)) (compare_walks fuel root (butlast p) dir)"
  using walks_both [OF assms(1-5)] assms(6) by (auto simp: ftw_main_def)

section \<open>The printer of tree.c\<close>

function (sequential) tree_text :: "nat \<Rightarrow> node \<Rightarrow> string" where
  "tree_text indent Leaf = []"
| "tree_text indent (Dir r x es) = concat (map (\<lambda>e. concat (replicate indent ''| _'') @ fst e @ [NL]
     @ (if is_dir (Some (snd e)) then tree_text (indent + 2) (snd e) @ ''|'' @ [NL] else [])) es)"
  by pat_completeness auto
termination by (relation "measure (\<lambda>(i, t). size t)") (simp_all add: entry_size del: node.size)

function (sequential) all_readable :: "node \<Rightarrow> bool" where
  "all_readable Leaf = True"
| "all_readable (Dir r x es) = (r \<and> (\<forall>e \<in> set es. all_readable (snd e)))"
  by pat_completeness auto
termination by (relation "measure (size)") (simp_all add: entry_size del: node.size)

lemma tree_entries_text:
  assumes "\<And>e. e \<in> set es \<Longrightarrow> name_ok (fst e) \<and> lookup root (p @ [fst e]) = Some (snd e)"
    and "\<And>e. e \<in> set es \<Longrightarrow> is_dir (Some (snd e)) \<Longrightarrow> sub (fst e) p = Some (tree_text (indent + 2) (snd e), p)"
  shows "tree_entries sub root indent (map fst es) p = Some (tree_text indent (Dir r x es), p)"
  using assms
proof (induction es)
  case (Cons e es)
  have nm: "fst e \<noteq> ''.''" "fst e \<noteq> ''..''" using Cons.prems(1) [of e] by (simp_all add: name_ok_def)
  have st: "s_lstat root p (fst e) = Some (snd e)"
    using Cons.prems(1) [of e] resolve_name(1) [of "fst e" root p "snd e"] by (simp add: s_lstat_def)
  have "tree_entries sub root indent (map fst es) p = Some (tree_text indent (Dir r x es), p)"
    using Cons.prems by (intro Cons.IH) auto
  then show ?case
    using nm st Cons.prems(2) [of e] by (cases "snd e") simp_all
qed simp

text \<open>
  On a readable tree \<open>tree.c\<close> prints every entry once, indented by two more units per
  directory and with a bar after each directory, and the recursion comes back to the parent of
  the directory it was called on.
\<close>

lemma print_tree_prints:
  assumes "wf_node t" "all_readable t" "height t \<le> fuel" "is_dir (Some t)"
    and "resolve root cwd dirname = Some p" "lookup root p = Some t"
  shows "print_tree fuel root indent dirname cwd = Some (tree_text indent t, butlast p)"
  using assms
proof (induction fuel arbitrary: t indent dirname cwd p)
  case 0
  then show ?case by (cases t) auto
next
  case (Suc fuel)
  obtain r x es where t: "t = Dir r x es" using Suc.prems(4) by (cases t) auto
  have rx: "r" "x" "distinct (map fst es)" using Suc.prems(1,2) t by auto
  have at: "lookup root p = Some (Dir r True es)" using Suc.prems(6) t rx by simp
  have od: "s_opendir root cwd dirname = Some ([''.'', ''..''] @ map fst es)"
    using Suc.prems(5,6) t rx by (simp add: s_opendir_def s_lstat_def)
  have cd: "s_chdir root cwd dirname = Some p" using Suc.prems(5) at by (simp add: s_chdir_def)
  have ch: "name_ok (fst e) \<and> lookup root (p @ [fst e]) = Some (snd e)" if "e \<in> set es" for e
    using that Suc.prems(1) t lookup_child [OF at rx(3), of "fst e" "snd e"] by auto
  have sub: "print_tree fuel root (indent + 2) (fst e) p = Some (tree_text (indent + 2) (snd e), p)"
    if e: "e \<in> set es" and d: "is_dir (Some (snd e))" for e
  proof -
    have "print_tree fuel root (indent + 2) (fst e) p = Some (tree_text (indent + 2) (snd e), butlast (p @ [fst e]))"
    proof (rule Suc.IH)
      show "wf_node (snd e)" "all_readable (snd e)" using Suc.prems(1,2) t e by auto
      show "height (snd e) \<le> fuel" using height_entry [OF e, of r x] Suc.prems(3) t by simp
      show "resolve root p (fst e) = Some (p @ [fst e])" using ch [OF e] by (auto intro: resolve_name)
      show "lookup root (p @ [fst e]) = Some (snd e)" using ch [OF e] by simp
    qed (rule d)
    then show ?thesis by simp
  qed
  have "tree_entries (print_tree fuel root (indent + 2)) root indent (map fst es) p = Some (tree_text indent t, p)"
    unfolding t using ch sub by (rule tree_entries_text)
  then show ?case using od cd chdir_up [OF at] by simp
qed

lemma print_tree_prints_witness:
  "print_tree 2 sample_tree 1 ''.'' []
     = Some (''| _a'' @ [NL] @ ''| _| _| _f'' @ [NL] @ ''|'' @ [NL] @ ''| _b'' @ [NL], [])"
proof -
  have "wf_node sample_tree" "all_readable sample_tree" "height sample_tree \<le> 2" "is_dir (Some sample_tree)"
    "resolve sample_tree [] ''.'' = Some []" "lookup sample_tree [] = Some sample_tree"
    "tree_text 1 sample_tree = ''| _a'' @ [NL] @ ''| _| _| _f'' @ [NL] @ ''|'' @ [NL] @ ''| _b'' @ [NL]"
    by (simp_all add: name_ok_def sample_tree_def resolve_def resolve_comp_def numeral_3_eq_3)
  then show ?thesis using print_tree_prints [of sample_tree 2 sample_tree "[]" "''.''" "[]" 1] by simp
qed
end
