(* ===== verification/Daemon.thy ===== *)
theory Daemon
  imports Proc_Report
begin

text \<open>
  The daemon of \<open>lab_05_deamon/daemon.c\<close>: \<open>daemonize\<close> on an explicit descriptor table,
  \<open>already_running\<close> on the lock file, \<open>main\<close>, the signal thread \<open>thr_fn\<close> with \<open>reread\<close>, and
  the main loop, as a state machine over the events a daemon sees.
\<close>

section \<open>State\<close>

text \<open>What is open at each descriptor; \<open>None\<close> is a closed one.\<close>

type_synonym fd_table = "string option list"

fun lowest_free :: "fd_table \<Rightarrow> nat" where
  "lowest_free [] = 0"
| "lowest_free (None # fs) = 0"
| "lowest_free (Some f # fs) = Suc (lowest_free fs)"

definition fd_put :: "string \<Rightarrow> fd_table \<Rightarrow> nat \<times> fd_table" where
  "fd_put f fs = (let n = lowest_free fs in (n, if n < length fs then fs[n := Some f] else fs @ [Some f]))"

definition fd_close :: "nat \<Rightarrow> fd_table \<Rightarrow> fd_table" where
  "fd_close i fs = (if i < length fs then fs[i := None] else fs)"

definition fd_get :: "fd_table \<Rightarrow> nat \<Rightarrow> string option" where
  "fd_get fs i = (if i < length fs then fs ! i else None)"

definition fd_dup :: "nat \<Rightarrow> fd_table \<Rightarrow> int \<times> fd_table" where
  "fd_dup i fs = (case fd_get fs i of None \<Rightarrow> (- 1, fs) | Some f \<Rightarrow> (let (n, fs') = fd_put f fs in (int n, fs')))"

datatype hup = HupDefault | HupIgnored

datatype d_log = Log_fd string | Log_no_lock | Log_fcntl | Log_running
  | Log_reread | Log_conf_open | Log_conf_read | Log_user int string | Log_term | Log_signal nat
  | Log_sigwait | Log_time nat

record daemon =
  d_umask :: nat
  d_session :: bool
  d_hup :: hup
  d_cwd :: string
  d_fds :: fd_table
  d_ident :: string
  d_blocked :: bool
  d_thread :: bool
  d_log :: "d_log list"

text \<open>What survives a process: the lock file with its contents.\<close>

record system =
  sy_lock :: "string option"

section \<open>Starting\<close>

datatype rlimit = Limit nat | Infinity
datatype fork_result = Fork_fails | In_parent | In_child
datatype lock_result = Lock_ok | Lock_busy | Lock_error

text \<open>The outcomes of the calls that can fail.\<close>

record d_env =
  e_rlimit :: "rlimit option"
  e_fork :: fork_result
  e_setsid :: bool
  e_hup1 :: bool
  e_chdir :: bool
  e_null :: bool
  e_lock_open :: bool
  e_lock :: lock_result
  e_emptyset :: bool
  e_hup2 :: bool
  e_fillset :: bool
  e_sigmask :: int
  e_thread :: int
  e_pid :: nat

definition rlim_max :: "rlimit \<Rightarrow> nat" where
  "rlim_max rl = (case rl of Infinity \<Rightarrow> 1024 | Limit n \<Rightarrow> n)"

definition LOCKFILE :: string where "LOCKFILE = ''/var/run/daemon.pid''"

text \<open>\<open>Inl c\<close>: the process ends with \<open>exit(c)\<close>, with what it has logged.\<close>

definition daemonize :: "string \<Rightarrow> d_env \<Rightarrow> daemon \<Rightarrow> (int \<times> d_log list) + daemon" where
  "daemonize cmd env d = (let d = d\<lparr>d_umask := 0\<rparr> in
     case e_rlimit env of
       None \<Rightarrow> Inl (1, d_log d)
     | Some rl \<Rightarrow>
       (case e_fork env of
          Fork_fails \<Rightarrow> Inl (1, d_log d)
        | In_parent \<Rightarrow> Inl (0, d_log d)
        | In_child \<Rightarrow>
          if \<not> e_setsid env then Inl (1, d_log d) else
          let d = d\<lparr>d_session := True\<rparr> in
          if \<not> e_hup1 env then Inl (1, d_log d) else
          let d = d\<lparr>d_hup := HupIgnored\<rparr> in
          if \<not> e_chdir env then Inl (1, d_log d) else
          let d = d\<lparr>d_cwd := ''/'', d_fds := fold fd_close [0..<rlim_max rl] (d_fds d)\<rparr>;
              (fd0, fs) = (if e_null env then let (n, fs) = fd_put ''/dev/null'' (d_fds d) in (int n, fs)
                           else (- 1, d_fds d));
              (fd1, fs) = fd_dup 0 fs;
              (fd2, fs) = fd_dup 0 fs;
              d = d\<lparr>d_fds := fs, d_ident := cmd\<rparr> in
          if fd0 \<noteq> 0 then Inl (1, d_log d @ [Log_fd ''stdin''])
          else if fd1 \<noteq> 1 then Inl (1, d_log d @ [Log_fd ''stdout''])
          else if fd2 \<noteq> 2 then Inl (1, d_log d @ [Log_fd ''stderr''])
          else Inr d))"

text \<open>\<open>already_running\<close>: an exit, or the result and the new state.\<close>

definition already_running ::
  "d_env \<Rightarrow> daemon \<Rightarrow> system \<Rightarrow> ((int \<times> d_log list) + (bool \<times> daemon)) \<times> system" where
  "already_running env d sys =
     (if sy_lock sys \<noteq> None \<or> \<not> e_lock_open env then (Inl (1, d_log d @ [Log_no_lock]), sys)
      else let (fd, fs) = fd_put LOCKFILE (d_fds d); sys = sys\<lparr>sy_lock := Some []\<rparr> in
        case e_lock env of
          Lock_busy \<Rightarrow> (Inr (True, d\<lparr>d_fds := fd_close fd fs\<rparr>), sys)
        | Lock_error \<Rightarrow> (Inl (1, d_log d @ [Log_fcntl]), sys)
        | Lock_ok \<Rightarrow> (Inr (False, d\<lparr>d_fds := fs\<rparr>), sys\<lparr>sy_lock := Some (show_dec (e_pid env) @ [NUL])\<rparr>))"

text \<open>
  \<open>main\<close> up to its loop.  \<open>pthread_sigmask\<close> and \<open>pthread_create\<close> report an error by a
  positive number; the tests for -1 are those of the source.
\<close>

definition daemon_cmd :: "string \<Rightarrow> string" where
  "daemon_cmd argv0 = (case strrchr_slash argv0 of None \<Rightarrow> argv0 | Some s \<Rightarrow> drop 1 s)"

definition daemon_main :: "string \<Rightarrow> d_env \<Rightarrow> daemon \<Rightarrow> system \<Rightarrow> ((int \<times> d_log list) + daemon) \<times> system" where
  "daemon_main argv0 env d sys =
     (case daemonize (daemon_cmd argv0) env d of
        Inl e \<Rightarrow> (Inl e, sys)
      | Inr d \<Rightarrow>
        (case already_running env d sys of
           (Inl e, sys) \<Rightarrow> (Inl e, sys)
         | (Inr (True, d), sys) \<Rightarrow> (Inl (1, d_log d @ [Log_running]), sys)
         | (Inr (False, d), sys) \<Rightarrow>
             if \<not> e_emptyset env then (Inl (1, d_log d), sys)
             else if \<not> e_hup2 env then (Inl (1, d_log d), sys)
             else let d = d\<lparr>d_hup := HupDefault\<rparr> in
             if \<not> e_fillset env then (Inl (1, d_log d), sys)
             else if e_sigmask env = - 1 then (Inl (1, d_log d), sys)
             else let d = d\<lparr>d_blocked := (e_sigmask env = 0)\<rparr> in
             if e_thread env = - 1 then (Inl (1, d_log d), sys)
             else (Inr (d\<lparr>d_thread := (e_thread env = 0)\<rparr>), sys)))"

section \<open>Running\<close>

text \<open>The configuration file: it cannot be opened, cannot be read, or holds a text.\<close>

datatype config = No_file | Unreadable | Text string

definition reread :: "config \<Rightarrow> d_log" where
  "reread conf = (case conf of
     No_file \<Rightarrow> Log_conf_open
   | Unreadable \<Rightarrow> Log_conf_read
   | Text s \<Rightarrow> (case fscanf [Ld, Str 128] (upto_nul (take 127 s)) of
       [FInt uid, FStr uname] \<Rightarrow> Log_user uid uname
     | _ \<Rightarrow> Log_conf_read))"

datatype d_event = Sig_hup config | Sig_term | Sig_other nat | Sigwait_fails | Tick nat | Sig_kill

definition d_say :: "d_log list \<Rightarrow> daemon \<Rightarrow> daemon" where
  "d_say ls d = d\<lparr>d_log := d_log d @ ls\<rparr>"

text \<open>
  One turn of \<open>thr_fn\<close>: a signal that \<open>sigwait\<close> takes.  The case of SIGTERM ends the thread;
  the other cases go on.
\<close>

definition thr_fn :: "d_event \<Rightarrow> daemon \<Rightarrow> int + daemon" where
  "thr_fn ev d = (case ev of
     Sigwait_fails \<Rightarrow> Inl 1
   | Sig_hup conf \<Rightarrow> Inr (d_say [Log_reread, reread conf] d)
   | Sig_term \<Rightarrow> Inr ((d_say [Log_term] d)\<lparr>d_thread := False\<rparr>)
   | Sig_other n \<Rightarrow> Inr (d_say [Log_signal n] d)
   | _ \<Rightarrow> Inr d)"

text \<open>
  The process: the main loop logs the time, the thread takes the blocked signals; without the
  thread a blocked signal stays pending.  A signal that is not blocked has its default action
  (128 + 15 or 128 + 1 stands for the death by SIGTERM or SIGHUP), and SIGKILL always has.
\<close>

definition daemon_step :: "d_event \<Rightarrow> daemon \<Rightarrow> int + daemon" where
  "daemon_step ev d = (case ev of
     Tick t \<Rightarrow> Inr (d_say [Log_time t] d)
   | Sig_kill \<Rightarrow> Inl 137
   | Sigwait_fails \<Rightarrow> if d_thread d then thr_fn ev d else Inr d
   | _ \<Rightarrow>
       if \<not> d_blocked d then Inl (case ev of Sig_term \<Rightarrow> 143 | Sig_hup _ \<Rightarrow> 129 | _ \<Rightarrow> 128)
       else if d_thread d then thr_fn ev d else Inr d)"

fun daemon_run :: "d_event list \<Rightarrow> daemon \<Rightarrow> int + daemon" where
  "daemon_run [] d = Inr d"
| "daemon_run (ev # evs) d = (case daemon_step ev d of Inl c \<Rightarrow> Inl c | Inr d' \<Rightarrow> daemon_run evs d')"

section \<open>Descriptors\<close>

lemma fd_get_Cons: "fd_get (f # fs) i = (case i of 0 \<Rightarrow> f | Suc k \<Rightarrow> fd_get fs k)"
  by (simp add: fd_get_def split: nat.split)

lemma lowest_free_spec: "fd_get fs (lowest_free fs) = None \<and> (j < lowest_free fs \<longrightarrow> fd_get fs j \<noteq> None)"
proof (induction fs arbitrary: j rule: lowest_free.induct)
  case (3 f fs)
  then show ?case by (cases j) (simp_all add: fd_get_Cons)
qed (simp_all add: fd_get_def)

lemma lowest_free_eqI:
  assumes "fd_get fs k = None" "\<And>j. j < k \<Longrightarrow> fd_get fs j \<noteq> None"
  shows "lowest_free fs = k"
  using lowest_free_spec [of fs] assms by (metis linorder_neqE_nat)

lemma lowest_free_le: "lowest_free fs \<le> length fs"
  by (induction fs rule: lowest_free.induct) simp_all

lemma fd_get_put: "fd_get (snd (fd_put f fs)) i = (if i = lowest_free fs then Some f else fd_get fs i)"
  using lowest_free_le [of fs] by (auto simp: fd_put_def fd_get_def Let_def nth_append)

lemma fst_fd_put: "fst (fd_put f fs) = lowest_free fs"
  by (simp add: fd_put_def Let_def)

lemma fd_get_close: "fd_get (fd_close j fs) i = (if i = j then None else fd_get fs i)"
  by (auto simp: fd_close_def fd_get_def)

lemma fd_get_close_all: "fd_get (fold fd_close [0..<n] fs) i = (if i < n then None else fd_get fs i)"
  by (induction n) (auto simp: fd_get_close)

lemma fd_dup_zero:
  assumes "fd_get fs 0 = Some f"
  shows "fd_dup 0 fs = (int (lowest_free fs), snd (fd_put f fs))"
  using assms fst_fd_put [of f fs] by (cases "fd_put f fs") (simp add: fd_dup_def)

text \<open>
  With the first three descriptors closed, the three calls that follow give descriptors 0, 1 and 2,
  all on \<open>/dev/null\<close>.
\<close>

lemma std_fds:
  fixes fs :: fd_table
  assumes closed: "\<And>i. i < 3 \<Longrightarrow> fd_get fs i = None"
  obtains fs1 fs2 fs3 where "fd_put ''/dev/null'' fs = (0, fs1)" "fd_dup 0 fs1 = (1, fs2)" "fd_dup 0 fs2 = (2, fs3)"
    "\<And>i. fd_get fs3 i = (if i < 3 then Some ''/dev/null'' else fd_get fs i)"
proof -
  define fs1 where "fs1 = snd (fd_put ''/dev/null'' fs)"
  define fs2 where "fs2 = snd (fd_put ''/dev/null'' fs1)"
  define fs3 where "fs3 = snd (fd_put ''/dev/null'' fs2)"
  have l0: "lowest_free fs = 0" using closed by (intro lowest_free_eqI) simp_all
  have g1: "fd_get fs1 i = (if i = 0 then Some ''/dev/null'' else fd_get fs i)" for i
    by (simp add: fs1_def fd_get_put l0)
  have l1: "lowest_free fs1 = 1" by (rule lowest_free_eqI) (simp_all add: g1 closed)
  have g2: "fd_get fs2 i = (if i < 2 then Some ''/dev/null'' else fd_get fs i)" for i
    by (auto simp: fs2_def fd_get_put l1 g1 less_2_cases_iff)
  have l2: "lowest_free fs2 = 2" by (rule lowest_free_eqI) (simp_all add: g2 closed)
  have "fd_put ''/dev/null'' fs = (0, fs1)"
    using fst_fd_put [of "''/dev/null''" fs] l0 by (simp add: fs1_def prod_eq_iff)
  moreover have "fd_dup 0 fs1 = (1, fs2)" using fd_dup_zero [of fs1] by (simp add: g1 l1 fs2_def)
  moreover have "fd_dup 0 fs2 = (2, fs3)" using fd_dup_zero [of fs2] by (simp add: g2 l2 fs3_def)
  moreover have "fd_get fs3 i = (if i < 3 then Some ''/dev/null'' else fd_get fs i)" for i
    by (auto simp: fs3_def fd_get_put l2 g2)
  ultimately show thesis by (rule that)
qed

lemma daemonize_child:
  assumes "e_rlimit env = Some rl" "3 \<le> rlim_max rl" "e_fork env = In_child" "e_setsid env" "e_hup1 env"
    "e_chdir env" "e_null env"
  obtains d' where "daemonize cmd env d = Inr d'" "d_umask d' = 0" "d_session d'" "d_cwd d' = ''/''"
    "d_hup d' = HupIgnored" "d_log d' = d_log d" "d_blocked d' = d_blocked d"
    "\<And>i. fd_get (d_fds d') i = (if i < 3 then Some ''/dev/null''
       else if i < rlim_max rl then None else fd_get (d_fds d) i)"
proof -
  let ?fs = "fold fd_close [0..<rlim_max rl] (d_fds d)"
  obtain fs1 fs2 fs3 where f: "fd_put ''/dev/null'' ?fs = (0, fs1)" "fd_dup 0 fs1 = (1, fs2)" "fd_dup 0 fs2 = (2, fs3)"
    "\<And>i. fd_get fs3 i = (if i < 3 then Some ''/dev/null'' else fd_get ?fs i)"
    using std_fds [of ?fs] assms(2) by (auto simp: fd_get_close_all)
  show thesis
  proof (rule that)
    show "daemonize cmd env d = Inr (d\<lparr>d_umask := 0, d_session := True, d_hup := HupIgnored, d_cwd := ''/'',
        d_fds := fs3, d_ident := cmd\<rparr>)"
      using assms f(1-3) by (simp add: daemonize_def Let_def)
    show "fd_get (d_fds (d\<lparr>d_umask := 0, d_session := True, d_hup := HupIgnored, d_cwd := ''/'',
        d_fds := fs3, d_ident := cmd\<rparr>)) i = (if i < 3 then Some ''/dev/null''
       else if i < rlim_max rl then None else fd_get (d_fds d) i)" for i
      by (simp add: f(4) fd_get_close_all)
  qed simp_all
qed

section \<open>The lock file\<close>

lemma already_running_locked:
  "sy_lock sys \<noteq> None \<Longrightarrow> already_running env d sys = (Inl (1, d_log d @ [Log_no_lock]), sys)"
  by (simp add: already_running_def)

lemma daemonize_exit: "daemonize cmd env d = Inl (c, ls) \<Longrightarrow> c = 0 \<longleftrightarrow> e_rlimit env \<noteq> None \<and> e_fork env = In_parent"
  by (auto simp: daemonize_def Let_def split: option.splits fork_result.splits if_splits prod.splits)

lemma daemon_main_locked:
  assumes "sy_lock sys \<noteq> None" "e_fork env = In_child"
  shows "\<exists>ls. daemon_main argv0 env d sys = (Inl (1, ls), sys)"
proof (cases "daemonize (daemon_cmd argv0) env d")
  case (Inl e)
  obtain c ls where e: "e = (c, ls)" by (cases e)
  have "c = 1"
    using Inl assms(2) unfolding e
    by (auto simp: daemonize_def Let_def split: option.splits if_splits prod.splits)
  then show ?thesis using Inl e by (simp add: daemon_main_def)
next
  case (Inr d')
  then show ?thesis using assms(1) by (simp add: daemon_main_def already_running_locked)
qed

text \<open>
  (C11) A start that reaches the main loop leaves its process number in the lock file, has
  descriptors 0, 1 and 2 on \<open>/dev/null\<close> and the lock file on 3 and nothing else below the limit;
  nothing the daemon does later removes the file, so every later start, even after the daemon has
  ended, exits with 1.
\<close>

theorem daemon_starts_once:
  assumes "e_rlimit env = Some rl" "4 \<le> rlim_max rl" "daemon_main argv0 env d sys = (Inr d', sys')"
  shows "sy_lock sys = None \<and> sy_lock sys' = Some (show_dec (e_pid env) @ [NUL])
    \<and> fd_get (d_fds d') i = (if i < 3 then Some ''/dev/null'' else if i = 3 then Some LOCKFILE
         else if i < rlim_max rl then None else fd_get (d_fds d) i)
    \<and> d_session d' \<and> d_cwd d' = ''/'' \<and> d_hup d' = HupDefault
    \<and> (e_fork env2 = In_child \<longrightarrow> (\<exists>ls. daemon_main argv2 env2 d2 sys' = (Inl (1, ls), sys')))"
proof -
  obtain d1 where d1: "daemonize (daemon_cmd argv0) env d = Inr d1"
    using assms(3) by (auto simp: daemon_main_def split: sum.splits)
  then have calls: "e_fork env = In_child" "e_setsid env" "e_hup1 env" "e_chdir env" "e_null env"
    using assms(1)
    by (auto simp: daemonize_def Let_def fd_dup_def split: option.splits fork_result.splits if_splits prod.splits)
  have lim: "3 \<le> rlim_max rl" using assms(2) by simp
  obtain d0 where d0: "daemonize (daemon_cmd argv0) env d = Inr d0" "d_session d0" "d_cwd d0 = ''/''"
    "\<And>i. fd_get (d_fds d0) i = (if i < 3 then Some ''/dev/null''
       else if i < rlim_max rl then None else fd_get (d_fds d) i)"
    using daemonize_child [OF assms(1) lim calls] by blast
  then have same: "d0 = d1" using d1 by simp
  have lf: "lowest_free (d_fds d1) = 3"
    using assms(2) d0(4) unfolding same by (intro lowest_free_eqI) auto
  have free: "sy_lock sys = None"
    using assms(3) d1 by (auto simp: daemon_main_def already_running_def split: if_splits)
  obtain fs where fs: "fd_put LOCKFILE (d_fds d1) = (3, fs)"
    "\<And>i. fd_get fs i = (if i = 3 then Some LOCKFILE else fd_get (d_fds d1) i)"
    using fst_fd_put [of LOCKFILE "d_fds d1"] fd_get_put [of LOCKFILE "d_fds d1"] lf by (cases "fd_put LOCKFILE (d_fds d1)") auto
  have run: "already_running env d1 sys
      = (Inr (False, d1\<lparr>d_fds := fs\<rparr>), sys\<lparr>sy_lock := Some (show_dec (e_pid env) @ [NUL])\<rparr>)"
    using assms(3) d1 free fs(1)
    by (auto simp: daemon_main_def already_running_def Let_def split: if_splits lock_result.splits)
  then have out: "sys' = sys\<lparr>sy_lock := Some (show_dec (e_pid env) @ [NUL])\<rparr>" "d_fds d' = fs"
    "d_session d' = d_session d1" "d_cwd d' = d_cwd d1" "d_hup d' = HupDefault"
    using assms(3) d1 by (auto simp: daemon_main_def Let_def split: if_splits)
  then have "sy_lock sys' \<noteq> None" by simp
  then show ?thesis
    using free out fs(2) d0(2-4) daemon_main_locked [of sys' env2 argv2 d2] unfolding same by auto
qed

definition good_env :: d_env where
  "good_env = \<lparr>e_rlimit = Some (Limit 8), e_fork = In_child, e_setsid = True, e_hup1 = True, e_chdir = True,
     e_null = True, e_lock_open = True, e_lock = Lock_ok, e_emptyset = True, e_hup2 = True, e_fillset = True,
     e_sigmask = 0, e_thread = 0, e_pid = 7\<rparr>"

definition fresh_proc :: daemon where
  "fresh_proc = \<lparr>d_umask = 18, d_session = False, d_hup = HupDefault, d_cwd = ''/home'',
     d_fds = [Some ''tty'', Some ''tty'', Some ''tty''], d_ident = [], d_blocked = False, d_thread = False, d_log = []\<rparr>"

lemma good_start:
  "\<exists>d'. daemon_main ''/x/daemon'' good_env fresh_proc \<lparr>sy_lock = None\<rparr> = (Inr d', \<lparr>sy_lock = Some ([CHR ''7'', NUL])\<rparr>)
     \<and> d_blocked d' \<and> d_thread d'"
proof -
  have lim: "e_rlimit good_env = Some (Limit 8)" "3 \<le> rlim_max (Limit 8)" by (simp_all add: good_env_def rlim_max_def)
  obtain d1 where "daemonize (daemon_cmd ''/x/daemon'') good_env fresh_proc = Inr d1"
    using daemonize_child [OF lim, of "daemon_cmd ''/x/daemon''" fresh_proc] by (auto simp: good_env_def)
  moreover have "show_dec 7 = ''7''"
    by (simp add: show_base_def digs.simps [of 10 7] digit_char_values)
  ultimately show ?thesis
    by (simp add: daemon_main_def already_running_def Let_def good_env_def split: prod.split)
qed

theorem daemon_starts_once_witness:
  "\<exists>d'. daemon_main ''/x/daemon'' good_env fresh_proc \<lparr>sy_lock = None\<rparr> = (Inr d', \<lparr>sy_lock = Some ([CHR ''7'', NUL])\<rparr>)
     \<and> fd_get (d_fds d') 3 = Some LOCKFILE
     \<and> (\<exists>ls. daemon_main ''/x/daemon'' good_env fresh_proc \<lparr>sy_lock = Some ([CHR ''7'', NUL])\<rparr>
          = (Inl (1, ls), \<lparr>sy_lock = Some ([CHR ''7'', NUL])\<rparr>))"
proof -
  obtain d' where d': "daemon_main ''/x/daemon'' good_env fresh_proc \<lparr>sy_lock = None\<rparr>
      = (Inr d', \<lparr>sy_lock = Some ([CHR ''7'', NUL])\<rparr>)" using good_start by blast
  have lim: "e_rlimit good_env = Some (Limit 8)" "4 \<le> rlim_max (Limit 8)" by (simp_all add: good_env_def rlim_max_def)
  have "e_fork good_env = In_child" by (simp add: good_env_def)
  then show ?thesis
    using daemon_starts_once [OF lim d', of 3 good_env "''/x/daemon''" fresh_proc] d' by auto
qed

section \<open>Signals\<close>

text \<open>
  Once running with its signals blocked, the daemon answers every SIGHUP by rereading its
  configuration; SIGTERM ends only the signal thread: from then on every signal but SIGKILL is
  left pending, and the process goes on logging the time for ever.
\<close>

lemma daemon_outlives_sigterm:
  assumes "d_blocked d" "d_thread d"
    and "list_all (\<lambda>ev. ev \<noteq> Sig_kill \<and> ev \<noteq> Sigwait_fails) evs"
  shows "daemon_step (Sig_hup conf) d = Inr (d_say [Log_reread, reread conf] d)
    \<and> daemon_run (Sig_term # evs) d = Inr ((d_say ([Log_term] @ concat (map (\<lambda>ev. case ev of Tick t \<Rightarrow> [Log_time t] | _ \<Rightarrow> []) evs)) d)\<lparr>d_thread := False\<rparr>)"
proof
  have pending: "daemon_run evs u = Inr (d_say (concat (map (\<lambda>ev. case ev of Tick t \<Rightarrow> [Log_time t] | _ \<Rightarrow> []) evs)) u)"
    if "d_blocked u" "\<not> d_thread u" for u
    using assms(3) that
  proof (induction evs arbitrary: u)
    case (Cons ev evs)
    then show ?case by (cases ev) (simp_all add: daemon_step_def d_say_def)
  qed (simp add: d_say_def)
  have "daemon_step Sig_term d = Inr ((d_say [Log_term] d)\<lparr>d_thread := False\<rparr>)"
    using assms(1,2) by (simp add: daemon_step_def thr_fn_def)
  then show "daemon_run (Sig_term # evs) d
      = Inr ((d_say ([Log_term] @ concat (map (\<lambda>ev. case ev of Tick t \<Rightarrow> [Log_time t] | _ \<Rightarrow> []) evs)) d)\<lparr>d_thread := False\<rparr>)"
    using pending [of "(d_say [Log_term] d)\<lparr>d_thread := False\<rparr>"] assms(1) by (simp add: d_say_def)
qed (use assms in \<open>simp add: daemon_step_def thr_fn_def\<close>)

lemma daemon_outlives_sigterm_witness:
  "daemon_run [Sig_term, Tick 5, Sig_term, Sig_hup No_file, Tick 10] (fresh_proc\<lparr>d_blocked := True, d_thread := True\<rparr>)
     = Inr (fresh_proc\<lparr>d_blocked := True, d_thread := False, d_log := [Log_term, Log_time 5, Log_time 10]\<rparr>)"
  using daemon_outlives_sigterm [of "fresh_proc\<lparr>d_blocked := True, d_thread := True\<rparr>"
    "[Tick 5, Sig_term, Sig_hup No_file, Tick 10]" No_file]
  by (simp add: fresh_proc_def d_say_def)

text \<open>A configuration line of a number and a name is read back and reported.\<close>

lemma reread_reports:
  assumes "- (2 ^ 63) \<le> uid" "uid < 2 ^ 63" "name \<noteq> []" "list_all (\<lambda>c. \<not> is_space c) name" "NUL \<notin> set name"
    and "length (show_int uid) + length name + 2 \<le> 127"
  shows "reread (Text (show_int uid @ BLANK # name @ [NL])) = Log_user uid name"
proof -
  have digit: "c \<noteq> NUL" if "c \<in> set (show_dec n)" for c n
  proof -
    from that obtain k where k: "k \<in> set (digs 10 n)" "c = digit_char k" by (auto simp: show_base_def)
    then have "k < 10" using digs_less [of 10 k n] by simp
    then have "is_dec c" using k(2) by (simp add: digit_char_class)
    then show ?thesis by (auto simp: is_dec_def)
  qed
  then have "NUL \<notin> set (show_int uid)" by (auto simp: show_int_def)
  then have "upto_nul (show_int uid @ BLANK # name @ [NL]) = show_int uid @ BLANK # name @ [NL]"
    using assms(5) unfolding upto_nul_def by (subst takeWhile_eq_all_conv) auto
  moreover have "take 127 (show_int uid @ BLANK # name @ [NL]) = show_int uid @ BLANK # name @ [NL]"
    using assms(6) by simp
  moreover have "fscanf ([Ld, Str 128] @ []) (stat_text [FInt uid, FStr name]) = [FInt uid, FStr name]"
    using assms by (intro fscanf_stat_text) simp_all
  ultimately show ?thesis by (simp add: reread_def)
qed
end
