(* ===== verification/Unix_Labs.thy ===== *)
theory Unix_Labs
  imports Proc_Report Wait_Status
begin

text \<open>
  The process programs of \<open>lab_02_unix\<close>: the two programs that \<open>exec.c\<close> starts (a cyclic shift and
  the removal of squares from an array), the loop that waits for two children, and the pipes of
  \<open>pipe.c\<close> and \<open>signal.c\<close>, whose result depends on the order in which the children write.
  \<open>None\<close> is undefined behaviour.
\<close>

section \<open>first\_prog.c\<close>

definition cyclic_shift_left :: "c_int \<Rightarrow> int \<Rightarrow> c_int option" where
  "cyclic_shift_left a n = (if 0 \<le> n \<and> n < 32 \<and> 0 \<le> 32 - n \<and> 32 - n < 32
     then Some (push_bit (nat n) a OR drop_bit (nat (32 - n)) a) else None)"

definition print_bin :: "c_int \<Rightarrow> string" where
  "print_bin num = map (\<lambda>i. if drop_bit i num AND 1 = 1 then CHR ''1'' else CHR ''0'') (rev [0..<32]) @ [NL]"

text \<open>The main program on its input: the return value and the line of the result.\<close>

definition first_prog_main :: "string \<Rightarrow> (int \<times> string) option" where
  "first_prog_main input = (case scan_conv Du input of
     Some (FInt a, r) \<Rightarrow> (case scan_conv Dd r of
         Some (FInt n, _) \<Rightarrow> if n < 0 then Some (1, [])
           else map_option (\<lambda>result. (0, print_bin result)) (cyclic_shift_left (word_of_int a) n)
       | _ \<Rightarrow> Some (1, []))
   | _ \<Rightarrow> Some (1, []))"

section \<open>second\_prog.c\<close>

text \<open>
  \<open>(int)sqrt(number)\<close>: the square root of a 32-bit number in double precision is exact enough
  for its integer part; the conversion of the NaN of a negative number is undefined.
\<close>

fun isqrt_from :: "nat \<Rightarrow> nat \<Rightarrow> nat \<Rightarrow> nat" where
  "isqrt_from 0 m n = m"
| "isqrt_from (Suc k) m n = (if n < (m + 1) * (m + 1) then m else isqrt_from k (m + 1) n)"

definition isqrt :: "nat \<Rightarrow> nat" where
  "isqrt n = isqrt_from n 0 n"

definition is_full_square :: "int \<Rightarrow> bool option" where
  "is_full_square number = (if number < 0 then None
     else Some (isqrt (nat number) * isqrt (nat number) = nat number))"

fun square_loop :: "nat list \<Rightarrow> nat \<Rightarrow> int list \<Rightarrow> (nat \<times> int list) option" where
  "square_loop [] c a = Some (c, a)"
| "square_loop (i # is) c a = (case is_full_square (a ! i) of
     None \<Rightarrow> None
   | Some True \<Rightarrow> square_loop is (c + 1) a
   | Some False \<Rightarrow> square_loop is c (a[i - c := a ! i]))"

definition remove_full_square :: "int list \<Rightarrow> nat \<Rightarrow> (nat \<times> int list) option" where
  "remove_full_square a alen = map_option (\<lambda>(c, a). (alen - c, a)) (square_loop [0..<alen] 0 a)"

fun input_array :: "nat list \<Rightarrow> int list \<Rightarrow> string \<Rightarrow> int list option" where
  "input_array [] a s = Some a"
| "input_array (i # is) a s = (case scan_conv Dd s of
     Some (FInt k, r) \<Rightarrow> input_array is (a[i := k]) r
   | _ \<Rightarrow> None)"

definition print_array :: "int list \<Rightarrow> nat \<Rightarrow> string" where
  "print_array a n = concat (map (\<lambda>i. show_int (a ! i) @ [BLANK]) [0..<n]) @ [NL]"

definition second_prog_main :: "int list \<Rightarrow> string \<Rightarrow> (int \<times> string) option" where
  "second_prog_main garbage input = (case scan_conv Lu input of
     Some (FInt alen, r) \<Rightarrow>
       if alen > 10 then Some (1, [])
       else (case input_array [0..<nat alen] garbage r of
           None \<Rightarrow> Some (1, [])
         | Some a \<Rightarrow> map_option (\<lambda>(size, a). if size < 1 then (1, []) else (0, print_array a size))
             (remove_full_square a (nat alen)))
   | _ \<Rightarrow> Some (1, []))"

section \<open>Forking and waiting\<close>

text \<open>
  The two \<open>fork\<close>s: the process numbers of the children, or the exit after a failure with the
  children that exist by then.
\<close>

fun fork_loop :: "nat \<Rightarrow> int list \<Rightarrow> int list \<Rightarrow> int list + int list" where
  "fork_loop 0 results pids = Inr pids"
| "fork_loop (Suc n) [] pids = Inr pids"
| "fork_loop (Suc n) (r # rs) pids = (if r = - 1 then Inl pids else fork_loop n rs (pids @ [r]))"

text \<open>The loop over \<open>wait\<close>: the exit status and the reports printed.\<close>

fun wait_loop :: "nat \<Rightarrow> (int \<times> c_int) option list \<Rightarrow> (int \<times> report) list \<Rightarrow> int \<times> (int \<times> report) list" where
  "wait_loop 0 ws out = (0, out)"
| "wait_loop (Suc n) [] out = (1, out)"
| "wait_loop (Suc n) (w # ws) out = (case w of
     None \<Rightarrow> (1, out)
   | Some (child_pid, status) \<Rightarrow> wait_loop n ws (out @ [(child_pid, wait_report status)]))"

definition wait_main :: "int list \<Rightarrow> (int \<times> c_int) option list \<Rightarrow> int \<times> (int \<times> report) list" where
  "wait_main forks waits = (case fork_loop 2 forks [] of
     Inl _ \<Rightarrow> (1, [])
   | Inr pids \<Rightarrow> wait_loop 2 waits [])"

section \<open>pipe.c and signal.c\<close>

definition pipe_msg :: "nat \<Rightarrow> string" where
  "pipe_msg i = [''aaaaa'', ''bbbbbbbbb'', []] ! i"

definition signal_msg :: "nat \<Rightarrow> string" where
  "signal_msg i = [''aaaaa'', ''bbbbbbbbbbb''] ! i"

text \<open>
  Reading: the bytes overwrite the beginning of \<open>buf\<close>; \<open>%s\<close> needs a NUL inside it.  Each read
  asks for the length that belongs to its index; \<open>buf[0]\<close> is cleared after each line.
\<close>

definition printable :: "string \<Rightarrow> string option" where
  "printable buf = (if NUL \<in> set buf then Some (upto_nul buf) else None)"

fun read_loop :: "nat list \<Rightarrow> string \<Rightarrow> string \<Rightarrow> (nat \<times> string) list option" where
  "read_loop [] pipe buf = Some []"
| "read_loop (n # ns) pipe buf = (let got = take n pipe; buf' = got @ drop (length got) buf in
     case printable buf' of
       None \<Rightarrow> None
     | Some s \<Rightarrow> map_option ((#) (length got, s)) (read_loop ns (drop n pipe) (buf'[0 := NUL])))"

text \<open>The children write in the order of \<open>order\<close>; a write of a few bytes to a pipe is atomic.\<close>

definition pipe_main :: "nat list \<Rightarrow> string \<Rightarrow> (nat \<times> string) list option" where
  "pipe_main order garbage = read_loop (map (\<lambda>i. length (pipe_msg i) + 1) [0..<3])
     (concat (map (\<lambda>i. pipe_msg i @ [NUL]) order)) garbage"

definition signal_main :: "bool \<Rightarrow> nat list \<Rightarrow> string \<Rightarrow> (nat \<times> string) list option" where
  "signal_main fl order garbage = read_loop (map (\<lambda>i. length (signal_msg i)) [0..<2])
     (if fl then concat (map signal_msg order) else []) garbage"

section \<open>Properties\<close>

text \<open>
  The cyclic shift is the rotation of the word for shifts from 1 to 31, and its printed
  digits, read as a binary number, are the result; the shifts 0 and 32 and more, which the input
  check lets through, are undefined.
\<close>

lemma cyclic_shift_rotates:
  "cyclic_shift_left a n = (if 0 < n \<and> n < 32 then Some (word_rotl (nat n) a) else None)
   \<and> horner_sum of_bool 2 (rev (map (\<lambda>c. c = CHR ''1'') (butlast (print_bin a)))) = a"
proof
  show "cyclic_shift_left a n = (if 0 < n \<and> n < 32 then Some (word_rotl (nat n) a) else None)"
  proof (cases "0 < n \<and> n < 32")
    case True
    define k where "k = nat n"
    have k: "0 < k" "k < 32" "nat (32 - n) = 32 - k" using True by (auto simp: k_def)
    have "push_bit k a OR drop_bit (32 - k) a = word_rotl k a"
    proof (rule bit_word_eqI)
      fix m assume m: "m < LENGTH(32)"
      have "bit (word_rotl k a) m \<longleftrightarrow> bit a (if k \<le> m then m - k else m + 32 - k)"
        using m k by (auto simp: bit_word_rotl_iff mod_if)
      also have "\<dots> \<longleftrightarrow> bit (push_bit k a OR drop_bit (32 - k) a) m"
        using m k by (auto simp: bit_or_iff bit_push_bit_iff bit_drop_bit_eq add.commute dest: bit_imp_le_length)
      finally show "bit (push_bit k a OR drop_bit (32 - k) a) m \<longleftrightarrow> bit (word_rotl k a) m" by simp
    qed
    then show ?thesis using True k by (simp add: cyclic_shift_left_def flip: k_def)
  next
    case False
    then show ?thesis by (auto simp: cyclic_shift_left_def)
  qed
  have "rev (map (\<lambda>c. c = CHR ''1'') (butlast (print_bin a))) = map (bit a) [0..<32]"
    by (simp add: print_bin_def rev_map [symmetric] bit_iff_and_drop_bit_eq_1 comp_def)
  then show "horner_sum of_bool 2 (rev (map (\<lambda>c. c = CHR ''1'') (butlast (print_bin a)))) = a"
    by (simp add: horner_sum_bit_eq_take_bit take_bit_word_eq_self)
qed

lemma isqrt_from_correct:
  "m * m \<le> n \<Longrightarrow> n < (m + k + 1) * (m + k + 1) \<Longrightarrow>
   isqrt_from k m n * isqrt_from k m n \<le> n \<and> n < (isqrt_from k m n + 1) * (isqrt_from k m n + 1)"
proof (induction k arbitrary: m)
  case (Suc k)
  show ?case
  proof (cases "n < (m + 1) * (m + 1)")
    case True
    then show ?thesis using Suc.prems by simp
  next
    case False
    then show ?thesis using Suc.prems Suc.IH [of "m + 1"] by simp
  qed
qed simp

lemma isqrt_correct: "isqrt n * isqrt n \<le> n \<and> n < (isqrt n + 1) * (isqrt n + 1)"
  unfolding isqrt_def by (rule isqrt_from_correct) simp_all

lemma is_full_square_iff: "0 \<le> k \<Longrightarrow> is_full_square k = Some (\<exists>m. k = m * m)"
proof -
  assume k: "0 \<le> k"
  have "(isqrt (nat k) * isqrt (nat k) = nat k) \<longleftrightarrow> (\<exists>m. k = m * m)"
  proof
    assume "isqrt (nat k) * isqrt (nat k) = nat k"
    then have "k = int (isqrt (nat k)) * int (isqrt (nat k))" using k by (metis int_nat_eq of_nat_mult)
    then show "\<exists>m. k = m * m" by blast
  next
    assume "\<exists>m. k = m * m"
    then obtain m where "k = m * m" by blast
    then have "nat k = nat \<bar>m\<bar> * nat \<bar>m\<bar>" by (metis abs_ge_zero abs_mult_self_eq nat_mult_distrib)
    moreover define a b where "a = nat \<bar>m\<bar>" and "b = isqrt (nat k)"
    ultimately have n: "nat k = a * a" by simp
    have "b * b \<le> a * a" "a * a < (b + 1) * (b + 1)"
      using isqrt_correct [of "nat k"] unfolding n b_def by simp_all
    then have "b \<le> a" "a < b + 1"
      using power2_nat_le_eq_le [of b a] power2_nat_le_eq_le [of "b + 1" a] by (simp_all add: power2_eq_square)
    then have "b = a" by simp
    then have "b * b = nat k" using n by simp
    then show "isqrt (nat k) * isqrt (nat k) = nat k" by (simp only: b_def)
  qed
  then show ?thesis using k by (simp add: is_full_square_def)
qed

lemma square_loop_filter:
  assumes "\<And>k. k \<in> set (take m (drop i a)) \<Longrightarrow> 0 \<le> k" "c \<le> i" "i + m \<le> length a"
  defines "kept \<equiv> filter (\<lambda>k. \<nexists>r. k = r * r) (take m (drop i a))"
  shows "\<exists>a'. square_loop [i..<i + m] c a = Some (c + (m - length kept), a') \<and> length a' = length a
    \<and> take (i - c + length kept) a' = take (i - c) a @ kept"
  using assms(1-3) unfolding kept_def
proof (induction m arbitrary: i c a)
  case (Suc m)
  have up: "[i..<i + Suc m] = i # [Suc i..<Suc i + m]" by (simp add: upt_rec)
  have xs: "take (Suc m) (drop i a) = a ! i # take m (drop (Suc i) a)"
    using Suc.prems(3) by (simp add: Cons_nth_drop_Suc [symmetric])
  let ?keep = "\<lambda>a. filter (\<lambda>k. \<nexists>r. k = r * r) (take m (drop (Suc i) a))"
  have short: "length (?keep b) \<le> m" for b :: "int list"
    by (rule le_trans [OF length_filter_le]) simp
  have sq: "is_full_square (a ! i) = Some (\<exists>r. a ! i = r * r)"
    using Suc.prems(1) [of "a ! i"] by (intro is_full_square_iff) (simp add: xs)
  have rest: "0 \<le> k" if "k \<in> set (take m (drop (Suc i) a))" for k using Suc.prems(1) [of k] that by (simp add: xs)
  show ?case
  proof (cases "\<exists>r. a ! i = r * r")
    case True
    obtain a' where "square_loop [Suc i..<Suc i + m] (c + 1) a = Some (c + 1 + (m - length (?keep a)), a')"
      "length a' = length a" "take (Suc i - (c + 1) + length (?keep a)) a' = take (Suc i - (c + 1)) a @ ?keep a"
      using Suc.IH [of "Suc i" a "c + 1"] rest Suc.prems(2,3) by auto
    then show ?thesis
      using True sq short [of a] unfolding up xs by (intro exI [of _ a']) (simp add: Suc_diff_le)
  next
    case False
    let ?a = "a[i - c := a ! i]"
    have same: "drop (Suc i) ?a = drop (Suc i) a" using Suc.prems(2) by (simp add: drop_update_cancel)
    obtain a' where "square_loop [Suc i..<Suc i + m] c ?a = Some (c + (m - length (?keep a)), a')"
      "length a' = length a" "take (Suc i - c + length (?keep a)) a' = take (Suc i - c) ?a @ ?keep a"
      using Suc.IH [of "Suc i" ?a c] rest Suc.prems(2,3) unfolding same by auto
    moreover have "take (Suc i - c) ?a = take (i - c) a @ [a ! i]"
      using Suc.prems(2,3) by (simp add: Suc_diff_le take_Suc_conv_app_nth)
    ultimately show ?thesis
      using False sq Suc.prems(2) unfolding up xs by (intro exI [of _ a']) (simp add: Suc_diff_le)
  qed
qed simp

text \<open>
  The in-place removal keeps exactly the elements that are not squares, in their order, and
  returns their number; a negative element makes it undefined.
\<close>

lemma remove_full_square_filters:
  assumes "alen \<le> length a" "list_all (\<lambda>k. 0 \<le> k) (take alen a)"
  shows "\<exists>a'. remove_full_square a alen = Some (length (filter (\<lambda>k. \<nexists>r. k = r * r) (take alen a)), a')
    \<and> take (length (filter (\<lambda>k. \<nexists>r. k = r * r) (take alen a))) a' = filter (\<lambda>k. \<nexists>r. k = r * r) (take alen a)"
proof -
  let ?kept = "filter (\<lambda>k. \<nexists>r. k = r * r) (take alen a)"
  have "length ?kept \<le> alen" by (rule le_trans [OF length_filter_le]) simp
  moreover obtain a' where "square_loop [0..<alen] 0 a = Some (alen - length ?kept, a')" "take (length ?kept) a' = ?kept"
    using square_loop_filter [of alen 0 a 0] assms by (auto simp: list_all_iff)
  ultimately show ?thesis by (simp add: remove_full_square_def)
qed

lemma remove_full_square_filters_witness:
  "\<exists>a'. remove_full_square [4, 5, 9, 6, 7] 4 = Some (2, a') \<and> take 2 a' = [5, 6]"
proof -
  have sq: "is_full_square 4 = Some True" "is_full_square 5 = Some False" "is_full_square 9 = Some True"
    "is_full_square 6 = Some False" by code_simp+
  have "filter (\<lambda>k. \<nexists>r. k = r * r) [4, 5, 9, 6 :: int] = [5, 6]"
    using sq by (simp add: is_full_square_iff del: ex_simps)
  then show ?thesis using remove_full_square_filters [of 4 "[4, 5, 9, 6, 7]"] by (simp add: numeral_2_eq_2)
qed

section \<open>The order of the children\<close>

text \<open>
  The pipe program prints both messages if the first child writes first.  In the other order the
  first read takes six of the ten bytes of the second message, without a NUL: the line shows what
  the buffer held, and the second line shows the rest of that message.
\<close>

lemma pipe_main_in_order:
  "length garbage = 10 \<Longrightarrow> pipe_main [0, 1] garbage = Some [(6, ''aaaaa''), (10, ''bbbbbbbbb''), (0, [])]"
  by (simp add: pipe_main_def pipe_msg_def upt_rec printable_def upto_nul_def eval_nat_numeral)

lemma pipe_main_out_of_order:
  "length garbage = 10 \<Longrightarrow> pipe_main [1, 0] garbage =
     (if NUL \<in> set (drop 6 garbage)
      then Some [(6, ''bbbbbb'' @ upto_nul (drop 6 garbage)), (10, ''bbb''), (0, [])] else None)"
  by (simp add: pipe_main_def pipe_msg_def upt_rec printable_def upto_nul_def eval_nat_numeral)

text \<open>
  The messages of the signal program carry no NUL at all: in either order its first line is
  defined only by the old contents of the buffer, also when nothing was written.
\<close>

lemma signal_main_needs_garbage:
  assumes "length garbage = 12" "NUL \<notin> set garbage"
  shows "signal_main fl [0, 1] garbage = None"
proof -
  have "NUL \<notin> set (drop n garbage)" for n using assms(2) by (auto dest: in_set_dropD)
  then show ?thesis
    using assms by (simp add: signal_main_def signal_msg_def upt_rec printable_def Let_def)
qed

text \<open>Waiting reports every child, in the order in which they end.\<close>

lemma wait_main_reports:
  assumes "p1 \<noteq> - 1" "p2 \<noteq> - 1" "unat c1 < 256" "unat c2 < 256"
  shows "wait_main [p1, p2] [Some (p2, wait_status (Exited c2)), Some (p1, wait_status (Exited c1))]
    = (0, [(p2, ReportExited c2), (p1, ReportExited c1)])"
  using assms by (simp add: wait_main_def numeral_2_eq_2 report_exited)
end
