(* ===== verification/Win_RW.thy ===== *)
theory Win_RW
  imports OS_Prelude
begin

text \<open>
  The Windows monitor of \<open>reader-writer_win/main.c\<close>: readers and writers over two auto-reset
  events, a mutex and three counters, one step per access to a shared variable or object.  A wait
  on an auto-reset event takes its signal away, so the two events and the threads inside pass
  one token around.
\<close>

section \<open>Threads and shared state\<close>

text \<open>The positions of a thread: the statements of \<open>reader\<close>, \<open>start_read\<close>, \<open>stop_read\<close> and of
  \<open>writer\<close>, \<open>start_write\<close>, \<open>stop_write\<close> in order.\<close>

datatype wpc =
    Rd_loop | Rd_inc | Rd_queue | Rd_try | Rd_wait | Rd_lock | Rd_active | Rd_dec | Rd_unlock
  | Rd_print | Rd_leave | Rd_signal
  | Wr_loop | Wr_inc | Wr_readers | Wr_try | Wr_wait | Wr_dec | Wr_test | Wr_count | Wr_break | Wr_reset
  | Wr_next | Wr_check | Wr_print | Wr_clear | Wr_signal
  | Finished

datatype win_line = WinWrite nat char | WinRead nat char | WinFinished nat

record win =
  can_read :: bool
  can_write :: bool
  bmutex :: "nat option"
  read_queue :: int
  write_queue :: int
  active_readers :: int
  symbol :: char
  win_cnt :: nat
  break_sent :: bool
  win_threads :: "wpc list"
  win_out :: "win_line list"

definition win_goto :: "nat \<Rightarrow> wpc \<Rightarrow> win \<Rightarrow> win" where
  "win_goto i pc s = s\<lparr>win_threads := (win_threads s)[i := pc]\<rparr>"

definition next_char :: "char \<Rightarrow> char" where
  "next_char c = char_of ((of_char c :: nat) + 1)"

text \<open>One step of thread \<open>i\<close>.\<close>

definition win_run :: "nat \<Rightarrow> win \<Rightarrow> win outcome" where
  "win_run i s = (let go = (\<lambda>pc s. Cont (win_goto i pc s)) in
     case win_threads s ! i of
       Rd_loop \<Rightarrow> if win_cnt s < 3 then go Rd_inc s
         else go Finished (s\<lparr>win_out := win_out s @ [WinFinished i]\<rparr>)
     | Rd_inc \<Rightarrow> go Rd_queue (s\<lparr>read_queue := read_queue s + 1\<rparr>)
     | Rd_queue \<Rightarrow> if write_queue s > 0 then go Rd_wait s else go Rd_try s
     | Rd_try \<Rightarrow> if can_write s then go Rd_lock (s\<lparr>can_write := False\<rparr>) else go Rd_wait s
     | Rd_wait \<Rightarrow> if can_read s then go Rd_lock (s\<lparr>can_read := False\<rparr>) else Blocked
     | Rd_lock \<Rightarrow> if bmutex s = None then go Rd_active (s\<lparr>bmutex := Some i\<rparr>) else Blocked
     | Rd_active \<Rightarrow> go Rd_dec (s\<lparr>active_readers := active_readers s + 1\<rparr>)
     | Rd_dec \<Rightarrow> go Rd_unlock (s\<lparr>read_queue := read_queue s - 1\<rparr>)
     | Rd_unlock \<Rightarrow> go Rd_print (s\<lparr>bmutex := None\<rparr>)
     | Rd_print \<Rightarrow> go Rd_leave (s\<lparr>win_out := win_out s @ [WinRead i (symbol s)]\<rparr>)
     | Rd_leave \<Rightarrow> go Rd_signal (s\<lparr>active_readers := active_readers s - 1\<rparr>)
     | Rd_signal \<Rightarrow> go Rd_loop (if active_readers s = 0 then s\<lparr>can_write := True\<rparr> else s)
     | Wr_loop \<Rightarrow> if win_cnt s < 3 then go Wr_inc s
         else go Finished (s\<lparr>win_out := win_out s @ [WinFinished i]\<rparr>)
     | Wr_inc \<Rightarrow> go Wr_readers (s\<lparr>write_queue := write_queue s + 1\<rparr>)
     | Wr_readers \<Rightarrow> if active_readers s > 0 then go Wr_wait s else go Wr_try s
     | Wr_try \<Rightarrow> if can_read s then go Wr_dec (s\<lparr>can_read := False\<rparr>) else go Wr_wait s
     | Wr_wait \<Rightarrow> if can_write s then go Wr_dec (s\<lparr>can_write := False\<rparr>) else Blocked
     | Wr_dec \<Rightarrow> go Wr_test (s\<lparr>write_queue := write_queue s - 1\<rparr>)
     | Wr_test \<Rightarrow> if symbol s = CHR ''z'' then go Wr_count s else go Wr_next s
     | Wr_count \<Rightarrow> go Wr_break (s\<lparr>win_cnt := win_cnt s + 1\<rparr>)
     | Wr_break \<Rightarrow> go Wr_reset (if win_cnt s \<ge> 3 then s\<lparr>break_sent := True\<rparr> else s)
     | Wr_reset \<Rightarrow> go Wr_check (s\<lparr>symbol := CHR ''a''\<rparr>)
     | Wr_next \<Rightarrow> go Wr_check (s\<lparr>symbol := next_char (symbol s)\<rparr>)
     | Wr_check \<Rightarrow> if win_cnt s < 3 then go Wr_print s else go Wr_loop s
     | Wr_print \<Rightarrow> go Wr_clear (s\<lparr>win_out := win_out s @ [WinWrite i (symbol s)]\<rparr>)
     | Wr_clear \<Rightarrow> go Wr_signal (s\<lparr>can_write := False\<rparr>)
     | Wr_signal \<Rightarrow> go Wr_loop (if read_queue s > 0 then s\<lparr>can_read := True\<rparr> else s\<lparr>can_write := True\<rparr>)
     | Finished \<Rightarrow> Blocked)"

text \<open>Five writers, then three readers; \<open>can_write\<close> starts signalled.\<close>

definition win_boot :: win where
  "win_boot = \<lparr>can_read = False, can_write = True, bmutex = None, read_queue = 0, write_queue = 0,
     active_readers = 0, symbol = CHR 0x60, win_cnt = 0, break_sent = False,
     win_threads = replicate 5 Wr_loop @ replicate 3 Rd_loop, win_out = []\<rparr>"

definition win_step :: "win \<Rightarrow> win \<Rightarrow> bool" where
  "win_step s t \<longleftrightarrow> (\<exists>i < length (win_threads s). win_run i s = Cont t)"

section \<open>The token\<close>

text \<open>Who holds the token, which readers count as active, and who is inside its section.\<close>

fun holds :: "wpc \<Rightarrow> bool" where
  "holds Rd_lock = True" | "holds Rd_active = True" | "holds Rd_dec = True" | "holds Rd_unlock = True"
| "holds Rd_print = True" | "holds Rd_leave = True" | "holds Rd_signal = True"
| "holds Wr_dec = True" | "holds Wr_test = True" | "holds Wr_count = True" | "holds Wr_break = True"
| "holds Wr_reset = True" | "holds Wr_next = True" | "holds Wr_check = True" | "holds Wr_print = True"
| "holds Wr_clear = True" | "holds Wr_signal = True"
| "holds _ = False"

fun active :: "wpc \<Rightarrow> bool" where
  "active Rd_dec = True" | "active Rd_unlock = True" | "active Rd_print = True" | "active Rd_leave = True"
| "active _ = False"

fun writing :: "wpc \<Rightarrow> bool" where
  "writing Wr_test = True" | "writing Wr_count = True" | "writing Wr_break = True"
| "writing Wr_reset = True" | "writing Wr_next = True" | "writing Wr_check = True" | "writing Wr_print = True"
| "writing _ = False"

lemma active_holds: "active pc \<Longrightarrow> holds pc"
  by (cases pc) simp_all

lemma writing_holds: "writing pc \<Longrightarrow> holds pc"
  by (cases pc) simp_all

definition tokens :: "win \<Rightarrow> int" where
  "tokens s = of_bool (can_read s) + of_bool (can_write s) + cnt holds (win_threads s)"

definition win_inv :: "win \<Rightarrow> bool" where
  "win_inv s \<longleftrightarrow> tokens s \<le> 1 \<and> active_readers s = cnt active (win_threads s)"

lemma tokens_goto:
  "i < length (win_threads s) \<Longrightarrow> tokens (win_goto i pc s)
     = tokens s - of_bool (holds (win_threads s ! i)) + of_bool (holds pc)"
  "i < length (win_threads s) \<Longrightarrow> cnt active (win_threads (win_goto i pc s))
     = cnt active (win_threads s) - of_bool (active (win_threads s ! i)) + of_bool (active pc)"
  by (simp_all add: tokens_def win_goto_def cnt_update)

lemma win_run_keeps:
  assumes inv: "win_inv s" and i: "i < length (win_threads s)" and run: "win_run i s = Cont t"
  shows "win_inv t"
proof -
  note upd = cnt_update [OF i, of holds] cnt_update [OF i, of active]
  have hold: "can_read s = False \<and> can_write s = False" if "holds (win_threads s ! i)"
    using cnt_ge_1 [of i "win_threads s" holds] that i inv by (auto simp: win_inv_def tokens_def of_bool_def split: if_splits)
  show ?thesis
    using run inv hold
    by (cases "win_threads s ! i")
      (auto simp: win_run_def win_inv_def tokens_def win_goto_def upd Let_def split: if_splits)
qed

interpretation wn: invariant_system "\<lambda>s. s = win_boot" win_step win_inv
proof
  show "win_inv s" if "s = win_boot" for s
    using that by (simp add: win_boot_def win_inv_def tokens_def cnt_def)
  show "win_inv t" if "win_inv s" "win_step s t" for s t
    using that win_run_keeps by (auto simp: win_step_def)
qed


section \<open>The history of the letters\<close>

text \<open>A write shows the successor of the last letter written, a read that letter itself.\<close>

definition succ_sym :: "char \<Rightarrow> char" where
  "succ_sym c = (if c = CHR ''z'' then CHR ''a'' else next_char c)"

fun history_ok :: "char \<Rightarrow> win_line list \<Rightarrow> bool" where
  "history_ok c [] = True"
| "history_ok c (WinWrite i x # ls) = (x = succ_sym c \<and> history_ok x ls)"
| "history_ok c (WinRead i x # ls) = (x = c \<and> history_ok c ls)"
| "history_ok c (WinFinished i # ls) = history_ok c ls"

fun last_written :: "char \<Rightarrow> win_line list \<Rightarrow> char" where
  "last_written c [] = c"
| "last_written c (WinWrite i x # ls) = last_written x ls"
| "last_written c (_ # ls) = last_written c ls"

lemma history_append: "history_ok c (ls @ [l]) \<longleftrightarrow> history_ok c ls \<and> history_ok (last_written c ls) [l]"
  by (induction c ls rule: history_ok.induct) (cases l; simp)+

lemma last_written_append: "last_written c (ls @ [l]) = last_written (last_written c ls) [l]"
  by (induction c ls rule: history_ok.induct) (cases l; simp)+

abbreviation (input) last_sym :: "win \<Rightarrow> char" where
  "last_sym s \<equiv> last_written (CHR 0x60) (win_out s)"

fun at_pc :: "wpc \<Rightarrow> win \<Rightarrow> bool" where
  "at_pc Wr_check s = (symbol s = succ_sym (last_sym s))"
| "at_pc Wr_print s = (symbol s = succ_sym (last_sym s))"
| "at_pc Wr_next s = (symbol s = last_sym s \<and> symbol s \<noteq> CHR ''z'')"
| "at_pc Wr_count s = (symbol s = last_sym s \<and> symbol s = CHR ''z'')"
| "at_pc Wr_break s = (symbol s = last_sym s \<and> symbol s = CHR ''z'')"
| "at_pc Wr_reset s = (symbol s = last_sym s \<and> symbol s = CHR ''z'')"
| "at_pc _ s = (symbol s = last_sym s)"

text \<open>At the holder of the token the letter is what its position says; a free token means a
  published letter.\<close>

definition hist_inv :: "win \<Rightarrow> bool" where
  "hist_inv s \<longleftrightarrow> win_inv s \<and> history_ok (CHR 0x60) (win_out s)
     \<and> (\<forall>i < length (win_threads s). holds (win_threads s ! i) \<longrightarrow> at_pc (win_threads s ! i) s)
     \<and> ((can_read s \<or> can_write s) \<longrightarrow> symbol s = last_sym s)"

lemma holders_le: "win_inv s \<Longrightarrow> cnt holds (win_threads s) \<le> (if can_read s \<or> can_write s then 0 else 1)"
  by (auto simp: win_inv_def tokens_def of_bool_def split: if_splits)

lemma sole_holder:
  assumes "win_inv s" "i < length (win_threads s)" "j < length (win_threads s)"
    "holds (win_threads s ! i)" "holds (win_threads s ! j)"
  shows "i = j"
proof (rule ccontr)
  assume "i \<noteq> j"
  then have "2 \<le> cnt holds (win_threads s)" using assms by (intro cnt_ge_2)
  then show False using holders_le [OF assms(1)] by (simp split: if_splits)
qed

lemma no_other_token:
  assumes "win_inv s" "i < length (win_threads s)" "holds (win_threads s ! i)"
  shows "\<not> can_read s" "\<not> can_write s"
  using assms cnt_ge_1 [of i "win_threads s" holds] holders_le [OF assms(1)] by (auto split: if_splits)

lemma no_holder:
  assumes "win_inv s" "can_read s \<or> can_write s" "j < length (win_threads s)"
  shows "\<not> holds (win_threads s ! j)"
  using no_other_token [OF assms(1,3)] assms(2) by blast

text \<open>A step of the holder: nobody else holds the token.\<close>

lemma hist_holder_step:
  assumes inv: "hist_inv s" and i: "i < length (win_threads s)" and run: "win_run i s = Cont t"
    and h: "holds (win_threads s ! i)"
  shows "hist_inv t"
proof -
  have wi: "win_inv s" "history_ok (CHR 0x60) (win_out s)" "at_pc (win_threads s ! i) s"
    using inv i h by (auto simp: hist_inv_def)
  have wt: "win_inv t" using win_run_keeps [OF wi(1) i run] .
  have others: "\<not> holds (win_threads s ! j)" if "j < length (win_threads s)" "j \<noteq> i" for j
    using sole_holder [OF wi(1) i that(1) h] that(2) by blast
  note free = no_other_token [OF wi(1) i h]
  show ?thesis
    using run wi(2,3) wt free others i h
    by (cases "win_threads s ! i")
      (auto simp: hist_inv_def win_run_def win_goto_def Let_def nth_list_update history_append last_written_append
        succ_sym_def split: if_splits)
qed

text \<open>A step of another thread: it takes a free token, or touches nothing that matters here.\<close>

lemma hist_other_step:
  assumes inv: "hist_inv s" and i: "i < length (win_threads s)" and run: "win_run i s = Cont t"
    and h: "\<not> holds (win_threads s ! i)"
  shows "hist_inv t"
proof -
  have wi: "win_inv s" "history_ok (CHR 0x60) (win_out s)"
    "\<And>j. j < length (win_threads s) \<Longrightarrow> holds (win_threads s ! j) \<Longrightarrow> at_pc (win_threads s ! j) s"
    "can_read s \<or> can_write s \<Longrightarrow> symbol s = last_sym s"
    using inv by (auto simp: hist_inv_def)
  have wt: "win_inv t" using win_run_keeps [OF wi(1) i run] .
  have nobody: "\<not> holds (win_threads s ! j)" if "can_read s \<or> can_write s" "j < length (win_threads s)" for j
    using no_holder [OF wi(1) that] .
  have keep: "at_pc pc (u\<lparr>win_threads := ts\<rparr>) = at_pc pc u" "at_pc pc (u\<lparr>read_queue := q\<rparr>) = at_pc pc u"
    "at_pc pc (u\<lparr>write_queue := q\<rparr>) = at_pc pc u"
    "at_pc pc (u\<lparr>win_out := win_out u @ [WinFinished k]\<rparr>) = at_pc pc u" for pc u ts q k
    by (cases pc; simp add: last_written_append)+
  show ?thesis
    using run wt h
    by (cases "win_threads s ! i")
      (use wi nobody i in \<open>auto simp: hist_inv_def win_run_def win_goto_def Let_def nth_list_update history_append
        last_written_append keep split: if_splits\<close>)
qed

lemma win_boot_hist: "hist_inv win_boot"
proof -
  have "set (win_threads win_boot) \<subseteq> {Wr_loop, Rd_loop}" by (auto simp: win_boot_def)
  then have "\<not> holds (win_threads win_boot ! i)" if "i < length (win_threads win_boot)" for i
    using nth_mem [OF that] by auto
  moreover have "win_inv win_boot" by (rule wn.init_inv) (rule refl)
  moreover have "win_out win_boot = []" "symbol win_boot = CHR 0x60" by (simp_all add: win_boot_def)
  ultimately show ?thesis unfolding hist_inv_def by simp
qed

interpretation wh: invariant_system "\<lambda>s. s = win_boot" win_step hist_inv
proof
  show "hist_inv s" if "s = win_boot" for s using that win_boot_hist by simp
  show "hist_inv t" if "hist_inv s" "win_step s t" for s t
  proof -
    obtain i where "i < length (win_threads s)" "win_run i s = Cont t" using \<open>win_step s t\<close> unfolding win_step_def by blast
    with \<open>hist_inv s\<close> show ?thesis by (metis hist_holder_step hist_other_step)
  qed
qed

text \<open>
  (C16) The monitor serialises all threads: in every reachable state at most one thread is inside
  its section, reader or writer, so that two readers never read at the same time; and the lines
  printed are a consistent history of one letter: each write shows the cyclic successor of the
  letter written before it, each read the letter written last.
\<close>

theorem win_rw_serialises:
  assumes "reach (\<lambda>s. s = win_boot) win_step s" "i < length (win_threads s)" "j < length (win_threads s)" "i \<noteq> j"
  shows "\<not> ((active (win_threads s ! i) \<or> writing (win_threads s ! i))
        \<and> (active (win_threads s ! j) \<or> writing (win_threads s ! j)))
    \<and> active_readers s \<le> 1 \<and> history_ok (CHR 0x60) (win_out s)"
proof -
  have inv: "hist_inv s" using assms(1) by (rule wh.reach_inv)
  then have w: "win_inv s" by (simp add: hist_inv_def)
  have "cnt active (win_threads s) \<le> cnt holds (win_threads s)" by (rule cnt_mono) (rule active_holds)
  then have "active_readers s \<le> 1" using w holders_le [OF w] by (auto simp: win_inv_def split: if_splits)
  then show ?thesis
    using inv sole_holder [OF w assms(2,3)] assms(4) active_holds writing_holds by (auto simp: hist_inv_def)
qed

text \<open>A run of one writer and one reader, as a schedule of thread numbers.\<close>

definition win_act :: "nat \<Rightarrow> win \<Rightarrow> win option" where
  "win_act i s = (if i < length (win_threads s) then (case win_run i s of Cont t \<Rightarrow> Some t | _ \<Rightarrow> None) else None)"

interpretation wsch: scheduler win_act win_step win_boot
  by unfold_locales (auto simp: win_act_def win_step_def split: if_splits outcome.splits)

definition win_demo :: win where
  "win_demo = the (run_actions win_act (replicate 12 0 @ replicate 9 5) win_boot)"

lemma win_demo_runs: "run_actions win_act (replicate 12 0 @ replicate 9 5) win_boot = Some win_demo"
proof -
  have "run_actions win_act (replicate 12 0 @ replicate 9 5) win_boot \<noteq> None" by code_simp
  then show ?thesis by (auto simp: win_demo_def)
qed

theorem win_rw_serialises_witness:
  "win_out win_demo = [WinWrite 0 CHR ''a'', WinRead 5 CHR ''a''] \<and> active_readers win_demo = 1
   \<and> \<not> ((active (win_threads win_demo ! 5) \<or> writing (win_threads win_demo ! 5))
        \<and> (active (win_threads win_demo ! 0) \<or> writing (win_threads win_demo ! 0)))"
proof -
  have r: "reach (\<lambda>s. s = win_boot) win_step win_demo" by (rule wsch.run_reach [OF win_demo_runs])
  have "length (win_threads win_demo) = 8" "win_out win_demo = [WinWrite 0 CHR ''a'', WinRead 5 CHR ''a'']"
    "active_readers win_demo = 1" by code_simp+
  then show ?thesis using win_rw_serialises [OF r, of 5 0] by simp
qed
end
