(* ===== verification/Buf_Io.thy ===== *)
theory Buf_Io
  imports C_Text
begin

text \<open>
  The programs of \<open>lab_buf_io\<close>: two streams on one open file (\<open>app1.c\<close>), two open files read byte
  by byte (\<open>app2.c\<close>, \<open>app2_threads_right.c\<close>), and two writers of one file, through streams
  (\<open>app3_buf.c\<close>) and through descriptors (\<open>app3_non_buf.c\<close>).
\<close>

section \<open>app1.c: two streams with buffers of 20 bytes over one file offset\<close>

text \<open>
  What the shared offset has left of the file, and what the two buffers still hold.  Reading a
  character refills an empty buffer from the file.
\<close>

record two_streams =
  ts_file :: string
  ts_buf1 :: string
  ts_buf2 :: string

definition refill :: "string \<Rightarrow> string \<Rightarrow> string \<times> string" where
  "refill file buf = (if buf = [] then (drop 20 file, take 20 file) else (file, buf))"

definition getc1 :: "two_streams \<Rightarrow> char option \<times> two_streams" where
  "getc1 s = (let (file, buf) = refill (ts_file s) (ts_buf1 s) in
     case buf of [] \<Rightarrow> (None, s\<lparr>ts_file := file, ts_buf1 := []\<rparr>)
     | c # cs \<Rightarrow> (Some c, s\<lparr>ts_file := file, ts_buf1 := cs\<rparr>))"

definition getc2 :: "two_streams \<Rightarrow> char option \<times> two_streams" where
  "getc2 s = (let (file, buf) = refill (ts_file s) (ts_buf2 s) in
     case buf of [] \<Rightarrow> (None, s\<lparr>ts_file := file, ts_buf2 := []\<rparr>)
     | c # cs \<Rightarrow> (Some c, s\<lparr>ts_file := file, ts_buf2 := cs\<rparr>))"

definition out_of :: "char option \<Rightarrow> string" where
  "out_of r = (case r of None \<Rightarrow> [] | Some c \<Rightarrow> [c])"

definition unread :: "two_streams \<Rightarrow> nat" where
  "unread s = length (ts_file s) + length (ts_buf1 s) + length (ts_buf2 s)"

lemma refill_length: "refill file buf = (file', buf') \<Longrightarrow> length file' + length buf' = length file + length buf"
  by (auto simp: refill_def split: if_splits)

lemma getc_unread:
  "getc1 s = (r, t) \<Longrightarrow> unread t + length (out_of r) = unread s"
  "getc2 s = (r, t) \<Longrightarrow> unread t + length (out_of r) = unread s"
  using refill_length [of "ts_file s" "ts_buf1 s"] refill_length [of "ts_file s" "ts_buf2 s"]
  by (auto simp: getc1_def getc2_def unread_def out_of_def split: prod.splits list.splits)

text \<open>The loop goes on while one of the streams has delivered a character.\<close>

function app1_loop :: "two_streams \<Rightarrow> string" where
  "app1_loop s = (let (r1, s1) = getc1 s; (r2, s2) = getc2 s1 in
     if r1 = None \<and> r2 = None then [] else out_of r1 @ out_of r2 @ app1_loop s2)"
  by pat_completeness auto
termination
proof (relation "measure unread")
  fix s x r1 s1 y r2 s2
  assume "x = getc1 s" "(r1, s1) = x" "y = getc2 s1" "(r2, s2) = y" and got: "\<not> (r1 = None \<and> r2 = None)"
  then have "unread s1 + length (out_of r1) = unread s" "unread s2 + length (out_of r2) = unread s1"
    using getc_unread(1) [of s r1 s1] getc_unread(2) [of s1 r2 s2] by auto
  moreover have "0 < length (out_of r1) + length (out_of r2)" using got by (auto simp: out_of_def)
  ultimately show "(s2, s) \<in> measure unread" unfolding in_measure by linarith
qed simp

declare app1_loop.simps [simp del]

definition app1_main :: "string \<Rightarrow> string" where
  "app1_main file = app1_loop \<lparr>ts_file = file, ts_buf1 = [], ts_buf2 = []\<rparr> @ [NL]"

section \<open>app2.c: two open files\<close>

fun app2_loop :: "string \<Rightarrow> string \<Rightarrow> string" where
  "app2_loop [] [] = []"
| "app2_loop (c # f1) [] = c # app2_loop f1 []"
| "app2_loop [] (d # f2) = d # app2_loop [] f2"
| "app2_loop (c # f1) (d # f2) = c # d # app2_loop f1 f2"

definition app2_main :: "string \<Rightarrow> string" where
  "app2_main file = app2_loop file file @ [NL]"

text \<open>
  \<open>app2_threads_right.c\<close>: each thread copies the whole file under the mutex; the newline that
  \<open>main\<close> writes first is outside it, so that it may fall anywhere into the copy of the other
  thread if that one comes first.
\<close>

definition app2_threads_outputs :: "string \<Rightarrow> string list" where
  "app2_threads_outputs file = map (\<lambda>k. take k file @ [NL] @ drop k file @ file @ [NL]) [0..<length file + 1]"

section \<open>app3: two writers of one file\<close>

definition write_at :: "nat \<Rightarrow> string \<Rightarrow> string \<Rightarrow> string" where
  "write_at off data file = take off file @ data @ drop (off + length data) file"

definition odd_char :: "char \<Rightarrow> bool" where
  "odd_char c \<longleftrightarrow> (of_char c :: nat) mod 2 = 1"

text \<open>
  Streams: the letters stay in the buffers until \<open>fclose\<close>.  The list collects the sizes that
  \<open>print_stat\<close> shows.
\<close>

fun app3_buf_loop :: "string \<Rightarrow> string \<Rightarrow> string \<Rightarrow> string \<Rightarrow> nat list \<Rightarrow> (string \<times> string) \<times> nat list" where
  "app3_buf_loop [] file b1 b2 sizes = ((b1, b2), sizes)"
| "app3_buf_loop (c # cs) file b1 b2 sizes =
     (if odd_char c then app3_buf_loop cs file (b1 @ [c]) b2 (sizes @ [length file])
      else app3_buf_loop cs file b1 (b2 @ [c]) (sizes @ [length file]))"

definition letters :: string where
  "letters = ''abcdefghijklmnopqrstuvwxyz''"

definition app3_buf_main :: "string \<Rightarrow> string \<times> nat list" where
  "app3_buf_main file = (let ((b1, b2), sizes) = app3_buf_loop letters file [] [] [length file];
       f1 = write_at 0 b1 file; f2 = write_at 0 b2 f1 in
     (f2, sizes @ [length f1, length f2]))"

text \<open>Descriptors: every letter is written at once, each descriptor with its own offset.\<close>

fun app3_raw_loop :: "string \<Rightarrow> string \<Rightarrow> nat \<Rightarrow> nat \<Rightarrow> nat list \<Rightarrow> string \<times> nat list" where
  "app3_raw_loop [] file p1 p2 sizes = (file, sizes)"
| "app3_raw_loop (c # cs) file p1 p2 sizes =
     (if odd_char c then (let f = write_at p1 [c] file in app3_raw_loop cs f (p1 + 1) p2 (sizes @ [length f]))
      else (let f = write_at p2 [c] file in app3_raw_loop cs f p1 (p2 + 1) (sizes @ [length f])))"

definition app3_raw_main :: "string \<Rightarrow> string \<times> nat list" where
  "app3_raw_main file = (let (f, sizes) = app3_raw_loop letters file 0 0 [length file] in
     (f, sizes @ [length f, length f]))"

section \<open>What app1 prints\<close>

fun interleave :: "string \<Rightarrow> string \<Rightarrow> string" where
  "interleave [] ys = ys"
| "interleave xs [] = xs"
| "interleave (x # xs) (y # ys) = x # y # interleave xs ys"

lemma interleave_Nil2 [simp]: "interleave xs [] = xs"
  by (cases xs) simp_all

function app1_spec :: "string \<Rightarrow> string" where
  "app1_spec s = (if s = [] then [] else interleave (take 20 s) (take 20 (drop 20 s)) @ app1_spec (drop 40 s))"
  by pat_completeness auto
termination by (relation "measure length") auto

declare app1_spec.simps [simp del]

abbreviation (input) streams :: "string \<Rightarrow> string \<Rightarrow> string \<Rightarrow> two_streams" where
  "streams f b1 b2 \<equiv> \<lparr>ts_file = f, ts_buf1 = b1, ts_buf2 = b2\<rparr>"

lemma app1_loop_both: "app1_loop (streams f (x # xs) (y # ys)) = x # y # app1_loop (streams f xs ys)"
  by (subst app1_loop.simps) (simp add: getc1_def getc2_def refill_def out_of_def)

lemma app1_loop_drain: "app1_loop (streams [] xs ys) = interleave xs ys"
proof (induction xs ys rule: interleave.induct)
  case (1 ys)
  then show ?case
  proof (induction ys)
    case Nil
    show ?case by (subst app1_loop.simps) (simp add: getc1_def getc2_def refill_def)
  next
    case (Cons y ys)
    then show ?case by (subst app1_loop.simps) (simp add: getc1_def getc2_def refill_def out_of_def)
  qed
next
  case (2 x xs)
  then show ?case
  proof (induction xs arbitrary: x)
    case Nil
    show ?case
      by (subst app1_loop.simps, subst app1_loop.simps) (simp add: getc1_def getc2_def refill_def out_of_def)
  next
    case (Cons y ys)
    show ?case
      using Cons [of y] by (subst app1_loop.simps) (simp add: getc1_def getc2_def refill_def out_of_def)
  qed
qed (simp add: app1_loop_both)

lemma app1_loop_equal:
  "length xs = length ys \<Longrightarrow> app1_loop (streams f xs ys) = interleave xs ys @ app1_loop (streams f [] [])"
  by (induction xs ys rule: list_induct2) (simp_all add: app1_loop_both)

lemma app1_loop_refill:
  assumes "s \<noteq> []"
  shows "app1_loop (streams s [] []) = app1_loop (streams (drop 40 s) (take 20 s) (take 20 (drop 20 s)))"
proof -
  obtain x xs where x: "take 20 s = x # xs" using assms by (cases "take 20 s") auto
  have d: "drop 20 (drop 20 s) = drop 40 s" by simp
  have g1: "getc1 (streams s [] []) = (Some x, streams (drop 20 s) xs [])"
    using x by (simp add: getc1_def refill_def)
  have g1': "getc1 (streams (drop 40 s) (take 20 s) (take 20 (drop 20 s)))
      = (Some x, streams (drop 40 s) xs (take 20 (drop 20 s)))"
    unfolding x by (simp add: getc1_def refill_def)
  have "getc2 (streams (drop 20 s) xs []) = getc2 (streams (drop 40 s) xs (take 20 (drop 20 s)))"
  proof (cases "drop 20 s = []")
    case True
    then have "drop 40 s = []" by simp
    then show ?thesis using True by (simp add: getc2_def refill_def)
  next
    case False
    then show ?thesis using d by (simp add: getc2_def refill_def)
  qed
  then show ?thesis
    unfolding app1_loop.simps [of "streams s [] []"] app1_loop.simps [of "streams (drop 40 s) _ _"] g1 g1'
    by simp
qed

text \<open>
  Two streams over one open file split it into blocks of their buffer size: the program prints
  every 40 bytes of the file as the interleaving of their first and second 20 bytes, and ends.
\<close>

lemma app1_prints: "app1_main fl = app1_spec fl @ [NL]"
proof -
  have "app1_loop (streams s [] []) = app1_spec s" for s
  proof (induction s rule: app1_spec.induct)
    case (1 s)
    show ?case
    proof (cases "s = []")
      case True
      then show ?thesis using app1_loop_drain [of "[]" "[]"] by (simp add: app1_spec.simps)
    next
      case ne: False
      show ?thesis
      proof (cases "40 \<le> length s")
        case True
        then have "length (take 20 s) = length (take 20 (drop 20 s))" by simp
        then have "app1_loop (streams s [] []) = interleave (take 20 s) (take 20 (drop 20 s)) @ app1_spec (drop 40 s)"
          using 1 [OF ne] app1_loop_refill [OF ne] app1_loop_equal [of "take 20 s" "take 20 (drop 20 s)" "drop 40 s"]
          by (simp only:)
        then show ?thesis using ne by (simp add: app1_spec.simps [of s])
      next
        case False
        then have "drop 40 s = []" by simp
        then show ?thesis
          using ne app1_loop_refill [OF ne] by (simp add: app1_loop_drain app1_spec.simps)
      qed
    qed
  qed
  then show ?thesis by (simp add: app1_main_def)
qed

lemma app1_alphabet: "app1_main letters = ''aubvcwdxeyfzghijklmnopqrst'' @ [NL]"
proof -
  have "take 20 letters = ''abcdefghijklmnopqrst''" "drop 20 letters = ''uvwxyz''" "drop 40 letters = []"
    by (simp_all add: letters_def)
  then show ?thesis by (simp add: app1_prints app1_spec.simps letters_def)
qed

text \<open>Two open files have two offsets: every byte is printed twice.\<close>

lemma app2_prints: "app2_main fl = concat (map (\<lambda>c. [c, c]) fl) @ [NL]"
  by (induction fl) (simp_all add: app2_main_def)

section \<open>The two writers\<close>

lemma length_write_at: "off \<le> length fl \<Longrightarrow> length (write_at off data fl) = max (length fl) (off + length data)"
  by (simp add: write_at_def)

definition odd_letters :: string where "odd_letters = ''acegikmoqsuwy''"
definition even_letters :: string where "even_letters = ''bdfhjlnprtvxz''"

lemma letters_pairs: "letters = concat (map (\<lambda>(o', e). [o', e]) (zip odd_letters even_letters))"
  by (simp add: letters_def odd_letters_def even_letters_def)

lemma letters_parity: "list_all (\<lambda>(o', e). odd_char o' \<and> \<not> odd_char e) (zip odd_letters even_letters)"
  by code_simp

lemma app3_buf_pairs:
  "list_all (\<lambda>(o', e). odd_char o' \<and> \<not> odd_char e) ps \<Longrightarrow>
   app3_buf_loop (concat (map (\<lambda>(o', e). [o', e]) ps)) fl b1 b2 sizes
     = ((b1 @ map fst ps, b2 @ map snd ps), sizes @ replicate (2 * length ps) (length fl))"
  by (induction ps arbitrary: b1 b2 sizes) (auto simp: replicate_app_Cons_same)

lemma app3_raw_pairs:
  "list_all (\<lambda>(o', e). odd_char o' \<and> \<not> odd_char e) ps \<Longrightarrow> k \<le> length fl \<Longrightarrow>
   fst (app3_raw_loop (concat (map (\<lambda>(o', e). [o', e]) ps)) fl k k sizes) = write_at k (map snd ps) fl"
proof (induction ps arbitrary: fl k sizes)
  case (Cons p ps)
  obtain o' e where p: "p = (o', e)" by (cases p)
  let ?f = "write_at k [e] (write_at k [o'] fl)"
  have f: "?f = take k fl @ e # drop (k + 1) fl" using Cons.prems(2) by (simp add: write_at_def)
  have len: "k + 1 \<le> length ?f" using Cons.prems(2) by (simp add: f)
  have "fst (app3_raw_loop (concat (map (\<lambda>(o', e). [o', e]) ps)) ?f (k + 1) (k + 1) sizes') = write_at (k + 1) (map snd ps) ?f" for sizes'
    using Cons.prems(1) len by (intro Cons.IH) (auto simp: p)
  moreover have "write_at (k + 1) (map snd ps) ?f = write_at k (map snd (p # ps)) fl"
    unfolding f using Cons.prems(2) by (simp add: write_at_def p min_def add.commute)
  ultimately show ?case using Cons.prems(1) by (simp add: p Let_def)
qed (simp add: write_at_def)

text \<open>
  Both programs leave the same file: the letters of the first writer are lost, the thirteen
  letters of the second stand at the beginning, and what the file held after them stays.  Through
  streams the file does not grow before the first \<open>fclose\<close>.
\<close>

lemma app3_writers_agree:
  "fst (app3_buf_main fl) = even_letters @ drop 13 fl \<and> fst (app3_raw_main fl) = even_letters @ drop 13 fl
   \<and> snd (app3_buf_main fl) = replicate 27 (length fl) @ replicate 2 (max 13 (length fl))"
proof -
  have z: "map fst (zip odd_letters even_letters) = odd_letters" "map snd (zip odd_letters even_letters) = even_letters"
    "length odd_letters = 13" "length even_letters = 13" "length (zip odd_letters even_letters) = 13"
    by (simp_all add: odd_letters_def even_letters_def)
  have buf: "app3_buf_loop letters fl [] [] [length fl]
      = ((odd_letters, even_letters), [length fl] @ replicate 26 (length fl))"
    unfolding letters_pairs using app3_buf_pairs [OF letters_parity, of fl "[]" "[]" "[length fl]"] by (simp add: z)
  have w: "write_at 0 odd_letters fl = odd_letters @ drop 13 fl"
    "write_at 0 even_letters (odd_letters @ drop 13 fl) = even_letters @ drop 13 fl"
    by (simp_all add: write_at_def z)
  have rep: "length fl # replicate 26 (length fl) = replicate 27 (length fl)"
    "replicate 2 (max 13 (length fl)) = [max 13 (length fl), max 13 (length fl)]"
    by (simp_all add: numeral_2_eq_2 flip: replicate_Suc [of 26])
  have "fst (app3_raw_main fl) = even_letters @ drop 13 fl"
    using app3_raw_pairs [OF letters_parity, of 0 fl "[length fl]"] unfolding letters_pairs [symmetric]
    by (cases "app3_raw_loop letters fl 0 0 [length fl]") (simp add: app3_raw_main_def write_at_def z)
  moreover have "length (odd_letters @ drop 13 fl) = max 13 (length fl)"
    "length (even_letters @ drop 13 fl) = max 13 (length fl)"
    by (simp_all add: z)
  ultimately show ?thesis
    unfolding app3_buf_main_def buf Let_def prod.case w by (simp add: rep)
qed
end
