(* ===== verification/Letter_Client.thy ===== *)
theory Letter_Client
  imports Epoll_Server
begin

text \<open>
  The client of the letter servers (\<open>lab_sockets/lab_03/lab_03/client.c\<close>), and its session with
  the single-threaded server: one connection per request, five letters produced in advance, then
  producing and consuming in turn.
\<close>

section \<open>The client\<close>

datatype c_line = Prod_ok | Prod_full | Prod_empty | Cons_letter c_char | Cons_full | Cons_empty | No_line

record letter_client =
  lc_letter :: c_char
  lc_out :: "c_line list"

text \<open>
  One request on a connection of its own: the parameter \<open>ex\<close> stands for \<open>do_connect\<close>, \<open>send\<close>,
  \<open>recv\<close> and \<open>close\<close> together with the peer's answer; \<open>Exit 1\<close> is a failed connection.  The
  request starts as the uninitialised \<open>g\<close>.
\<close>

definition produce_line :: "int \<Rightarrow> c_line" where
  "produce_line st = (if st = OK then Prod_ok else if st = ERR_BUF_FULL then Prod_full
     else if st = ERR_BUF_EMPTY then Prod_empty else No_line)"

definition consume_line :: "req_t \<Rightarrow> c_line" where
  "consume_line r = (if req_status r = OK then Cons_letter (req_letter r)
     else if req_status r = ERR_BUF_FULL then Cons_full
     else if req_status r = ERR_BUF_EMPTY then Cons_empty else No_line)"

definition client_next_letter :: "c_char \<Rightarrow> c_char" where
  "client_next_letter l = (if l = ch CHR ''z'' then ch CHR ''a'' else l + 1)"

definition produce ::
  "(req_t \<Rightarrow> 's \<Rightarrow> (req_t \<times> 's) outcome) \<Rightarrow> req_t \<Rightarrow> letter_client \<times> 's \<Rightarrow> (letter_client \<times> 's) outcome" where
  "produce ex g = (\<lambda>(c, s).
     case ex (g\<lparr>req_type := ch CHR ''p'', req_letter := lc_letter c\<rparr>) s of
       Cont (reply, s') \<Rightarrow> Cont (c\<lparr>lc_letter := client_next_letter (lc_letter c),
           lc_out := lc_out c @ [produce_line (req_status reply)]\<rparr>, s')
     | Blocked \<Rightarrow> Blocked | Exit e \<Rightarrow> Exit e | UB \<Rightarrow> UB)"

definition consume ::
  "(req_t \<Rightarrow> 's \<Rightarrow> (req_t \<times> 's) outcome) \<Rightarrow> req_t \<Rightarrow> letter_client \<times> 's \<Rightarrow> (letter_client \<times> 's) outcome" where
  "consume ex g = (\<lambda>(c, s).
     case ex (g\<lparr>req_type := ch CHR ''c''\<rparr>) s of
       Cont (reply, s') \<Rightarrow> Cont (c\<lparr>lc_out := lc_out c @ [consume_line reply]\<rparr>, s')
     | Blocked \<Rightarrow> Blocked | Exit e \<Rightarrow> Exit e | UB \<Rightarrow> UB)"

fun run_ops :: "('a \<Rightarrow> 'a outcome) list \<Rightarrow> 'a \<Rightarrow> 'a outcome" where
  "run_ops [] a = Cont a"
| "run_ops (f # fs) a = (case f a of Cont b \<Rightarrow> run_ops fs b | Blocked \<Rightarrow> Blocked | Exit e \<Rightarrow> Exit e | UB \<Rightarrow> UB)"

definition client_iter ::
  "(req_t \<Rightarrow> 's \<Rightarrow> (req_t \<times> 's) outcome) \<Rightarrow> req_t \<Rightarrow> nat \<Rightarrow> letter_client \<times> 's \<Rightarrow> (letter_client \<times> 's) outcome" where
  "client_iter ex g iter = (if iter mod 2 = 0 then produce ex g else consume ex g)"

definition client_session ::
  "nat \<Rightarrow> (req_t \<Rightarrow> 's \<Rightarrow> (req_t \<times> 's) outcome) \<Rightarrow> req_t \<Rightarrow> 's \<Rightarrow> (letter_client \<times> 's) outcome" where
  "client_session iters ex g s =
     run_ops (replicate 5 (produce ex g) @ map (client_iter ex g) [0..<iters])
       (\<lparr>lc_letter = ch CHR ''a'', lc_out = []\<rparr>, s)"

text \<open>
  \<open>main\<close>: the parameter \<open>pton\<close> is what \<open>inet_pton\<close> returns for the first argument; the malformed
  address, for which it returns 0, passes the test.  The source runs 40000 iterations.
\<close>

definition client_main ::
  "int \<Rightarrow> int \<Rightarrow> (req_t \<Rightarrow> 's \<Rightarrow> (req_t \<times> 's) outcome) \<Rightarrow> req_t \<Rightarrow> 's \<Rightarrow> (letter_client \<times> 's) outcome" where
  "client_main argc pton ex g s = (if argc \<noteq> 3 then Exit 1 else if pton = -1 then Exit 1
     else client_session 40000 ex g s)"

section \<open>What the client needs of a server\<close>

locale letter_service =
  fixes ex :: "req_t \<Rightarrow> 's \<Rightarrow> (req_t \<times> 's) outcome" and ok :: "'s \<Rightarrow> bool" and contents :: "'s \<Rightarrow> c_char list"
  assumes put: "ok s \<Longrightarrow> length (contents s) < ARR_SIZE \<Longrightarrow> req_type r = ch CHR ''p'' \<Longrightarrow>
      \<exists>s'. ex r s = Cont (r\<lparr>req_status := OK\<rparr>, s') \<and> ok s' \<and> contents s' = contents s @ [req_letter r]"
    and get: "ok s \<Longrightarrow> contents s = l # ls \<Longrightarrow> req_type r = ch CHR ''c'' \<Longrightarrow>
      \<exists>s'. ex r s = Cont (r\<lparr>req_letter := l, req_status := OK\<rparr>, s') \<and> ok s' \<and> contents s' = ls"

definition letter_at :: "nat \<Rightarrow> c_char" where
  "letter_at k = ch CHR ''a'' + of_nat (k mod 26)"

lemma client_next_letter_at: "client_next_letter (letter_at k) = letter_at (Suc k)"
proof -
  have z: "ch CHR ''z'' = ch CHR ''a'' + 25" by simp
  have "letter_at k = ch CHR ''z'' \<longleftrightarrow> k mod 26 = 25"
  proof -
    have "(of_nat (k mod 26) :: c_char) = 25 \<longleftrightarrow> k mod 26 = 25"
      using mod_less_divisor [of 26 k] by (subst word_unat_eq_iff) (simp add: unat_of_nat)
    then show ?thesis unfolding letter_at_def z by simp
  qed
  then show ?thesis
    by (auto simp: client_next_letter_def letter_at_def mod_Suc)
qed

text \<open>The line of iteration \<open>i\<close>, and what the server holds before it.\<close>

definition iter_line :: "nat \<Rightarrow> c_line" where
  "iter_line i = (if i mod 2 = 0 then Prod_ok else Cons_letter (letter_at (i div 2)))"

context letter_service
begin

lemma produce_step:
  assumes "ok s" "length (contents s) < ARR_SIZE" "lc_letter c = letter_at k"
  obtains s' where "produce ex g (c, s) = Cont (c\<lparr>lc_letter := letter_at (Suc k), lc_out := lc_out c @ [Prod_ok]\<rparr>, s')"
    "ok s'" "contents s' = contents s @ [letter_at k]"
  using put [OF assms(1,2), of "g\<lparr>req_type := ch CHR ''p'', req_letter := lc_letter c\<rparr>"] assms(3)
  by (auto simp: produce_def produce_line_def client_next_letter_at)

lemma consume_step:
  assumes "ok s" "contents s = l # ls"
  obtains s' where "consume ex g (c, s) = Cont (c\<lparr>lc_out := lc_out c @ [Cons_letter l]\<rparr>, s')" "ok s'" "contents s' = ls"
  using get [OF assms, of "g\<lparr>req_type := ch CHR ''c''\<rparr>"] by (auto simp: consume_def consume_line_def)

lemma produce_many:
  "ok s \<Longrightarrow> contents s = map letter_at [j..<j + m] \<Longrightarrow> lc_letter c = letter_at (j + m) \<Longrightarrow> m + n \<le> ARR_SIZE \<Longrightarrow>
   \<exists>s'. run_ops (replicate n (produce ex g)) (c, s)
       = Cont (c\<lparr>lc_letter := letter_at (j + m + n), lc_out := lc_out c @ replicate n Prod_ok\<rparr>, s')
     \<and> ok s' \<and> contents s' = map letter_at [j..<j + m + n]"
proof (induction n arbitrary: m s c)
  case 0
  then show ?case by (intro exI [of _ s]) simp
next
  case (Suc n)
  have "length (contents s) < ARR_SIZE" using Suc.prems by simp
  from produce_step [OF Suc.prems(1) this Suc.prems(3)]
  obtain s1 where s1: "produce ex g (c, s) = Cont (c\<lparr>lc_letter := letter_at (Suc (j + m)), lc_out := lc_out c @ [Prod_ok]\<rparr>, s1)"
    "ok s1" "contents s1 = contents s @ [letter_at (j + m)]" by blast
  have "contents s1 = map letter_at [j..<j + Suc m]" using s1(3) Suc.prems(2) by simp
  from Suc.IH [OF s1(2) this, of "c\<lparr>lc_letter := letter_at (Suc (j + m)), lc_out := lc_out c @ [Prod_ok]\<rparr>"]
  show ?case using Suc.prems(4) s1(1) by simp
qed

lemma run_ops_append:
  "run_ops fs a = Cont b \<Longrightarrow> run_ops (fs @ gs) a = run_ops gs b"
  by (induction fs a rule: run_ops.induct) (auto split: outcome.splits)

text \<open>
  Before iteration \<open>k\<close> the server holds five letters, six when \<open>k\<close> is odd, starting with letter
  \<open>k div 2\<close> of the sequence.
\<close>

lemma iterations:
  assumes "ok s" "contents s = map letter_at [0..<5]" "lc_letter c = letter_at 5"
  shows "\<exists>s'. run_ops (map (client_iter ex g) [0..<k]) (c, s)
      = Cont (c\<lparr>lc_letter := letter_at (k div 2 + 5 + k mod 2), lc_out := lc_out c @ map iter_line [0..<k]\<rparr>, s')
    \<and> ok s' \<and> contents s' = map letter_at [k div 2..<k div 2 + 5 + k mod 2]"
proof (induction k)
  case 0
  then show ?case using assms by (intro exI [of _ s]) simp
next
  case (Suc k)
  let ?h = "k div 2" and ?c = "c\<lparr>lc_letter := letter_at (k div 2 + 5 + k mod 2), lc_out := lc_out c @ map iter_line [0..<k]\<rparr>"
  from Suc obtain s1 where s1: "run_ops (map (client_iter ex g) [0..<k]) (c, s) = Cont (?c, s1)"
    "ok s1" "contents s1 = map letter_at [?h..<?h + 5 + k mod 2]" by blast
  have step: "run_ops (map (client_iter ex g) [0..<Suc k]) (c, s) = run_ops [client_iter ex g k] (?c, s1)"
    using run_ops_append [OF s1(1)] by simp
  show ?case
  proof (cases "even k")
    case True
    then have k: "k mod 2 = 0" "Suc k div 2 = ?h" "Suc k mod 2 = 1" by (auto elim: evenE)
    have "length (contents s1) < ARR_SIZE" using s1(3) k by (simp add: ARR_SIZE_def)
    from produce_step [OF s1(2) this, of ?c "?h + 5" g] obtain s2 where
      "produce ex g (?c, s1) = Cont (?c\<lparr>lc_letter := letter_at (Suc (?h + 5)), lc_out := lc_out ?c @ [Prod_ok]\<rparr>, s2)"
      "ok s2" "contents s2 = contents s1 @ [letter_at (?h + 5)]" using k by auto
    moreover have "[?h..<6 + ?h] = [?h..<?h + 5] @ [?h + 5]" using upt_Suc [of ?h "?h + 5"] by simp
    ultimately show ?thesis using s1(3) k unfolding step by (simp add: client_iter_def iter_line_def)
  next
    case False
    then have k: "k mod 2 = 1" "Suc k div 2 = Suc ?h" "Suc k mod 2 = 0" by (auto elim: oddE)
    have "contents s1 = letter_at ?h # map letter_at [Suc ?h..<Suc ?h + 5]"
      using s1(3) k by (simp add: upt_rec [of ?h])
    from consume_step [OF s1(2) this, of g ?c] obtain s2 where
      "consume ex g (?c, s1) = Cont (?c\<lparr>lc_out := lc_out ?c @ [Cons_letter (letter_at ?h)]\<rparr>, s2)"
      "ok s2" "contents s2 = map letter_at [Suc ?h..<Suc ?h + 5]" by blast
    then show ?thesis using k unfolding step by (simp add: client_iter_def iter_line_def)
  qed
qed

lemma session:
  assumes "ok s" "contents s = []"
  shows "\<exists>s'. client_session k ex g s
      = Cont (\<lparr>lc_letter = letter_at (k div 2 + 5 + k mod 2), lc_out = replicate 5 Prod_ok @ map iter_line [0..<k]\<rparr>, s')
    \<and> ok s' \<and> contents s' = map letter_at [k div 2..<k div 2 + 5 + k mod 2]"
proof -
  let ?c = "\<lparr>lc_letter = ch CHR ''a'', lc_out = []\<rparr>"
  obtain s1 where s1: "run_ops (replicate 5 (produce ex g)) (?c, s)
      = Cont (?c\<lparr>lc_letter := letter_at 5, lc_out := replicate 5 Prod_ok\<rparr>, s1)" "ok s1"
      "contents s1 = map letter_at [0..<5]"
    using produce_many [OF assms(1), of 0 0 ?c 5 g] assms(2) by (auto simp: letter_at_def ARR_SIZE_def)
  from iterations [OF s1(2,3), of "?c\<lparr>lc_letter := letter_at 5, lc_out := replicate 5 Prod_ok\<rparr>" g k]
  show ?thesis unfolding client_session_def run_ops_append [OF s1(1)] by simp
qed

end

section \<open>The session with the single-threaded server\<close>

text \<open>
  One connection as \<open>serve\<close> of \<open>server_2.c\<close> sees it: the request arrives whole, the client reads
  the answer and closes.  \<open>t\<close> gives the two clock readings around the request.
\<close>

definition s2_exchange :: "timespec \<times> timespec \<Rightarrow> req_t \<Rightarrow> server2 \<Rightarrow> (req_t \<times> server2) outcome" where
  "s2_exchange t req s = (case serve [Msg req (fst t) (snd t), Eof] s of
       Cont (replies, s') \<Rightarrow> (case replies of reply # _ \<Rightarrow> Cont (reply, s') | [] \<Rightarrow> Blocked)
     | Blocked \<Rightarrow> Blocked | Exit e \<Rightarrow> Exit e | UB \<Rightarrow> UB)"

lemma s2_log_contents [simp]: "s2_contents (s\<lparr>s2_log := l\<rparr>) = s2_contents s"
  by (simp add: s2_contents_def s2_count_def)

interpretation s2c: letter_service "s2_exchange t" s2_inv s2_contents for t
proof unfold_locales
  fix s :: server2 and r :: req_t
  assume s: "s2_inv s" "length (s2_contents s) < ARR_SIZE" and r: "req_type r = ch CHR ''p''"
  obtain s' where "serve_p r s = Cont (r\<lparr>req_status := OK\<rparr>, s')" "s2_inv s'"
    "s2_contents s' = s2_contents s @ [req_letter r]"
    using serve_p_room [OF s(1), of r] s(2) by auto
  then show "\<exists>s'. s2_exchange t r s = Cont (r\<lparr>req_status := OK\<rparr>, s') \<and> s2_inv s' \<and>
      s2_contents s' = s2_contents s @ [req_letter r]"
    using r by (simp add: s2_exchange_def serve_switch_def)
next
  fix s :: server2 and r :: req_t and l ls
  assume s: "s2_inv s" "s2_contents s = l # ls" and r: "req_type r = ch CHR ''c''"
  have "0 < s2_count s" using s(2) s2_contents_length [of s] by (metis length_greater_0_conv list.discI)
  then obtain s' x where "serve_c r s = Cont (r\<lparr>req_letter := x, req_status := OK\<rparr>, s')" "s2_inv s'"
    "s2_contents s = x # s2_contents s'"
    using serve_c_some [OF s(1), of r] by blast
  then show "\<exists>s'. s2_exchange t r s = Cont (r\<lparr>req_letter := l, req_status := OK\<rparr>, s') \<and> s2_inv s' \<and>
      s2_contents s' = ls"
    using r s(2) by (simp add: s2_exchange_def serve_switch_def)
qed

text \<open>
  (C5) Client and server together: run against the freshly started single-threaded server, the
  client never sees a refusal.  It prints five "(ok)" lines, then in turn "(ok)" and the next
  letter of the alphabet sequence a, b, \<dots>, z, a, \<dots>, so every letter comes back in the order
  it was produced; at the end the server holds the five letters that follow.
\<close>

theorem client_session_alphabet:
  "\<exists>s'. client_main 3 1 (s2_exchange t) g s2_boot
      = Cont (\<lparr>lc_letter = letter_at 20005,
              lc_out = replicate 5 Prod_ok @
                map (\<lambda>i. if even i then Prod_ok else Cons_letter (letter_at (i div 2))) [0..<40000]\<rparr>, s')
    \<and> s2_inv s' \<and> s2_contents s' = map letter_at [20000..<20005]"
proof -
  have 0: "s2_contents s2_boot = []" by (simp add: s2_contents_def s2_count_def s2_boot_def)
  have "iter_line = (\<lambda>i. if even i then Prod_ok else Cons_letter (letter_at (i div 2)))"
    by (auto simp: iter_line_def even_iff_mod_2_eq_zero)
  with s2c.session [OF s2_boot_inv 0, of 40000 t g]
  show ?thesis by (simp del: upt_rec_numeral add: client_main_def)
qed

end
