(* ===== verification/Rpc_Dispatch.thy ===== *)
theory Rpc_Dispatch
  imports Ticket_Rpc
begin

text \<open>
  The dispatcher of the ticket server (\<open>sem_05/rpc/compile/0/bakery_svc.c\<close>) and its client.  The
  number procedure runs in a thread of its own under \<open>send_mutex\<close>, the service procedure in the
  thread of \<open>svc_run\<close>.  The model interleaves the statements of the threads; the refinement
  theorem gives back the atomic calls on which the ticket service of \<open>Ticket_Rpc\<close> is built.
\<close>

section \<open>State\<close>

datatype rpc_reply = Void_reply | Int_reply int | Result_reply bakery_result | Err_noproc | Err_decode | Err_system

datatype thread_id = Main_thread | Worker nat

datatype w_pc = W_lock | W_read | W_incr | W_send | W_unlock | W_free | W_end

text \<open>A worker with its \<open>thread_data_t\<close> and its \<open>result\<close>, which starts with any value.\<close>

record worker =
  w_transp :: nat
  w_pc :: w_pc
  w_res :: int

datatype m_pc = M_idle | M_call nat int | M_lock nat bool bakery_result | M_send nat bool bakery_result
  | M_unlock | M_freeargs

record svc0 =
  d_srv :: bakery0
  send_mutex :: "thread_id option"
  d_workers :: "worker list"
  d_main :: m_pc
  d_sent :: "(thread_id \<times> nat \<times> rpc_reply) list"

record rpc_request =
  rq_proc :: int
  rq_transp :: nat
  rq_args :: "int option"
  rq_malloc :: bool
  rq_attr :: bool
  rq_create :: bool
  rq_stack :: int

definition NULLPROC :: int where "NULLPROC = 0"
definition GET_NUMBER :: int where "GET_NUMBER = 1"
definition BAKERY_PROC :: int where "BAKERY_PROC = 2"

lemmas proc_defs = NULLPROC_def GET_NUMBER_def BAKERY_PROC_def

section \<open>Operations\<close>

definition put_reply :: "thread_id \<Rightarrow> nat \<Rightarrow> rpc_reply \<Rightarrow> svc0 \<Rightarrow> svc0" where
  "put_reply th t r s = s\<lparr>d_sent := d_sent s @ [(th, t, r)]\<rparr>"

text \<open>\<open>svc_sendreply\<close> with the answer \<open>svcerr_systemerr\<close> when it fails.\<close>

definition send_or_err :: "thread_id \<Rightarrow> nat \<Rightarrow> rpc_reply \<Rightarrow> bool \<Rightarrow> svc0 \<Rightarrow> svc0" where
  "send_or_err th t r ok s = put_reply th t (if ok then r else Err_system) s"

definition set_worker :: "nat \<Rightarrow> worker \<Rightarrow> svc0 \<Rightarrow> svc0" where
  "set_worker i w s = s\<lparr>d_workers := (d_workers s)[i := w]\<rparr>"

text \<open>
  The statements of \<open>get_number_worker\<close>.  \<open>W_read\<close> and \<open>W_incr\<close> are the two statements of
  \<open>get_number_1_svc\<close>, which always returns TRUE.
\<close>

definition get_number_worker :: "nat \<Rightarrow> bool \<Rightarrow> svc0 \<Rightarrow> svc0 outcome" where
  "get_number_worker i ok s = (let w = d_workers s ! i; srv = d_srv s in
     case w_pc w of
       W_lock \<Rightarrow> (if send_mutex s = None
          then Cont (set_worker i (w\<lparr>w_pc := W_read\<rparr>) (s\<lparr>send_mutex := Some (Worker i)\<rparr>)) else Blocked)
     | W_read \<Rightarrow> Cont (set_worker i (w\<lparr>w_res := client_num srv, w_pc := W_incr\<rparr>) s)
     | W_incr \<Rightarrow> Cont (set_worker i (w\<lparr>w_pc := W_send\<rparr>) (s\<lparr>d_srv := srv\<lparr>client_num := client_num srv + 1\<rparr>\<rparr>))
     | W_send \<Rightarrow> Cont (set_worker i (w\<lparr>w_pc := W_unlock\<rparr>) (send_or_err (Worker i) (w_transp w) (Int_reply (w_res w)) ok s))
     | W_unlock \<Rightarrow> Cont (set_worker i (w\<lparr>w_pc := W_free\<rparr>) (s\<lparr>send_mutex := None\<rparr>))
     | W_free \<Rightarrow> Cont (set_worker i (w\<lparr>w_pc := W_end\<rparr>) s)
     | W_end \<Rightarrow> Blocked)"

text \<open>The dispatcher on a new request; \<open>ok\<close> tells whether the reply to \<open>NULLPROC\<close> is sent.\<close>

definition bakery_prog_1 :: "rpc_request \<Rightarrow> bool \<Rightarrow> svc0 \<Rightarrow> svc0 outcome" where
  "bakery_prog_1 rq ok s =
     (if rq_proc rq = NULLPROC then Cont (if ok then put_reply Main_thread (rq_transp rq) Void_reply s else s)
      else if rq_proc rq = GET_NUMBER then
        (if \<not> rq_malloc rq then Exit 1
         else if \<not> rq_attr rq then Exit 1
         else if \<not> rq_create rq then Exit 1
         else Cont (s\<lparr>d_workers := d_workers s @ [\<lparr>w_transp = rq_transp rq, w_pc = W_lock, w_res = rq_stack rq\<rparr>]\<rparr>))
      else if rq_proc rq = BAKERY_PROC then
        (case rq_args rq of
           None \<Rightarrow> Cont (put_reply Main_thread (rq_transp rq) Err_decode s)
         | Some a \<Rightarrow> Cont (s\<lparr>d_main := M_call (rq_transp rq) a\<rparr>))
      else Cont (put_reply Main_thread (rq_transp rq) Err_noproc s))"

text \<open>The rest of the branch of \<open>BAKERY_PROC\<close> (lines 119 to 130), one statement at a time.\<close>

definition bakery_prog_1_rest :: "(int \<times> int) option \<Rightarrow> bool \<Rightarrow> svc0 \<Rightarrow> svc0 outcome" where
  "bakery_prog_1_rest clk ok s = (case d_main s of
       M_idle \<Rightarrow> Blocked
     | M_call t a \<Rightarrow> (case bakery_proc_1_svc clk a (d_srv s) of
           ((retval, res), srv) \<Rightarrow> Cont (s\<lparr>d_srv := srv, d_main := M_lock t retval res\<rparr>))
     | M_lock t retval res \<Rightarrow> (if send_mutex s = None
          then Cont (s\<lparr>send_mutex := Some Main_thread, d_main := M_send t retval res\<rparr>) else Blocked)
     | M_send t retval res \<Rightarrow>
          Cont ((if retval then send_or_err Main_thread t (Result_reply res) ok s else s)\<lparr>d_main := M_unlock\<rparr>)
     | M_unlock \<Rightarrow> Cont (s\<lparr>send_mutex := None, d_main := M_freeargs\<rparr>)
     | M_freeargs \<Rightarrow> (if ok then Cont (s\<lparr>d_main := M_idle\<rparr>) else Exit 1))"

definition svc0_boot :: svc0 where
  "svc0_boot = \<lparr>d_srv = bakery0_boot, send_mutex = None, d_workers = [], d_main = M_idle, d_sent = []\<rparr>"

text \<open>
  \<open>main\<close>: the transports it creates and registers; \<open>Cont\<close> is the server inside \<open>svc_run\<close>, and every
  other way out is \<open>exit(1)\<close>.  The second component are the registrations the port mapper keeps.
\<close>

datatype transport = Udp | Tcp

definition svc_main :: "bool \<Rightarrow> bool \<Rightarrow> bool \<Rightarrow> bool \<Rightarrow> svc0 outcome \<times> transport list" where
  "svc_main udp_created udp_registered tcp_created tcp_registered =
     (if \<not> udp_created then (Exit 1, [])
      else if \<not> udp_registered then (Exit 1, [])
      else if \<not> tcp_created then (Exit 1, [Udp])
      else if \<not> tcp_registered then (Exit 1, [Udp])
      else (Cont svc0_boot, [Udp, Tcp]))"

section \<open>Interleaving\<close>

datatype svc_event = Request rpc_request bool | Main_step "(int \<times> int) option" bool | Worker_step nat bool

fun svc0_act :: "svc_event \<Rightarrow> svc0 \<Rightarrow> svc0 outcome" where
  "svc0_act (Request rq ok) s = (if d_main s = M_idle then bakery_prog_1 rq ok s else Blocked)"
| "svc0_act (Main_step clk ok) s = bakery_prog_1_rest clk ok s"
| "svc0_act (Worker_step i ok) s = (if i < length (d_workers s) then get_number_worker i ok s else Blocked)"

inductive svc0_reach :: "svc0 \<Rightarrow> bool" where
  boot: "svc0_reach svc0_boot"
| step: "svc0_reach s \<Longrightarrow> svc0_act e s = Cont s' \<Longrightarrow> svc0_reach s'"

fun svc0_run :: "svc_event list \<Rightarrow> svc0 \<Rightarrow> svc0 outcome" where
  "svc0_run [] s = Cont s"
| "svc0_run (e # es) s = (case svc0_act e s of Cont s' \<Rightarrow> svc0_run es s' | Blocked \<Rightarrow> Blocked | Exit c \<Rightarrow> Exit c | UB \<Rightarrow> UB)"

lemma svc0_run_reach: "svc0_run es s = Cont s' \<Longrightarrow> svc0_reach s \<Longrightarrow> svc0_reach s'"
  by (induction es s rule: svc0_run.induct) (auto split: outcome.splits intro: svc0_reach.step)

section \<open>Invariant\<close>

definition in_crit :: "w_pc \<Rightarrow> bool" where
  "in_crit p \<longleftrightarrow> p \<in> {W_read, W_incr, W_send, W_unlock}"

definition has_drawn :: "w_pc \<Rightarrow> bool" where
  "has_drawn p \<longleftrightarrow> p \<in> {W_send, W_unlock, W_free, W_end}"

definition has_sent :: "w_pc \<Rightarrow> bool" where
  "has_sent p \<longleftrightarrow> p \<in> {W_unlock, W_free, W_end}"

lemmas pc_defs = in_crit_def has_drawn_def has_sent_def

definition drawn :: "worker list \<Rightarrow> nat set" where
  "drawn ws = {i. i < length ws \<and> has_drawn (w_pc (ws ! i))}"

definition replies_of :: "nat \<Rightarrow> svc0 \<Rightarrow> (nat \<times> rpc_reply) list" where
  "replies_of i s = map snd (filter (\<lambda>(th, _). th = Worker i) (d_sent s))"

definition worker_ok :: "svc0 \<Rightarrow> nat \<Rightarrow> bool" where
  "worker_ok s i \<longleftrightarrow> (let w = d_workers s ! i in
     (in_crit (w_pc w) \<longleftrightarrow> send_mutex s = Some (Worker i)) \<and>
     (w_pc w = W_incr \<longrightarrow> w_res w = client_num (d_srv s)) \<and>
     (if has_sent (w_pc w) then replies_of i s \<in> {[(w_transp w, Int_reply (w_res w))], [(w_transp w, Err_system)]}
      else replies_of i s = []))"

definition svc0_inv :: "svc0 \<Rightarrow> bool" where
  "svc0_inv s \<longleftrightarrow> (\<forall>i < length (d_workers s). worker_ok s i) \<and>
     (\<forall>i \<ge> length (d_workers s). replies_of i s = [] \<and> send_mutex s \<noteq> Some (Worker i)) \<and>
     (send_mutex s = Some Main_thread \<longleftrightarrow> d_main s = M_unlock \<or> (\<exists>t r b. d_main s = M_send t r b)) \<and>
     0 \<le> client_num (d_srv s) \<and>
     bij_betw (\<lambda>i. w_res (d_workers s ! i)) (drawn (d_workers s)) {0..<client_num (d_srv s)}"

lemma replies_of_simps [simp]:
  "replies_of i (set_worker j w s) = replies_of i s"
  "replies_of i (s\<lparr>d_workers := ws\<rparr>) = replies_of i s" "replies_of i (s\<lparr>d_srv := x\<rparr>) = replies_of i s"
  "replies_of i (s\<lparr>send_mutex := m\<rparr>) = replies_of i s" "replies_of i (s\<lparr>d_main := p\<rparr>) = replies_of i s"
  "replies_of i (put_reply th t r s) = replies_of i s @ (if th = Worker i then [(t, r)] else [])"
  by (simp_all add: replies_of_def set_worker_def put_reply_def)

lemma set_worker_sel [simp]:
  "d_workers (set_worker j w s) = (d_workers s)[j := w]" "d_srv (set_worker j w s) = d_srv s"
  "send_mutex (set_worker j w s) = send_mutex s" "d_main (set_worker j w s) = d_main s"
  by (simp_all add: set_worker_def)

lemma put_reply_sel [simp]:
  "d_workers (put_reply th t r s) = d_workers s" "d_srv (put_reply th t r s) = d_srv s"
  "send_mutex (put_reply th t r s) = send_mutex s" "d_main (put_reply th t r s) = d_main s"
  by (simp_all add: put_reply_def)

lemma drawn_update:
  "i < length ws \<Longrightarrow> drawn (ws[i := w]) = (if has_drawn (w_pc w) then insert i (drawn ws) else drawn ws - {i})"
  by (auto simp: drawn_def nth_list_update split: if_splits)

lemma bij_frame:
  assumes "bij_betw (\<lambda>k. w_res (ws ! k)) A B" "i \<notin> A \<or> w_res w = w_res (ws ! i)" "i < length ws"
  shows "bij_betw (\<lambda>k. w_res (ws[i := w] ! k)) A B"
  using assms(1) by (subst bij_betw_cong [where g = "\<lambda>k. w_res (ws ! k)"]) (use assms(2,3) in \<open>auto simp: nth_list_update\<close>)

lemma bij_draw:
  assumes "bij_betw (\<lambda>k. w_res (ws ! k)) A {0..<n}" "i \<notin> A" "w_res w = n" "i < length ws" "0 \<le> n"
  shows "bij_betw (\<lambda>k. w_res (ws[i := w] ! k)) (insert i A) {0..<n + 1}"
proof -
  have "bij_betw (\<lambda>k. w_res (ws[i := w] ! k)) A {0..<n}" using bij_frame [OF assms(1)] assms(2,4) by blast
  moreover have "{0..<n + 1} = {0..<n} \<union> {w_res (ws[i := w] ! i)}" using assms(3-5) by auto
  ultimately show ?thesis using notIn_Un_bij_betw [OF assms(2), of "\<lambda>k. w_res (ws[i := w] ! k)" "{0..<n}"] assms(3,4) by simp
qed

lemma svc0_invD:
  assumes "svc0_inv s"
  shows "i < length (d_workers s) \<Longrightarrow> worker_ok s i"
    and "length (d_workers s) \<le> i \<Longrightarrow> replies_of i s = [] \<and> send_mutex s \<noteq> Some (Worker i)"
    and "bij_betw (\<lambda>i. w_res (d_workers s ! i)) (drawn (d_workers s)) {0..<client_num (d_srv s)}"
    and "0 \<le> client_num (d_srv s)"
  using assms unfolding svc0_inv_def by blast+

text \<open>A step of worker \<open>i\<close> keeps the invariant if it keeps its own part and does not disturb the others.\<close>

lemma svc0_inv_worker:
  assumes inv: "svc0_inv s" and i: "i < length (d_workers s)"
    and ws: "d_workers s' = (d_workers s)[i := w]" and main: "d_main s' = d_main s"
    and own: "worker_ok s' i"
    and others: "\<And>j. j \<noteq> i \<Longrightarrow> replies_of j s' = replies_of j s \<and>
        (send_mutex s' = Some (Worker j) \<longleftrightarrow> send_mutex s = Some (Worker j))"
    and mutex: "send_mutex s' = Some Main_thread \<longleftrightarrow> send_mutex s = Some Main_thread"
    and srv: "d_srv s' = d_srv s \<or> send_mutex s = Some (Worker i)"
    and num: "0 \<le> client_num (d_srv s')"
      "bij_betw (\<lambda>k. w_res ((d_workers s)[i := w] ! k)) (drawn ((d_workers s)[i := w])) {0..<client_num (d_srv s')}"
  shows "svc0_inv s'"
proof -
  have "worker_ok s' j" if j: "j < length (d_workers s')" "j \<noteq> i" for j
  proof -
    have "worker_ok s j" using svc0_invD(1) [OF inv] j ws by simp
    then show ?thesis using others [OF j(2)] j ws srv by (auto simp: worker_ok_def Let_def pc_defs)
  qed
  then have all: "\<forall>j < length (d_workers s'). worker_ok s' j" using own by metis
  have "replies_of j s' = [] \<and> send_mutex s' \<noteq> Some (Worker j)" if "length (d_workers s') \<le> j" for j
    using svc0_invD(2) [OF inv, of j] others [of j] that i ws by auto
  then show ?thesis
    using all mutex main num inv ws by (simp add: svc0_inv_def)
qed

lemma get_number_worker_inv:
  assumes inv: "svc0_inv s" and i: "i < length (d_workers s)" and run: "get_number_worker i ok s = Cont s'"
  shows "svc0_inv s'"
proof -
  let ?w = "d_workers s ! i"
  note wok = svc0_invD(1) [OF inv i] and bij = svc0_invD(3) [OF inv] and pos = svc0_invD(4) [OF inv]
  have d: "i \<in> drawn (d_workers s) \<longleftrightarrow> has_drawn (w_pc ?w)" using i by (simp add: drawn_def)
  show ?thesis
  proof (cases "w_pc ?w = W_incr")
    case True
    let ?n = "client_num (d_srv s)" and ?w' = "?w\<lparr>w_pc := W_send\<rparr>"
    have s': "s' = set_worker i ?w' (s\<lparr>d_srv := d_srv s\<lparr>client_num := ?n + 1\<rparr>\<rparr>)"
      using run True by (simp add: get_number_worker_def Let_def)
    have res: "w_res ?w = ?n" "send_mutex s = Some (Worker i)"
      using wok True by (auto simp: worker_ok_def pc_defs)
    have "i \<notin> drawn (d_workers s)" using d True by (simp add: pc_defs)
    from bij_draw [OF bij this, of ?w'] res(1) i pos
    have "bij_betw (\<lambda>k. w_res ((d_workers s)[i := ?w'] ! k)) (drawn ((d_workers s)[i := ?w'])) {0..<?n + 1}"
      by (simp add: drawn_update pc_defs)
    then show ?thesis
      using wok i True pos res by (intro svc0_inv_worker [OF inv i, of s' ?w']) (auto simp: s' worker_ok_def pc_defs Let_def)
  next
    case False
    obtain w where w: "d_workers s' = (d_workers s)[i := w]" "d_srv s' = d_srv s" "d_main s' = d_main s"
        "has_drawn (w_pc w) = has_drawn (w_pc ?w)" "has_drawn (w_pc w) \<longrightarrow> w_res w = w_res ?w"
      using run False by (cases "w_pc ?w") (auto simp: get_number_worker_def Let_def send_or_err_def pc_defs split: if_splits)
    have "drawn ((d_workers s)[i := w]) = drawn (d_workers s)" using d w(4) i by (auto simp: drawn_update)
    then have num: "bij_betw (\<lambda>k. w_res ((d_workers s)[i := w] ! k)) (drawn ((d_workers s)[i := w])) {0..<client_num (d_srv s')}"
      using bij_frame [OF bij, of i w] d w(2,4,5) i by auto
    show ?thesis
    proof (rule svc0_inv_worker [OF inv i w(1) w(3) _ _ _ _ _ num])
      show "worker_ok s' i"
        using run wok i False by (cases "w_pc ?w") (auto simp: get_number_worker_def Let_def send_or_err_def worker_ok_def pc_defs split: if_splits)
      show "replies_of j s' = replies_of j s \<and> (send_mutex s' = Some (Worker j) \<longleftrightarrow> send_mutex s = Some (Worker j))" if "j \<noteq> i" for j
        using run wok that by (cases "w_pc ?w") (auto simp: get_number_worker_def Let_def send_or_err_def worker_ok_def pc_defs split: if_splits)
      show "send_mutex s' = Some Main_thread \<longleftrightarrow> send_mutex s = Some Main_thread"
        using run wok by (cases "w_pc ?w") (auto simp: get_number_worker_def Let_def send_or_err_def worker_ok_def pc_defs split: if_splits)
    qed (use w pos in auto)
  qed
qed

text \<open>A step of the dispatcher's thread that leaves the workers alone.\<close>

lemma svc0_inv_main:
  assumes "svc0_inv s" "d_workers s' = d_workers s" "client_num (d_srv s') = client_num (d_srv s)"
    "\<And>i. replies_of i s' = replies_of i s"
    "\<And>i. send_mutex s' = Some (Worker i) \<longleftrightarrow> send_mutex s = Some (Worker i)"
    "send_mutex s' = Some Main_thread \<longleftrightarrow> d_main s' = M_unlock \<or> (\<exists>t r b. d_main s' = M_send t r b)"
  shows "svc0_inv s'"
proof -
  have "worker_ok s' i = worker_ok s i" for i using assms(2-5) by (simp add: worker_ok_def)
  then show ?thesis using assms unfolding svc0_inv_def by simp
qed

lemma bakery_proc_1_client_num: "bakery_proc_1_svc clk a x = (r, y) \<Longrightarrow> client_num y = client_num x"
  by (auto simp: bakery_proc_1_svc_def split: if_splits option.splits)

lemma bakery_prog_1_rest_inv:
  assumes inv: "svc0_inv s" and run: "bakery_prog_1_rest clk ok s = Cont s'"
  shows "svc0_inv s'"
proof -
  have "send_mutex s = Some Main_thread \<longleftrightarrow> d_main s = M_unlock \<or> (\<exists>t r b. d_main s = M_send t r b)"
    using inv by (simp add: svc0_inv_def)
  then show ?thesis
    using run by (intro svc0_inv_main [OF inv])
      (auto simp: bakery_prog_1_rest_def send_or_err_def dest: bakery_proc_1_client_num split: m_pc.splits prod.splits if_splits)
qed

lemma new_worker_inv:
  assumes inv: "svc0_inv s"
  shows "svc0_inv (s\<lparr>d_workers := d_workers s @ [\<lparr>w_transp = t, w_pc = W_lock, w_res = r\<rparr>]\<rparr>)" (is "svc0_inv ?s")
proof -
  let ?n = "length (d_workers s)"
  have dr: "drawn (d_workers ?s) = drawn (d_workers s)" by (auto simp: drawn_def nth_append pc_defs)
  have "bij_betw (\<lambda>i. w_res (d_workers ?s ! i)) (drawn (d_workers s)) {0..<client_num (d_srv s)}"
    using svc0_invD(3) [OF inv] by (subst bij_betw_cong [where g = "\<lambda>i. w_res (d_workers s ! i)"])
      (auto simp: drawn_def nth_append)
  moreover have "worker_ok ?s i" if "i < Suc ?n" for i
    using that svc0_invD(1,2) [OF inv, of i] by (cases "i = ?n") (auto simp: worker_ok_def nth_append pc_defs Let_def)
  ultimately show ?thesis using inv unfolding svc0_inv_def dr by simp
qed

lemma bakery_prog_1_inv:
  assumes inv: "svc0_inv s" and idle: "d_main s = M_idle" and run: "bakery_prog_1 rq ok s = Cont s'"
  shows "svc0_inv s'"
proof -
  have m: "send_mutex s \<noteq> Some Main_thread" using inv idle by (simp add: svc0_inv_def)
  show ?thesis
  proof (cases "rq_proc rq = GET_NUMBER")
    case True
    then have "s' = s\<lparr>d_workers := d_workers s @ [\<lparr>w_transp = rq_transp rq, w_pc = W_lock, w_res = rq_stack rq\<rparr>]\<rparr>"
      using run by (auto simp: bakery_prog_1_def proc_defs split: if_splits)
    then show ?thesis using new_worker_inv [OF inv] by simp
  next
    case False
    then show ?thesis
      using run m idle by (intro svc0_inv_main [OF inv]) (auto simp: bakery_prog_1_def split: if_splits option.splits)
  qed
qed

lemma svc0_boot_inv: "svc0_inv svc0_boot"
  by (simp add: svc0_inv_def svc0_boot_def bakery0_boot_def replies_of_def drawn_def bij_betw_def)

lemma svc0_reach_inv: "svc0_reach s \<Longrightarrow> svc0_inv s"
proof (induction rule: svc0_reach.induct)
  case boot
  show ?case by (rule svc0_boot_inv)
next
  case (step s e s')
  then show ?case
    by (cases e) (auto split: if_splits intro: bakery_prog_1_inv bakery_prog_1_rest_inv get_number_worker_inv)
qed

section \<open>The client\<close>

text \<open>
  \<open>bakery_prog_1\<close> of \<open>bakery_client.c\<close>.  The two lists give what the remote calls return, \<open>None\<close>
  being a failed call; when the answers run out the client is waiting for one.  A failed call
  for a number is only reported: the client goes on with the uninitialised \<open>result_1\<close>.
\<close>

datatype b0_line = Waiting int | Served int "int option" | Call_failed

fun b0_client_loop :: "int \<Rightarrow> bakery_result option list \<Rightarrow> b0_line list \<Rightarrow> b0_line list outcome" where
  "b0_client_loop arg [] out = Blocked"
| "b0_client_loop arg (None # rs) out = Exit 1"
| "b0_client_loop arg (Some r # rs) out =
     (if is_recieved_time r \<noteq> 0 then Cont (out @ [Served (arg + 1) (br_time r)])
      else b0_client_loop arg rs (out @ [Waiting arg]))"

definition b0_client :: "bool \<Rightarrow> int \<Rightarrow> int option \<Rightarrow> bakery_result option list \<Rightarrow> b0_line list outcome" where
  "b0_client created result_1 number rs =
     (if \<not> created then Exit 1
      else (case number of
          None \<Rightarrow> b0_client_loop result_1 rs [Call_failed]
        | Some n \<Rightarrow> b0_client_loop n rs []))"

text \<open>
  \<open>main\<close> of the client: sessions until SIGINT has cleared \<open>flag\<close>.  Each session comes with what its
  calls return and whether the signal arrives during it; without a further session the client
  is still in its loop.
\<close>

record b0_session =
  se_created :: bool
  se_stack :: int
  se_number :: "int option"
  se_polls :: "bakery_result option list"
  se_sigint :: bool

fun b0_client_rounds :: "b0_session list \<Rightarrow> bool \<Rightarrow> b0_line list \<Rightarrow> b0_line list outcome" where
  "b0_client_rounds ses flag out = (if \<not> flag then Exit 0 else case ses of
      [] \<Rightarrow> Cont out
    | se # ses' \<Rightarrow> (case b0_client (se_created se) (se_stack se) (se_number se) (se_polls se) of
          Cont ls \<Rightarrow> b0_client_rounds ses' (\<not> se_sigint se) (out @ ls)
        | Blocked \<Rightarrow> Blocked | Exit c \<Rightarrow> Exit c | UB \<Rightarrow> UB))"

declare b0_client_rounds.simps [simp del]

definition b0_client_main :: "int \<Rightarrow> bool \<Rightarrow> b0_session list \<Rightarrow> b0_line list outcome" where
  "b0_client_main argc signal_ok ses =
     (if argc < 2 then Exit 1 else if \<not> signal_ok then Exit 1 else b0_client_rounds ses True [])"

text \<open>What the server answers to the polls of the holder of ticket \<open>t\<close> while the counter moves.\<close>

fun b0_polls :: "int \<Rightarrow> (int \<times> int) option list \<Rightarrow> bakery0 list \<Rightarrow> bakery_result option list" where
  "b0_polls t (clk # clks) (x # xs) = (case bakery_proc_1_svc clk t x of
      ((retval, res), y) \<Rightarrow> (if retval then Some res else None) # b0_polls t clks xs)"
| "b0_polls t _ _ = []"

section \<open>Properties\<close>

text \<open>
  (C21) The threaded dispatcher refines the atomic ticket service: in every reachable state each
  step of any thread either leaves the counters alone, or is exactly one call of
  \<open>get_number_1_svc\<close>, whose number is the one this worker sends, or one call of
  \<open>bakery_proc_1_svc\<close>, whose result is the one the dispatcher sends.
\<close>

theorem svc0_refines_atomic:
  assumes "svc0_reach s" "svc0_act e s = Cont s'"
  shows "d_srv s' = d_srv s \<or>
    (\<exists>i ok. e = Worker_step i ok \<and> get_number_1_svc (d_srv s) = (w_res (d_workers s' ! i), d_srv s')) \<or>
    (\<exists>clk ok t a retval res. e = Main_step clk ok \<and> d_main s = M_call t a \<and>
       bakery_proc_1_svc clk a (d_srv s) = ((retval, res), d_srv s') \<and> d_main s' = M_lock t retval res)"
proof (cases e)
  case (Request rq ok)
  then show ?thesis using assms(2) by (auto simp: bakery_prog_1_def split: if_splits option.splits)
next
  case (Main_step clk ok)
  then show ?thesis
    using assms(2) by (auto simp: bakery_prog_1_rest_def send_or_err_def split: m_pc.splits prod.splits if_splits)
next
  case (Worker_step i ok)
  then have i: "i < length (d_workers s)" and run: "get_number_worker i ok s = Cont s'"
    using assms(2) by (auto split: if_splits)
  have "worker_ok s i" using svc0_invD(1) [OF svc0_reach_inv [OF assms(1)] i] .
  then show ?thesis
    using run i Worker_step by (cases "w_pc (d_workers s ! i)")
      (auto simp: get_number_worker_def Let_def send_or_err_def worker_ok_def get_number_1_svc_def split: if_splits)
qed

lemma svc0_crit_unique:
  assumes "svc0_inv s" "i < length (d_workers s)" "j < length (d_workers s)"
    "in_crit (w_pc (d_workers s ! i))" "in_crit (w_pc (d_workers s ! j))"
  shows "i = j"
  using svc0_invD(1) [OF assms(1,2)] svc0_invD(1) [OF assms(1,3)] assms(4,5) by (simp add: worker_ok_def Let_def)

text \<open>The holder of the mutex can always go on, so nobody waits for ever on a thread that waits.\<close>

lemma svc0_holder_runs:
  assumes inv: "svc0_inv s" and held: "send_mutex s \<noteq> None"
  shows "\<exists>e s'. svc0_act e s = Cont s'"
proof (cases "send_mutex s = Some Main_thread")
  case True
  then have "d_main s = M_unlock \<or> (\<exists>t r b. d_main s = M_send t r b)" using inv by (simp add: svc0_inv_def)
  then have "\<exists>s'. bakery_prog_1_rest None True s = Cont s'" by (auto simp: bakery_prog_1_rest_def)
  then show ?thesis by (metis svc0_act.simps(2))
next
  case False
  then obtain i where m: "send_mutex s = Some (Worker i)" using held by (metis not_None_eq thread_id.exhaust)
  then have i: "i < length (d_workers s)" using svc0_invD(2) [OF inv, of i] by force
  then have "in_crit (w_pc (d_workers s ! i))" using svc0_invD(1) [OF inv i] m by (simp add: worker_ok_def Let_def)
  then have "\<exists>s'. get_number_worker i True s = Cont s'"
    by (cases "w_pc (d_workers s ! i)") (simp_all add: get_number_worker_def Let_def pc_defs)
  then show ?thesis using i by (metis svc0_act.simps(3))
qed

text \<open>
  (C22) What the clients of the dispatcher see, whatever the interleaving: at most one worker is
  between lock and unlock; the numbers drawn so far are 0, 1, \<dots> without gaps or repetition,
  one per worker; a worker answers its own connection exactly once, with its number (or with
  a system error when the send fails), and nothing before; and as long as a thread has work to
  do some thread can take a step.  A connection is a transport, one per client as over TCP, which the client uses; over UDP all clients share one.
\<close>

theorem svc0_workers_answer_once:
  assumes "svc0_reach s"
  shows "(\<forall>i < length (d_workers s). \<forall>j < length (d_workers s).
      in_crit (w_pc (d_workers s ! i)) \<and> in_crit (w_pc (d_workers s ! j)) \<longrightarrow> i = j) \<and>
    bij_betw (\<lambda>i. w_res (d_workers s ! i))
      {i. i < length (d_workers s) \<and> has_drawn (w_pc (d_workers s ! i))} {0..<client_num (d_srv s)} \<and>
    (\<forall>i < length (d_workers s). let w = d_workers s ! i in
      if has_sent (w_pc w) then replies_of i s = [(w_transp w, Int_reply (w_res w))] \<or> replies_of i s = [(w_transp w, Err_system)]
      else replies_of i s = []) \<and>
    ((\<exists>i < length (d_workers s). w_pc (d_workers s ! i) \<noteq> W_end) \<or> d_main s \<noteq> M_idle \<longrightarrow>
      (\<exists>e s'. svc0_act e s = Cont s'))"
proof (intro conjI impI)
  note inv = svc0_reach_inv [OF assms]
  show "\<forall>i < length (d_workers s). \<forall>j < length (d_workers s).
      in_crit (w_pc (d_workers s ! i)) \<and> in_crit (w_pc (d_workers s ! j)) \<longrightarrow> i = j"
    using svc0_crit_unique [OF inv] by blast
  show "bij_betw (\<lambda>i. w_res (d_workers s ! i))
      {i. i < length (d_workers s) \<and> has_drawn (w_pc (d_workers s ! i))} {0..<client_num (d_srv s)}"
    using svc0_invD(3) [OF inv] unfolding drawn_def .
  show "\<forall>i < length (d_workers s). let w = d_workers s ! i in
      if has_sent (w_pc w) then replies_of i s = [(w_transp w, Int_reply (w_res w))] \<or> replies_of i s = [(w_transp w, Err_system)]
      else replies_of i s = []"
    using svc0_invD(1) [OF inv] unfolding worker_ok_def Let_def by (metis insertE singletonD)
  assume busy: "(\<exists>i < length (d_workers s). w_pc (d_workers s ! i) \<noteq> W_end) \<or> d_main s \<noteq> M_idle"
  show "\<exists>e s'. svc0_act e s = Cont s'"
  proof (cases "send_mutex s = None")
    case True
    have "\<exists>s'. get_number_worker i True s = Cont s'" if "w_pc (d_workers s ! i) \<noteq> W_end" for i
      using that True by (cases "w_pc (d_workers s ! i)") (simp_all add: get_number_worker_def Let_def)
    moreover have "\<exists>s'. bakery_prog_1_rest None True s = Cont s'" if "d_main s \<noteq> M_idle"
      using that True by (cases "d_main s") (auto simp: bakery_prog_1_rest_def split: prod.splits)
    ultimately show ?thesis using busy by (metis svc0_act.simps(2,3))
  qed (use svc0_holder_runs [OF inv] in blast)
qed

definition svc0_demo_req :: "int \<Rightarrow> nat \<Rightarrow> svc_event" where
  "svc0_demo_req p t = Request \<lparr>rq_proc = p, rq_transp = t, rq_args = Some 0, rq_malloc = True, rq_attr = True,
     rq_create = True, rq_stack = 77\<rparr> True"

definition svc0_demo :: "svc_event list" where
  "svc0_demo = [svc0_demo_req 1 10, svc0_demo_req 1 11, Worker_step 1 True, Worker_step 1 True, svc0_demo_req 2 12,
     Worker_step 1 True, Worker_step 1 True, Main_step (Some (1, 0)) True, Worker_step 1 True, Worker_step 0 True,
     Worker_step 0 True, Worker_step 0 True]"

definition svc0_demo_end :: svc0 where
  "svc0_demo_end = (case svc0_run svc0_demo svc0_boot of Cont s \<Rightarrow> s | _ \<Rightarrow> svc0_boot)"

lemma svc0_demo_reach: "svc0_reach svc0_demo_end"
proof -
  have "is_Cont (svc0_run svc0_demo svc0_boot)" by code_simp
  then obtain s where "svc0_run svc0_demo svc0_boot = Cont s" by (auto simp: is_Cont_iff)
  then show ?thesis using svc0_run_reach [OF _ svc0_reach.boot] by (simp add: svc0_demo_end_def)
qed

lemma svc0_demo_facts:
  "length (d_workers svc0_demo_end) = 2" "w_pc (d_workers svc0_demo_end ! 1) = W_free"
  "w_res (d_workers svc0_demo_end ! 1) = 0" "w_transp (d_workers svc0_demo_end ! 1) = 11"
  "svc0_act (Worker_step 0 False) svc0_demo_end \<noteq> Blocked"
  by code_simp+

theorem svc0_workers_answer_once_witness:
  "replies_of 1 svc0_demo_end = [(11, Int_reply 0)] \<or> replies_of 1 svc0_demo_end = [(11, Err_system)]"
proof -
  have "\<forall>i < length (d_workers svc0_demo_end). let w = d_workers svc0_demo_end ! i in
      if has_sent (w_pc w) then replies_of i svc0_demo_end = [(w_transp w, Int_reply (w_res w))] \<or>
        replies_of i svc0_demo_end = [(w_transp w, Err_system)] else replies_of i svc0_demo_end = []"
    using svc0_workers_answer_once [OF svc0_demo_reach] by blast
  from this [rule_format, of 1] show ?thesis
    by (simp add: svc0_demo_facts pc_defs Let_def del: One_nat_def)
qed

theorem svc0_refines_atomic_witness:
  "\<exists>s'. svc0_act (Worker_step 0 True) svc0_demo_end = Cont s' \<and> d_srv s' = d_srv svc0_demo_end"
proof -
  have c: "is_Cont (svc0_act (Worker_step 0 True) svc0_demo_end)" by code_simp
  then obtain s' where s': "svc0_act (Worker_step 0 True) svc0_demo_end = Cont s'" by (auto simp: is_Cont_iff)
  have "get_number_1_svc (d_srv svc0_demo_end) \<noteq> (w_res (d_workers s' ! 0), d_srv s')"
  proof -
    have "(case svc0_act (Worker_step 0 True) svc0_demo_end of Cont x \<Rightarrow>
        get_number_1_svc (d_srv svc0_demo_end) \<noteq> (w_res (d_workers x ! 0), d_srv x) | _ \<Rightarrow> True)" by code_simp
    then show ?thesis by (simp del: svc0_act.simps add: s')
  qed
  then show ?thesis using svc0_refines_atomic [OF svc0_demo_reach s'] s' by auto
qed

text \<open>
  The client prints one waiting line per refused poll and then its turn: if the server's counter
  differs from its ticket at the first polls and equals it at the last one, with a working clock.
\<close>

lemma b0_client_loop_waits:
  "b0_client_loop t (map Some rs @ [Some r]) out =
     Cont (out @ replicate (length rs) (Waiting t) @ [Served (t + 1) (br_time r)])"
  if "\<forall>q \<in> set rs. is_recieved_time q = 0" "is_recieved_time r \<noteq> 0"
  using that by (induction rs arbitrary: out) (auto simp: replicate_append_same [symmetric])

lemma b0_client_served:
  assumes "\<forall>x \<in> set xs. client_number_service x \<noteq> t" "client_number_service y = t"
    "length clks = length xs"
  shows "b0_client True g (Some t) (b0_polls t (clks @ [Some (sec, nsec)]) (xs @ [y]))
    = Cont (replicate (length xs) (Waiting t) @ [Served (t + 1) (Some ((sec * 1000000000 + nsec) div 1000000))])"
proof -
  have "b0_polls t (clks @ [Some (sec, nsec)]) (xs @ [y]) =
      map Some (replicate (length xs) \<lparr>is_recieved_time = 0, br_time = None\<rparr>) @
      [Some \<lparr>is_recieved_time = 1, br_time = Some ((sec * 1000000000 + nsec) div 1000000)\<rparr>]"
    using assms(3,1,2) by (induction clks xs rule: list_induct2) (auto simp: bakery_proc_1_svc_def)
  then show ?thesis
    using b0_client_loop_waits [of "replicate (length xs) \<lparr>is_recieved_time = 0, br_time = None\<rparr>"
      "\<lparr>is_recieved_time = 1, br_time = Some ((sec * 1000000000 + nsec) div 1000000)\<rparr>" t "[]"]
    by (simp add: b0_client_def)
qed

text \<open>A start that fails after the first registration leaves that registration in the port mapper.\<close>

lemma svc_main_registrations:
  "(fst (svc_main a b c d) = Cont svc0_boot \<longleftrightarrow> a \<and> b \<and> c \<and> d) \<and>
   (fst (svc_main a b c d) = Exit 1 \<and> snd (svc_main a b c d) \<noteq> [] \<longleftrightarrow> a \<and> b \<and> \<not> (c \<and> d))"
  by (simp add: svc_main_def)

text \<open>
  A call for a number that fails does not stop the client: it polls with whatever \<open>result_1\<close>
  holds, and when that happens to be the ticket being served it takes the turn of its holder.
\<close>

lemma b0_client_steals_turn:
  assumes "client_number_service y = g"
  shows "b0_client True g None (b0_polls g [Some (sec, nsec)] [y])
      = Cont [Call_failed, Served (g + 1) (Some ((sec * 1000000000 + nsec) div 1000000))]"
  using assms by (simp add: b0_client_def bakery_proc_1_svc_def)

end
