(* ===== verification/Calc_Rpc.thy ===== *)
theory Calc_Rpc
  imports OS_Prelude
begin

text \<open>
  The multithreaded calculator (\<open>sem_05/rpc/calculator_multithread\<close>): the procedure, the dispatcher
  with one detached thread per request, and the client.  Single-precision arithmetic is a
  parameter: a record of the four operations on a type of floats.
\<close>

section \<open>The procedure\<close>

record 'f float_ops =
  f_add :: "'f \<Rightarrow> 'f \<Rightarrow> 'f"
  f_sub :: "'f \<Rightarrow> 'f \<Rightarrow> 'f"
  f_mul :: "'f \<Rightarrow> 'f \<Rightarrow> 'f"
  f_div :: "'f \<Rightarrow> 'f \<Rightarrow> 'f"

record 'f CALCULATOR =
  c_op :: int
  c_arg1 :: 'f
  c_arg2 :: 'f

definition ADD :: int where "ADD = 0"
definition SUB :: int where "SUB = 1"
definition MUL :: int where "MUL = 2"
definition DIV :: int where "DIV = 3"

lemmas op_defs = ADD_def SUB_def MUL_def DIV_def

text \<open>
  \<open>retval\<close> is declared without a value and only set in the default case; \<open>g\<close> is what it holds, and
  \<open>r\<close> what \<open>*result\<close> holds before the call.
\<close>

definition calculator_proc_1_svc :: "'f float_ops \<Rightarrow> int \<Rightarrow> 'f CALCULATOR \<Rightarrow> 'f \<Rightarrow> int \<times> 'f" where
  "calculator_proc_1_svc fo g a r =
     (if c_op a = ADD then (g, f_add fo (c_arg1 a) (c_arg2 a))
      else if c_op a = SUB then (g, f_sub fo (c_arg1 a) (c_arg2 a))
      else if c_op a = MUL then (g, f_mul fo (c_arg1 a) (c_arg2 a))
      else if c_op a = DIV then (g, f_div fo (c_arg1 a) (c_arg2 a))
      else (0, r))"

section \<open>The dispatcher\<close>

datatype 'f calc_reply = Calc_void | Calc_float 'f | Calc_noproc | Calc_decode | Calc_system

datatype k_pc = K_call | K_send | K_freeargs | K_free | K_end

text \<open>A worker: the block \<open>thread_data_t\<close>, and \<open>result\<close> and \<open>retval\<close> on its stack.\<close>

record 'f k_thread =
  k_transp :: nat
  k_arg :: "'f CALCULATOR"
  k_pc :: k_pc
  k_result :: 'f
  k_retval :: int

record 'f calc =
  k_threads :: "'f k_thread list"
  k_live :: "nat set"
  k_sent :: "(nat option \<times> nat \<times> 'f calc_reply) list"

definition set_k_thread :: "nat \<Rightarrow> 'f k_thread \<Rightarrow> 'f calc \<Rightarrow> 'f calc" where
  "set_k_thread i t s = s\<lparr>k_threads := (k_threads s)[i := t]\<rparr>"

definition put_calc :: "nat option \<Rightarrow> nat \<Rightarrow> 'f calc_reply \<Rightarrow> 'f calc \<Rightarrow> 'f calc" where
  "put_calc th x r s = s\<lparr>k_sent := k_sent s @ [(th, x, r)]\<rparr>"

text \<open>
  The statements of \<open>calculator_prog_worker\<close> for the thread with number \<open>i\<close>, which is also the number
  of its block; \<open>ok\<close> is what the library call of the statement returns.  Freeing a block
  that is not live is undefined.
\<close>

definition calculator_prog_worker :: "'f float_ops \<Rightarrow> nat \<Rightarrow> bool \<Rightarrow> 'f calc \<Rightarrow> 'f calc outcome" where
  "calculator_prog_worker fo i ok s = (let t = k_threads s ! i in
     case k_pc t of
       K_call \<Rightarrow> (case calculator_proc_1_svc fo (k_retval t) (k_arg t) (k_result t) of
           (retval, result) \<Rightarrow> Cont (set_k_thread i (t\<lparr>k_retval := retval, k_result := result, k_pc := K_send\<rparr>) s))
     | K_send \<Rightarrow> Cont (set_k_thread i (t\<lparr>k_pc := K_freeargs\<rparr>)
           (if k_retval t > 0
            then put_calc (Some i) (k_transp t) (if ok then Calc_float (k_result t) else Calc_system) s else s))
     | K_freeargs \<Rightarrow> (if ok then Cont (set_k_thread i (t\<lparr>k_pc := K_free\<rparr>) s) else Exit 1)
     | K_free \<Rightarrow> (if i \<in> k_live s then Cont (set_k_thread i (t\<lparr>k_pc := K_end\<rparr>) (s\<lparr>k_live := k_live s - {i}\<rparr>)) else UB)
     | K_end \<Rightarrow> Blocked)"

record 'f calc_request =
  cq_proc :: int
  cq_transp :: nat
  cq_args :: "'f CALCULATOR option"
  cq_malloc :: bool
  cq_attr :: bool
  cq_create :: bool
  cq_result :: 'f
  cq_retval :: int

text \<open>\<open>calculator_prog_1\<close>; the last two fields of a request are what the worker's stack will hold.\<close>

definition calculator_prog_1 :: "'f calc_request \<Rightarrow> bool \<Rightarrow> 'f calc \<Rightarrow> 'f calc outcome" where
  "calculator_prog_1 rq ok s =
     (if cq_proc rq = 0 then Cont (if ok then put_calc None (cq_transp rq) Calc_void s else s)
      else if cq_proc rq = 1 then
        (if \<not> cq_malloc rq then Exit 1
         else (case cq_args rq of
             None \<Rightarrow> Cont (put_calc None (cq_transp rq) Calc_decode s)
           | Some a \<Rightarrow>
               (if \<not> cq_attr rq then Exit 1
                else if \<not> cq_create rq then Exit 1
                else (let i = length (k_threads s) in Cont (s\<lparr>k_live := insert i (k_live s),
                  k_threads := k_threads s @ [\<lparr>k_transp = cq_transp rq, k_arg = a, k_pc = K_call,
                    k_result = cq_result rq, k_retval = cq_retval rq\<rparr>]\<rparr>)))))
      else Cont (put_calc None (cq_transp rq) Calc_noproc s))"

datatype 'f k_event = Calc_request "'f calc_request" bool | Calc_step nat bool

fun calc_act :: "'f float_ops \<Rightarrow> 'f k_event \<Rightarrow> 'f calc \<Rightarrow> 'f calc outcome" where
  "calc_act fo (Calc_request rq ok) s = calculator_prog_1 rq ok s"
| "calc_act fo (Calc_step i ok) s = (if i < length (k_threads s) then calculator_prog_worker fo i ok s else Blocked)"

definition calc_boot :: "'f calc" where
  "calc_boot = \<lparr>k_threads = [], k_live = {}, k_sent = []\<rparr>"

inductive calc_reach :: "'f float_ops \<Rightarrow> 'f calc \<Rightarrow> bool" for fo where
  boot: "calc_reach fo calc_boot"
| step: "calc_reach fo s \<Longrightarrow> calc_act fo e s = Cont s' \<Longrightarrow> calc_reach fo s'"

section \<open>The client\<close>

text \<open>
  One call of \<open>calculator_prog_1\<close> in \<open>calculator_client.c\<close>: \<open>rnd\<close> are the three values of \<open>rand\<close>, \<open>of_int_f\<close>
  the conversion to float, \<open>call\<close> the remote call (\<open>None\<close> when it does not succeed).
\<close>

record 'f calc_line =
  l_arg1 :: 'f
  l_sign :: char
  l_arg2 :: 'f
  l_result :: 'f

definition calc_sign :: "int \<Rightarrow> char option" where
  "calc_sign op = (if op = ADD then Some CHR ''+'' else if op = SUB then Some CHR ''-''
     else if op = MUL then Some CHR ''*'' else if op = DIV then Some CHR ''/'' else None)"

definition calc_client ::
  "bool \<Rightarrow> (int \<Rightarrow> 'f) \<Rightarrow> nat \<times> nat \<times> nat \<Rightarrow> ('f CALCULATOR \<Rightarrow> 'f option) \<Rightarrow> 'f calc_line outcome" where
  "calc_client created of_int_f rnd call = (case rnd of (r1, r2, r3) \<Rightarrow>
     if \<not> created then Exit 1
     else (let a = \<lparr>c_op = int r1 mod 4, c_arg1 = of_int_f (int r2 mod 67), c_arg2 = of_int_f (int r3 mod 69)\<rparr> in
       case call a of
         None \<Rightarrow> Exit 1
       | Some res \<Rightarrow> (case calc_sign (c_op a) of
             None \<Rightarrow> UB
           | Some sign \<Rightarrow> Cont \<lparr>l_arg1 = c_arg1 a, l_sign = sign, l_arg2 = c_arg2 a, l_result = res\<rparr>)))"

text \<open>The loop of \<open>main\<close>: one round per element, with the flag as SIGINT leaves it.\<close>

fun calc_client_rounds ::
  "(int \<Rightarrow> 'f) \<Rightarrow> ((nat \<times> nat \<times> nat) \<times> bool \<times> bool) list \<Rightarrow> ('f CALCULATOR \<Rightarrow> 'f option) \<Rightarrow> bool \<Rightarrow> 'f calc_line list \<Rightarrow> 'f calc_line list outcome" where
  "calc_client_rounds fi [] call flag out = (if flag then Cont out else Exit 0)"
| "calc_client_rounds fi ((rnd, created, sigint) # rs) call flag out = (if \<not> flag then Exit 0
     else (case calc_client created fi rnd call of
         Cont l \<Rightarrow> calc_client_rounds fi rs call (\<not> sigint) (out @ [l])
       | Blocked \<Rightarrow> Blocked | Exit c \<Rightarrow> Exit c | UB \<Rightarrow> UB))"

definition calc_client_main ::
  "int \<Rightarrow> bool \<Rightarrow> (int \<Rightarrow> 'f) \<Rightarrow> ((nat \<times> nat \<times> nat) \<times> bool \<times> bool) list \<Rightarrow> ('f CALCULATOR \<Rightarrow> 'f option) \<Rightarrow> 'f calc_line list outcome" where
  "calc_client_main argc signal_ok fi rs call =
     (if argc < 2 then Exit 1 else if \<not> signal_ok then Exit 1 else calc_client_rounds fi rs call True [])"

section \<open>Invariant\<close>

definition calc_replies :: "nat \<Rightarrow> 'f calc \<Rightarrow> (nat \<times> 'f calc_reply) list" where
  "calc_replies i s = map snd (filter (\<lambda>(th, _). th = Some i) (k_sent s))"

text \<open>The value a valid operation asks for.\<close>

definition calc_value :: "'f float_ops \<Rightarrow> 'f CALCULATOR \<Rightarrow> 'f option" where
  "calc_value fo a = (if c_op a \<in> {ADD, SUB, MUL, DIV}
     then Some (([f_add fo, f_sub fo, f_mul fo, f_div fo] ! nat (c_op a)) (c_arg1 a) (c_arg2 a)) else None)"

definition thread_ok :: "'f float_ops \<Rightarrow> 'f calc \<Rightarrow> nat \<Rightarrow> bool" where
  "thread_ok fo s i \<longleftrightarrow> (let t = k_threads s ! i in
     (k_pc t \<noteq> K_call \<longrightarrow> k_retval t > 0 \<longrightarrow> calc_value fo (k_arg t) = Some (k_result t)) \<and>
     (i \<in> k_live s \<longleftrightarrow> k_pc t \<noteq> K_end) \<and>
     (if k_pc t \<in> {K_call, K_send} \<or> k_retval t \<le> 0 then calc_replies i s = []
      else calc_replies i s = [(k_transp t, Calc_float (k_result t))] \<or> calc_replies i s = [(k_transp t, Calc_system)]))"

definition calc_inv :: "'f float_ops \<Rightarrow> 'f calc \<Rightarrow> bool" where
  "calc_inv fo s \<longleftrightarrow> (\<forall>i < length (k_threads s). thread_ok fo s i) \<and> k_live s \<subseteq> {..<length (k_threads s)} \<and>
     (\<forall>i \<ge> length (k_threads s). calc_replies i s = [])"

lemma calc_replies_simps [simp]:
  "calc_replies i (set_k_thread j t s) = calc_replies i s"
  "calc_replies i (s\<lparr>k_live := l\<rparr>) = calc_replies i s"
  "calc_replies i (s\<lparr>k_threads := ts\<rparr>) = calc_replies i s"
  "calc_replies i (put_calc th x r s) = calc_replies i s @ (if th = Some i then [(x, r)] else [])"
  by (simp_all add: calc_replies_def set_k_thread_def put_calc_def)

lemma set_k_thread_sel [simp]:
  "k_threads (set_k_thread j t s) = (k_threads s)[j := t]" "k_live (set_k_thread j t s) = k_live s"
  by (simp_all add: set_k_thread_def)

lemma put_calc_sel [simp]: "k_threads (put_calc th x r s) = k_threads s" "k_live (put_calc th x r s) = k_live s"
  by (simp_all add: put_calc_def)

lemma calculator_proc_1_value:
  "calculator_proc_1_svc fo g a r = (case calc_value fo a of None \<Rightarrow> (0, r) | Some v \<Rightarrow> (g, v))"
  by (auto simp: calculator_proc_1_svc_def calc_value_def op_defs)

lemma calc_invD:
  assumes "calc_inv fo s"
  shows "i < length (k_threads s) \<Longrightarrow> thread_ok fo s i" "length (k_threads s) \<le> i \<Longrightarrow> calc_replies i s = []"
    "k_live s \<subseteq> {..<length (k_threads s)}"
  using assms unfolding calc_inv_def by blast+

text \<open>The threads share nothing but the list of replies: a step of one keeps what holds of the others.\<close>

lemma calc_inv_thread:
  assumes inv: "calc_inv fo s" and i: "i < length (k_threads s)"
    and ts: "k_threads s' = (k_threads s)[i := t]" and own: "thread_ok fo s' i"
    and others: "\<And>j. j \<noteq> i \<Longrightarrow> calc_replies j s' = calc_replies j s \<and> (j \<in> k_live s' \<longleftrightarrow> j \<in> k_live s)"
  shows "calc_inv fo s'"
proof -
  have "thread_ok fo s' j" if "j < length (k_threads s')" for j
    using own calc_invD(1) [OF inv, of j] others [of j] ts that by (cases "j = i") (auto simp: thread_ok_def Let_def)
  moreover have "k_live s' \<subseteq> {..<length (k_threads s')}"
    using calc_invD(3) [OF inv] others ts i by (auto simp: subset_iff) metis
  moreover have "calc_replies j s' = []" if "length (k_threads s') \<le> j" for j
    using calc_invD(2) [OF inv, of j] others [of j] ts that i by auto
  ultimately show ?thesis by (simp add: calc_inv_def)
qed

lemma calculator_prog_worker_inv:
  assumes inv: "calc_inv fo s" and i: "i < length (k_threads s)" and run: "calculator_prog_worker fo i ok s = Cont s'"
  shows "calc_inv fo s'"
proof -
  obtain t where t: "k_threads s' = (k_threads s)[i := t]"
    using run by (cases "k_pc (k_threads s ! i)")
      (auto simp: calculator_prog_worker_def Let_def split: prod.splits if_splits)
  show ?thesis
  proof (rule calc_inv_thread [OF inv i t])
    show "thread_ok fo s' i"
      using run calc_invD(1) [OF inv i] i by (cases "k_pc (k_threads s ! i)")
        (auto simp: calculator_prog_worker_def thread_ok_def Let_def calculator_proc_1_value split: prod.splits if_splits option.splits)
    show "calc_replies j s' = calc_replies j s \<and> (j \<in> k_live s' \<longleftrightarrow> j \<in> k_live s)" if "j \<noteq> i" for j
      using run that by (cases "k_pc (k_threads s ! i)")
        (auto simp: calculator_prog_worker_def Let_def split: prod.splits if_splits)
  qed
qed

lemma calculator_prog_1_inv:
  assumes inv: "calc_inv fo s" and run: "calculator_prog_1 rq ok s = Cont s'"
  shows "calc_inv fo s'"
proof (cases "k_threads s' = k_threads s")
  case True
  then have "k_live s' = k_live s" "\<And>j. calc_replies j s' = calc_replies j s"
    using run by (auto simp: calculator_prog_1_def Let_def split: if_splits option.splits)
  then have "thread_ok fo s' j = thread_ok fo s j" for j using True by (simp add: thread_ok_def)
  then show ?thesis using inv True \<open>k_live s' = k_live s\<close> \<open>\<And>j. calc_replies j s' = calc_replies j s\<close>
    unfolding calc_inv_def by simp
next
  case False
  let ?n = "length (k_threads s)"
  obtain t where s': "k_threads s' = k_threads s @ [t]" "k_live s' = insert ?n (k_live s)" "k_pc t = K_call"
      "\<And>j. calc_replies j s' = calc_replies j s"
    using run False by (auto simp: calculator_prog_1_def Let_def split: if_splits option.splits)
  have "thread_ok fo s' j" if "j < Suc ?n" for j
    using that calc_invD(1,2) [OF inv, of j] calc_invD(3) [OF inv] s' by (cases "j = ?n") (auto simp: thread_ok_def Let_def nth_append)
  then show ?thesis using inv s' by (auto simp: calc_inv_def)
qed

lemma calc_reach_inv: "calc_reach fo s \<Longrightarrow> calc_inv fo s"
proof (induction rule: calc_reach.induct)
  case boot
  show ?case by (simp add: calc_inv_def calc_boot_def calc_replies_def)
next
  case (step s e s')
  then show ?case
    by (cases e) (auto split: if_splits intro: calculator_prog_1_inv calculator_prog_worker_inv)
qed

section \<open>Properties\<close>

text \<open>
  (C24) Requests do not disturb each other, whatever the interleaving of their threads: a worker
  that has finished has answered its own connection at most once; what it sends is the value
  of its own request (or a system error when the send fails); it sends something exactly
  when its \<open>retval\<close> is positive, which excludes every unknown operation; its block is live until it
  ends and no step of any thread frees a block twice.
\<close>

theorem calc_requests_isolated:
  assumes "calc_reach fo s" "i < length (k_threads s)"
  shows "(let t = k_threads s ! i; rs = calc_replies i s in
     (k_pc t = K_end \<longrightarrow> rs = [] \<longleftrightarrow> k_retval t \<le> 0) \<and>
     (rs \<noteq> [] \<longrightarrow> (\<exists>v. calc_value fo (k_arg t) = Some v \<and> (rs = [(k_transp t, Calc_float v)] \<or> rs = [(k_transp t, Calc_system)]))) \<and>
     (i \<in> k_live s \<longleftrightarrow> k_pc t \<noteq> K_end)) \<and>
     calc_act fo e s \<noteq> UB"
proof
  note inv = calc_reach_inv [OF assms(1)]
  show "let t = k_threads s ! i; rs = calc_replies i s in
     (k_pc t = K_end \<longrightarrow> rs = [] \<longleftrightarrow> k_retval t \<le> 0) \<and>
     (rs \<noteq> [] \<longrightarrow> (\<exists>v. calc_value fo (k_arg t) = Some v \<and> (rs = [(k_transp t, Calc_float v)] \<or> rs = [(k_transp t, Calc_system)]))) \<and>
     (i \<in> k_live s \<longleftrightarrow> k_pc t \<noteq> K_end)"
    using calc_invD(1) [OF inv assms(2)] unfolding thread_ok_def Let_def by (auto split: if_splits)
  show "calc_act fo e s \<noteq> UB"
  proof (cases e)
    case (Calc_request rq ok)
    then show ?thesis by (auto simp: calculator_prog_1_def Let_def split: option.splits)
  next
    case (Calc_step j ok)
    then show ?thesis
      using calc_invD(1) [OF inv, of j] by (cases "k_pc (k_threads s ! j)")
        (auto simp: calculator_prog_worker_def thread_ok_def Let_def split: prod.splits)
  qed
qed

fun calc_run :: "'f float_ops \<Rightarrow> 'f k_event list \<Rightarrow> 'f calc \<Rightarrow> 'f calc outcome" where
  "calc_run fo [] s = Cont s"
| "calc_run fo (e # es) s = (case calc_act fo e s of Cont s' \<Rightarrow> calc_run fo es s' | Blocked \<Rightarrow> Blocked | Exit c \<Rightarrow> Exit c | UB \<Rightarrow> UB)"

lemma calc_run_reach: "calc_run fo es s = Cont s' \<Longrightarrow> calc_reach fo s \<Longrightarrow> calc_reach fo s'"
  by (induction fo es s rule: calc_run.induct) (auto split: outcome.splits intro: calc_reach.step)

definition calc_demo_ops :: "int float_ops" where
  "calc_demo_ops = \<lparr>f_add = (+), f_sub = (-), f_mul = (*), f_div = (div)\<rparr>"

definition calc_demo_req :: "int \<Rightarrow> int \<Rightarrow> nat \<Rightarrow> int k_event" where
  "calc_demo_req op g x = Calc_request \<lparr>cq_proc = 1, cq_transp = x, cq_args = Some \<lparr>c_op = op, c_arg1 = 20, c_arg2 = 6\<rparr>,
     cq_malloc = True, cq_attr = True, cq_create = True, cq_result = 0, cq_retval = g\<rparr> True"

definition calc_demo :: "int calc" where
  "calc_demo = (case calc_run calc_demo_ops
      ([calc_demo_req 1 5 10, calc_demo_req 3 7 11] @ [Calc_step 1 True, Calc_step 0 True, Calc_step 1 True, Calc_step 0 True,
        Calc_step 1 True, Calc_step 1 True]) calc_boot of Cont s \<Rightarrow> s | _ \<Rightarrow> calc_boot)"

theorem calc_requests_isolated_witness:
  "calc_replies 1 calc_demo = [(11, Calc_float 3)] \<and> calc_replies 0 calc_demo = [(10, Calc_float 14)] \<and>
   0 \<in> k_live calc_demo \<and> calc_act calc_demo_ops (Calc_step 0 True) calc_demo \<noteq> UB"
proof -
  let ?run = "calc_run calc_demo_ops
      ([calc_demo_req 1 5 10, calc_demo_req 3 7 11] @ [Calc_step 1 True, Calc_step 0 True, Calc_step 1 True, Calc_step 0 True,
        Calc_step 1 True, Calc_step 1 True]) calc_boot"
  have "is_Cont ?run" by code_simp
  then obtain s where s: "?run = Cont s" by (auto simp only: is_Cont_iff)
  have reach: "calc_reach calc_demo_ops calc_demo"
    using calc_run_reach [OF s calc_reach.boot] unfolding calc_demo_def s by simp
  have f: "length (k_threads calc_demo) = 2" "k_pc (k_threads calc_demo ! 0) = K_freeargs"
    "calc_replies 1 calc_demo = [(11, Calc_float 3)]" "calc_replies 0 calc_demo = [(10, Calc_float 14)]"
    by code_simp+
  show ?thesis
    using calc_requests_isolated [OF reach, of 0 "Calc_step 0 True"] f by (simp add: Let_def)
qed

text \<open>
  The client and the procedure: the client only sends the four known operations, so the line
  it prints has the right sign and the value of its own operands if the uninitialised \<open>retval\<close> of
  the server happens to be positive; otherwise no reply is sent and the client exits with 1.
\<close>

lemma calc_client_depends_on_retval:
  "calc_client True fi (r1, r2, r3)
      (\<lambda>a. case calculator_proc_1_svc fo g a r of (retval, result) \<Rightarrow> if retval > 0 then Some result else None)
   = (if g > 0
      then Cont \<lparr>l_arg1 = fi (int r2 mod 67), l_sign = ''+-*/'' ! (r1 mod 4), l_arg2 = fi (int r3 mod 69),
        l_result = ([f_add fo, f_sub fo, f_mul fo, f_div fo] ! (r1 mod 4)) (fi (int r2 mod 67)) (fi (int r3 mod 69))\<rparr>
      else Exit 1)"
proof -
  consider "r1 mod 4 = 0" | "r1 mod 4 = 1" | "r1 mod 4 = 2" | "r1 mod 4 = 3" by linarith
  moreover have "int r1 mod 4 = int (r1 mod 4)" by (simp add: zmod_int)
  ultimately show ?thesis
    by cases (simp_all add: calc_client_def calculator_proc_1_svc_def calc_sign_def op_defs Let_def)
qed

end
