(* ===== verification/Bakery_Array.thy ===== *)
theory Bakery_Array
  imports Ticket_Rpc
begin

text \<open>
  The RPC bakery of \<open>sem_05/rpc/new_bakery\<close> as a running system: the dispatcher of \<open>bakery_svc.c\<close>, whose
  only thread also runs the busy wait, the detached registration threads, and the client; and
  the procedures, dispatcher and client of \<open>bakery (2)\<close>.
\<close>

section \<open>State\<close>

datatype ba_reply = Ba_void | Ba_int int | Ba_long int | Ba_noproc | Ba_decode | Ba_system

text \<open>The dispatcher's thread: idle, or inside \<open>result_proc_1_svc\<close> for client \<open>j\<close> at index \<open>i\<close>.\<close>

datatype nb_main = Nb_idle | Nb_wait nat nat nat

record nb_sys =
  ns_data :: new_bakery
  ns_pending :: "int list"
  ns_main :: nb_main
  ns_sent :: "(nat \<times> ba_reply) list"

record ba_request =
  bq_proc :: int
  bq_transp :: nat
  bq_arg :: "int option"
  bq_malloc :: bool
  bq_create :: bool

definition ba_put :: "nat \<Rightarrow> ba_reply \<Rightarrow> bool \<Rightarrow> nb_sys \<Rightarrow> nb_sys" where
  "ba_put t r ok s = s\<lparr>ns_sent := ns_sent s @ [(t, if ok then r else Ba_system)]\<rparr>"

definition nb_index :: "int \<Rightarrow> bool" where
  "nb_index a \<longleftrightarrow> 0 \<le> a \<and> a < int MAX_CLIENTS"

section \<open>Operations of \<open>new_bakery\<close>\<close>

text \<open>
  \<open>register_proc_1_svc\<close>: whether a thread was started.  The thread, with its copy of the argument, is
  pending until it takes the mutex.
\<close>

definition register_proc_1_svc :: "bool \<Rightarrow> bool \<Rightarrow> int \<Rightarrow> nb_sys \<Rightarrow> bool \<times> nb_sys" where
  "register_proc_1_svc malloc_ok create_ok idx s =
     (if \<not> malloc_ok then (False, s)
      else if \<not> create_ok then (False, s)
      else (True, s\<lparr>ns_pending := ns_pending s @ [idx]\<rparr>))"

text \<open>
  The dispatcher on a new request.  The branch of \<open>RESULT_PROC\<close> enters the loop, which runs step by step
  below; a reply is sent only if \<open>retval\<close> is positive.  \<open>get_number_proc_1_svc\<close> is one step; an index
  outside the arrays is undefined.
\<close>

definition nb_bakery_prog_1 :: "ba_request \<Rightarrow> bool \<Rightarrow> bool \<Rightarrow> nb_sys \<Rightarrow> nb_sys outcome" where
  "nb_bakery_prog_1 rq ok free_ok s =
     (if bq_proc rq = 0 then Cont (if ok then ba_put (bq_transp rq) Ba_void True s else s)
      else if bq_proc rq \<notin> {1, 2, 3} then Cont (ba_put (bq_transp rq) Ba_noproc True s)
      else (case bq_arg rq of
          None \<Rightarrow> Cont (ba_put (bq_transp rq) Ba_decode True s)
        | Some a \<Rightarrow>
            if bq_proc rq = 1 then
              (case register_proc_1_svc (bq_malloc rq) (bq_create rq) a s of
                 (retval, s') \<Rightarrow> if free_ok then Cont (if retval then ba_put (bq_transp rq) Ba_void ok s' else s') else Exit 1)
            else if \<not> nb_index a then UB
            else if bq_proc rq = 2 then
              (case get_number_proc_1_svc (nat a) (ns_data s) of
                 (n, d) \<Rightarrow> if free_ok then Cont (ba_put (bq_transp rq) (Ba_int n) ok (s\<lparr>ns_data := d\<rparr>)) else Exit 1)
            else Cont (s\<lparr>ns_main := Nb_wait (bq_transp rq) (nat a) 0\<rparr>)))"

text \<open>
  One evaluation of the loop condition of \<open>result_proc_1_svc\<close> (line 84), or the statements after the loop.
\<close>

definition nb_result_step :: "int \<Rightarrow> bool \<Rightarrow> bool \<Rightarrow> nb_sys \<Rightarrow> nb_sys outcome" where
  "nb_result_step nsec ok free_ok s = (case ns_main s of
       Nb_idle \<Rightarrow> Blocked
     | Nb_wait t j i \<Rightarrow>
         if i < MAX_CLIENTS then
           (if nb_before (nb_numbers (ns_data s)) i j then Cont s
            else Cont (s\<lparr>ns_main := Nb_wait t j (Suc i)\<rparr>))
         else if free_ok then
           Cont (ba_put t (Ba_long nsec) ok
             (s\<lparr>ns_data := (ns_data s)\<lparr>nb_numbers := (nb_numbers (ns_data s))[j := 0]\<rparr>, ns_main := Nb_idle\<rparr>))
         else Exit 1)"

text \<open>A registration thread runs: \<open>find_max_number\<close> under its mutex.\<close>

definition nb_thread_step :: "nat \<Rightarrow> nb_sys \<Rightarrow> nb_sys outcome" where
  "nb_thread_step k s = (if length (ns_pending s) \<le> k then Blocked
     else if \<not> nb_index (ns_pending s ! k) then UB
     else Cont (s\<lparr>ns_data := nb_find_max_number (nat (ns_pending s ! k)) (ns_data s),
       ns_pending := take k (ns_pending s) @ drop (Suc k) (ns_pending s)\<rparr>))"

datatype nb_event = Nb_request ba_request bool bool | Nb_result int bool bool | Nb_thread nat

fun nb_act :: "nb_event \<Rightarrow> nb_sys \<Rightarrow> nb_sys outcome" where
  "nb_act (Nb_request rq ok fr) s = (if ns_main s = Nb_idle then nb_bakery_prog_1 rq ok fr s else Blocked)"
| "nb_act (Nb_result nsec ok fr) s = nb_result_step nsec ok fr s"
| "nb_act (Nb_thread k) s = nb_thread_step k s"

definition nb_sys_boot :: nb_sys where
  "nb_sys_boot = \<lparr>ns_data = nb_boot, ns_pending = [], ns_main = Nb_idle, ns_sent = []\<rparr>"

inductive nb_reach :: "nb_sys \<Rightarrow> bool" where
  boot: "nb_reach nb_sys_boot"
| step: "nb_reach s \<Longrightarrow> nb_act e s = Cont s' \<Longrightarrow> nb_reach s'"

inductive nb_steps :: "nb_sys \<Rightarrow> nb_sys \<Rightarrow> bool" where
  refl: "nb_steps s s"
| more: "nb_steps s t \<Longrightarrow> nb_act e t = Cont u \<Longrightarrow> nb_steps s u"

text \<open>Steps during which the dispatcher does not return from the call it is in.\<close>

inductive nb_waits :: "nb_sys \<Rightarrow> nb_sys \<Rightarrow> bool" where
  refl: "nb_waits s s"
| more: "nb_waits s t \<Longrightarrow> nb_act e t = Cont u \<Longrightarrow> ns_main u \<noteq> Nb_idle \<Longrightarrow> nb_waits s u"

section \<open>The client of \<open>new_bakery\<close>\<close>

text \<open>
  One iteration of the loop: the results of the three kinds of calls, \<open>None\<close> for a failed one.  The
  polling goes on until a call succeeds with a number other than -1; the time is printed
  even when the last call failed, with the value left over.
\<close>

datatype nbc_line = Nbc_failed | Nbc_got int int

fun nb_poll_loop :: "int option list \<Rightarrow> nbc_line list \<Rightarrow> (int \<times> nbc_line list) outcome" where
  "nb_poll_loop [] out = Blocked"
| "nb_poll_loop (None # rs) out = nb_poll_loop rs (out @ [Nbc_failed])"
| "nb_poll_loop (Some n # rs) out = (if n \<noteq> -1 then Cont (n, out) else nb_poll_loop rs out)"

definition nb_client_iter :: "bool \<Rightarrow> int option list \<Rightarrow> int option \<Rightarrow> int \<Rightarrow> nbc_line list \<Rightarrow> (int \<times> nbc_line list) outcome" where
  "nb_client_iter reg_ok polls time stale out =
     (case nb_poll_loop polls (if reg_ok then out else out @ [Nbc_failed]) of
        Cont (n, out') \<Rightarrow> (case time of
            None \<Rightarrow> Cont (stale, out' @ [Nbc_failed, Nbc_got n stale])
          | Some t \<Rightarrow> Cont (t, out' @ [Nbc_got n t]))
      | Blocked \<Rightarrow> Blocked | Exit c \<Rightarrow> Exit c | UB \<Rightarrow> UB)"

text \<open>\<open>bakery_prog_1\<close> and \<open>main\<close>; an element of the list is one iteration and whether SIGINT came during it.\<close>

fun nb_client_loop :: "((bool \<times> int option list \<times> int option) \<times> bool) list \<Rightarrow> bool \<Rightarrow> int \<Rightarrow> nbc_line list \<Rightarrow> nbc_line list outcome" where
  "nb_client_loop [] flag stale out = (if flag then Blocked else Cont out)"
| "nb_client_loop (((reg_ok, polls, time), sigint) # its) flag stale out = (if \<not> flag then Cont out
     else (case nb_client_iter reg_ok polls time stale out of
         Cont (stale', out') \<Rightarrow> nb_client_loop its (\<not> sigint) stale' out'
       | Blocked \<Rightarrow> Blocked | Exit c \<Rightarrow> Exit c | UB \<Rightarrow> UB))"

definition nb_client_main ::
  "int \<Rightarrow> bool \<Rightarrow> bool \<Rightarrow> ((bool \<times> int option list \<times> int option) \<times> bool) list \<Rightarrow> int \<Rightarrow> nbc_line list outcome" where
  "nb_client_main argc signal_ok created its stack =
     (if argc < 2 then Exit 1 else if \<not> signal_ok then Exit 1 else if \<not> created then Exit 1
      else nb_client_loop its True stack [])"

section \<open>\<open>bakery (2)\<close>\<close>

definition b2_bakery_proc_1_svc :: "int \<times> int \<Rightarrow> int \<Rightarrow> bakery2 \<Rightarrow> (64 word \<times> bakery2) outcome" where
  "b2_bakery_proc_1_svc clk ticket s =
     (let i = c_rem ticket 10000 in
      if i < 0 then UB
      else Cont (word_of_int (fst clk) * 1000000000 + word_of_int (snd clk), s\<lparr>b2_numbers := (b2_numbers s)[nat i := 0]\<rparr>))"

datatype b2_reply = B2_void | B2_int int | B2_long "64 word" | B2_noproc | B2_decode | B2_system

definition b2_bakery_prog_1 :: "int \<times> int \<Rightarrow> int \<Rightarrow> int option \<Rightarrow> bool \<Rightarrow> bool \<Rightarrow> bakery2 \<Rightarrow> (b2_reply option \<times> bakery2) outcome" where
  "b2_bakery_prog_1 clk proc arg ok free_ok s =
     (let sent = (\<lambda>r. Some (if ok then r else B2_system)) in
      if proc = 0 then Cont (if ok then Some B2_void else None, s)
      else if proc \<notin> {1, 2} then Cont (Some B2_noproc, s)
      else (case arg of
          None \<Rightarrow> Cont (Some B2_decode, s)
        | Some a \<Rightarrow>
            if proc = 1 then (case b2_get_number_1_svc a s of
                Cont (n, s') \<Rightarrow> if free_ok then Cont (sent (B2_int n), s') else Exit 1
              | Blocked \<Rightarrow> Blocked | Exit c \<Rightarrow> Exit c | UB \<Rightarrow> UB)
            else (case b2_bakery_proc_1_svc clk a s of
                Cont (t, s') \<Rightarrow> if free_ok then Cont (sent (B2_long t), s') else Exit 1
              | Blocked \<Rightarrow> Blocked | Exit c \<Rightarrow> Exit c | UB \<Rightarrow> UB)))"

text \<open>
  One iteration of the client: a null pointer, the result of a failed call, is only reported and
  then read.  The ticket sent to \<open>bakery_proc_1\<close> is the uninitialised \<open>bakery_proc_1_arg\<close>.
\<close>

definition b2_client_iter :: "int option \<Rightarrow> 64 word option \<Rightarrow> (int \<times> 64 word) outcome" where
  "b2_client_iter number time = (case number of None \<Rightarrow> UB | Some n \<Rightarrow> (case time of None \<Rightarrow> UB | Some t \<Rightarrow> Cont (n, t)))"

section \<open>Invariant\<close>

lemma nb_find_max_sel [simp]:
  "nb_numbers (nb_find_max_number i d) = (nb_numbers d)[i := nb_max d + 1]"
  "nb_max (nb_find_max_number i d) = nb_max d + 1"
  by (simp_all add: nb_find_max_number_def Let_def)

lemma get_number_sel [simp]:
  "nb_numbers (snd (get_number_proc_1_svc i d)) = nb_numbers d" "nb_max (snd (get_number_proc_1_svc i d)) = nb_max d"
  by (simp_all add: get_number_proc_1_svc_def)

definition nb_inv :: "new_bakery \<Rightarrow> bool" where
  "nb_inv d \<longleftrightarrow> length (nb_numbers d) = MAX_CLIENTS \<and> 0 \<le> nb_max d \<and> (\<forall>n \<in> set (nb_numbers d). n \<le> nb_max d)"

lemma nb_inv_register:
  assumes "nb_inv d"
  shows "nb_inv (nb_find_max_number i d)"
proof -
  have "n \<le> nb_max d + 1" if "n \<in> set ((nb_numbers d)[i := nb_max d + 1])" for n
    using assms that set_update_subset_insert [of "nb_numbers d" i "nb_max d + 1"] by (force simp: nb_inv_def)
  then show ?thesis using assms by (simp add: nb_inv_def)
qed

lemma nb_inv_clear: "nb_inv d \<Longrightarrow> nb_inv (d\<lparr>nb_numbers := (nb_numbers d)[j := 0]\<rparr>)"
  using set_update_subset_insert [of "nb_numbers d" j 0] by (force simp: nb_inv_def)

lemma nb_act_inv:
  assumes "nb_inv (ns_data s)" "nb_act e s = Cont s'"
  shows "nb_inv (ns_data s')"
proof (cases e)
  case (Nb_request rq ok fr)
  have "nb_inv (snd (get_number_proc_1_svc i (ns_data s)))" for i
    using assms(1) by (simp add: nb_inv_def)
  then show ?thesis
    using Nb_request assms by (auto simp: nb_bakery_prog_1_def ba_put_def register_proc_1_svc_def split: if_splits option.splits prod.splits)
      (metis snd_conv)+
next
  case (Nb_result nsec ok fr)
  then show ?thesis
    using assms nb_inv_clear by (auto simp: nb_result_step_def ba_put_def split: nb_main.splits if_splits)
next
  case (Nb_thread k)
  then show ?thesis using assms nb_inv_register by (auto simp: nb_thread_step_def split: if_splits)
qed

lemma nb_reach_inv: "nb_reach s \<Longrightarrow> nb_inv (ns_data s)"
  by (induction rule: nb_reach.induct) (simp_all add: nb_act_inv, simp add: nb_inv_def nb_sys_boot_def nb_boot_def)

text \<open>While the dispatcher is inside a call, only its own loop and the pending threads move.\<close>

lemma nb_wait_step:
  assumes "ns_main s = Nb_wait t j i" "nb_act e s = Cont s'" "ns_main s' \<noteq> Nb_idle"
  obtains (spin) "s' = s" "i < MAX_CLIENTS" "nb_before (nb_numbers (ns_data s)) i j"
  | (next_index) "s' = s\<lparr>ns_main := Nb_wait t j (Suc i)\<rparr>" "i < MAX_CLIENTS" "\<not> nb_before (nb_numbers (ns_data s)) i j"
  | (thread) k where "k < length (ns_pending s)" "nb_index (ns_pending s ! k)"
     "s' = s\<lparr>ns_data := nb_find_max_number (nat (ns_pending s ! k)) (ns_data s),
       ns_pending := take k (ns_pending s) @ drop (Suc k) (ns_pending s)\<rparr>"
proof (cases e)
  case (Nb_request rq ok fr)
  then show thesis using assms by simp
next
  case (Nb_result nsec ok fr)
  then have "i < MAX_CLIENTS" using assms by (auto simp: nb_result_step_def ba_put_def split: if_splits)
  then show thesis
    using assms Nb_result spin next_index by (auto simp: nb_result_step_def split: if_splits)
next
  case (Nb_thread k)
  then show thesis using assms thread [of k] by (simp add: nb_thread_step_def not_le split: if_splits)
qed

lemma pending_shrinks: "set (take k xs @ drop (Suc k) xs) \<subseteq> set xs"
  using set_take_subset [of k xs] set_drop_subset [of "Suc k" xs] by auto

lemma nb_index_nat: "nb_index a \<Longrightarrow> nat a < MAX_CLIENTS \<and> int (nat a) = a"
  by (auto simp: nb_index_def)

text \<open>A registration of another client never puts it before a client that already has its number.\<close>

lemma register_not_before:
  assumes "nb_inv d" "j < MAX_CLIENTS" "idx \<noteq> j" "\<not> nb_before (nb_numbers d) k j"
  shows "\<not> nb_before (nb_numbers (nb_find_max_number idx d)) k j"
proof -
  have le: "nb_numbers d ! j \<le> nb_max d" using assms(1,2) by (simp add: nb_inv_def)
  show ?thesis
  proof (cases "k = idx \<and> idx < length (nb_numbers d)")
    case True
    then show ?thesis using le assms(3) by (simp add: nb_before_def)
  next
    case False
    then have "nb_numbers (nb_find_max_number idx d) ! k = nb_numbers d ! k"
      by (cases "k = idx") (simp_all add: not_less list_update_beyond)
    then show ?thesis using assms(3,4) by (simp add: nb_before_def)
  qed
qed

text \<open>
  During the wait for \<open>j\<close> its number changes only when a registration thread of its own runs, and then grows; with the
  number unchanged, the indices passed do not come first.
\<close>

definition nb_waited :: "nat \<Rightarrow> nat \<Rightarrow> nb_sys \<Rightarrow> nb_sys \<Rightarrow> bool" where
  "nb_waited t j s0 s \<longleftrightarrow> nb_inv (ns_data s) \<and> set (ns_pending s) \<subseteq> set (ns_pending s0) \<and>
     (\<exists>i. ns_main s = Nb_wait t j i \<and>
        (if nb_numbers (ns_data s) ! j = nb_numbers (ns_data s0) ! j then \<forall>k < i. \<not> nb_before (nb_numbers (ns_data s)) k j
         else int j \<in> set (ns_pending s0) \<and> nb_numbers (ns_data s0) ! j < nb_numbers (ns_data s) ! j))"

lemma nb_waited_thread:
  assumes w: "nb_waited t j s0 s" and j: "j < MAX_CLIENTS" and k: "k < length (ns_pending s)" "nb_index (ns_pending s ! k)"
    and s': "s' = s\<lparr>ns_data := nb_find_max_number (nat (ns_pending s ! k)) (ns_data s),
       ns_pending := take k (ns_pending s) @ drop (Suc k) (ns_pending s)\<rparr>"
  shows "nb_waited t j s0 s'"
proof -
  let ?a = "ns_pending s ! k"
  obtain i where i: "ns_main s = Nb_wait t j i" "nb_inv (ns_data s)"
    "if nb_numbers (ns_data s) ! j = nb_numbers (ns_data s0) ! j then \<forall>k < i. \<not> nb_before (nb_numbers (ns_data s)) k j
     else int j \<in> set (ns_pending s0) \<and> nb_numbers (ns_data s0) ! j < nb_numbers (ns_data s) ! j"
    using w by (auto simp: nb_waited_def)
  have sub: "set (ns_pending s') \<subseteq> set (ns_pending s0)"
    using w pending_shrinks [of k "ns_pending s"] s' by (auto simp: nb_waited_def)
  have inv: "nb_inv (ns_data s')" using nb_inv_register [OF i(2)] s' by simp
  have len: "nb_numbers (ns_data s) ! j \<le> nb_max (ns_data s)" "length (nb_numbers (ns_data s)) = MAX_CLIENTS"
    using i(2) j by (simp_all add: nb_inv_def)
  show ?thesis
  proof (cases "nat ?a = j")
    case True
    then have "?a = int j" using nb_index_nat [OF k(2)] by simp
    then have "int j \<in> set (ns_pending s0)" using w k(1) nth_mem [OF k(1)] by (auto simp: nb_waited_def)
    moreover have "nb_numbers (ns_data s0) ! j < nb_numbers (ns_data s') ! j"
      using i(3) len j True by (auto simp: s' split: if_splits)
    ultimately show ?thesis using sub inv i(1) by (simp add: nb_waited_def s')
  next
    case False
    then show ?thesis
      using sub inv i register_not_before [OF i(2) j False] by (simp add: nb_waited_def s' split: if_splits)
  qed
qed

lemma nb_waits_waited:
  assumes "nb_waits s0 s" "nb_inv (ns_data s0)" "ns_main s0 = Nb_wait t j 0" "j < MAX_CLIENTS"
  shows "nb_waited t j s0 s"
  using assms
proof (induction rule: nb_waits.induct)
  case (refl s)
  then show ?case by (simp add: nb_waited_def)
next
  case (more s0 s e s')
  then have w: "nb_waited t j s0 s" by blast
  then obtain i where i: "ns_main s = Nb_wait t j i" by (auto simp: nb_waited_def)
  from i more.hyps(2,3) show ?case
  proof (cases rule: nb_wait_step)
    case next_index
    then show ?thesis using w i by (auto simp: nb_waited_def less_Suc_eq split: if_splits)
  next
    case (thread k)
    then show ?thesis using nb_waited_thread [OF w more.prems(3)] by blast
  qed (use w in simp)
qed

section \<open>Properties\<close>

text \<open>
  (C27) Whom \<open>new_bakery\<close> serves: let the dispatcher enter the loop for client \<open>j\<close>.  Whatever registration
  threads run meanwhile, when the loop is over the next step answers \<open>j\<close> and clears its number, and either \<open>j\<close> has the
  number it entered with and that is the smallest of all registered clients, or a registration thread
  of \<open>j\<close> itself, pending when the loop was entered, has given it a larger one during the wait.
\<close>

theorem new_bakery_serves_minimum:
  assumes "nb_reach s0" "ns_main s0 = Nb_wait t j 0" "j < MAX_CLIENTS"
    and "nb_waits s0 s" "ns_main s = Nb_wait t j MAX_CLIENTS"
  shows "(if nb_numbers (ns_data s) ! j = nb_numbers (ns_data s0) ! j
      then \<forall>k < MAX_CLIENTS. nb_numbers (ns_data s) ! k \<noteq> 0 \<longrightarrow> nb_numbers (ns_data s) ! j \<le> nb_numbers (ns_data s) ! k
      else int j \<in> set (ns_pending s0) \<and> nb_numbers (ns_data s0) ! j < nb_numbers (ns_data s) ! j) \<and>
    (\<exists>s'. nb_act (Nb_result nsec True True) s = Cont s' \<and> ns_sent s' = ns_sent s @ [(t, Ba_long nsec)] \<and>
      ns_main s' = Nb_idle \<and> nb_numbers (ns_data s') = (nb_numbers (ns_data s))[j := 0])"
proof -
  have "nb_waited t j s0 s" using nb_waits_waited [OF assms(4) nb_reach_inv [OF assms(1)] assms(2,3)] .
  then show ?thesis using assms(5) by (auto simp: nb_waited_def nb_before_def nb_result_step_def ba_put_def) (metis not_le)
qed

text \<open>If \<open>j\<close> has the smallest number and nobody else moves, the loop runs to its end.\<close>

lemma nb_waits_through:
  assumes "\<forall>k < MAX_CLIENTS. \<not> nb_before (nb_numbers (ns_data s)) k j" "ns_main s = Nb_wait t j 0" "n \<le> MAX_CLIENTS"
  shows "nb_waits s (s\<lparr>ns_main := Nb_wait t j n\<rparr>)"
  using assms(3)
proof (induction n)
  case 0
  have "s\<lparr>ns_main := Nb_wait t j 0\<rparr> = s" using assms(2) by (cases s) simp
  then show ?case using nb_waits.refl [of s] by simp
next
  case (Suc n)
  then have "nb_act (Nb_result 0 True True) (s\<lparr>ns_main := Nb_wait t j n\<rparr>) = Cont (s\<lparr>ns_main := Nb_wait t j (Suc n)\<rparr>)"
    using assms(1) by (simp add: nb_result_step_def)
  moreover have "nb_waits s (s\<lparr>ns_main := Nb_wait t j n\<rparr>)" using Suc by simp
  ultimately show ?case using nb_waits.more by fastforce
qed

text \<open>Two clients, 1 and 2, have registered in this order.\<close>

definition nb_demo_reg :: "int \<Rightarrow> nat \<Rightarrow> nb_event" where
  "nb_demo_reg a p = Nb_request \<lparr>bq_proc = int p, bq_transp = 7, bq_arg = Some a, bq_malloc = True, bq_create = True\<rparr> True True"

definition nb_demo :: nb_sys where
  "nb_demo = \<lparr>ns_data = nb_find_max_number 2 (nb_find_max_number 1 nb_boot), ns_pending = [], ns_main = Nb_idle,
     ns_sent = [(7, Ba_void), (7, Ba_void)]\<rparr>"

lemma nb_demo_reach: "nb_reach nb_demo"
proof -
  let ?a = "nb_sys_boot\<lparr>ns_pending := [1], ns_sent := [(7, Ba_void)]\<rparr>"
  let ?b = "?a\<lparr>ns_data := nb_find_max_number 1 nb_boot, ns_pending := []\<rparr>"
  let ?c = "?b\<lparr>ns_pending := [2], ns_sent := [(7, Ba_void), (7, Ba_void)]\<rparr>"
  have "nb_act (nb_demo_reg 1 1) nb_sys_boot = Cont ?a" "nb_act (Nb_thread 0) ?a = Cont ?b"
    "nb_act (nb_demo_reg 2 1) ?b = Cont ?c" "nb_act (Nb_thread 0) ?c = Cont nb_demo"
    by (simp_all add: nb_demo_reg_def nb_bakery_prog_1_def register_proc_1_svc_def ba_put_def nb_sys_boot_def
        nb_thread_step_def nb_index_def MAX_CLIENTS_def nb_demo_def)
  then show ?thesis by (metis nb_reach.intros)
qed

lemma nb_demo_ask:
  "nb_act (nb_demo_reg (int j) 3) nb_demo = Cont (nb_demo\<lparr>ns_main := Nb_wait 7 j 0\<rparr>)" if "j < MAX_CLIENTS"
  using that by (simp add: nb_demo_reg_def nb_bakery_prog_1_def nb_index_def nb_demo_def)

lemma nb_demo_numbers:
  "nb_numbers (ns_data nb_demo) ! k = (if k = 1 then 1 else if k = 2 then 2 else 0)" if "k < MAX_CLIENTS"
  using that by (simp add: nb_demo_def nb_boot_def MAX_CLIENTS_def nth_list_update)

theorem new_bakery_serves_minimum_witness:
  "\<exists>s. ns_main s = Nb_wait 7 1 MAX_CLIENTS \<and> nb_numbers (ns_data s) ! 1 \<le> nb_numbers (ns_data s) ! 2 \<and>
     (\<exists>s'. nb_act (Nb_result 33 True True) s = Cont s' \<and> ns_sent s' = ns_sent s @ [(7, Ba_long 33)])"
proof -
  let ?s = "nb_demo\<lparr>ns_main := Nb_wait 7 1 0\<rparr>"
  have m: "1 < MAX_CLIENTS" "2 < MAX_CLIENTS" by (simp_all add: MAX_CLIENTS_def)
  have reach: "nb_reach ?s" using nb_reach.step [OF nb_demo_reach nb_demo_ask [OF m(1)]] by simp
  have "\<forall>k < MAX_CLIENTS. \<not> nb_before (nb_numbers (ns_data ?s)) k 1"
    using m(1) by (auto simp: nb_before_def nb_demo_numbers)
  from nb_waits_through [OF this, of 7 MAX_CLIENTS]
  have w: "nb_waits ?s (?s\<lparr>ns_main := Nb_wait 7 1 MAX_CLIENTS\<rparr>)" by simp
  from new_bakery_serves_minimum [OF reach _ m(1) w, of 7 33]
  have "nb_numbers (ns_data nb_demo) ! 1 \<le> nb_numbers (ns_data nb_demo) ! 2 \<and>
    (\<exists>s'. nb_act (Nb_result 33 True True) (nb_demo\<lparr>ns_main := Nb_wait 7 1 MAX_CLIENTS\<rparr>) = Cont s' \<and>
      ns_sent s' = ns_sent nb_demo @ [(7, Ba_long 33)])"
    using m(2) nb_demo_numbers [OF m(2)] by (auto simp del: nb_act.simps)
  then show ?thesis by (intro exI [of _ "nb_demo\<lparr>ns_main := Nb_wait 7 1 MAX_CLIENTS\<rparr>"]) (simp del: nb_act.simps)
qed

text \<open>
  The second case happens: client 2, whose thread has not run, polls its number, gets the 0 that
  \<open>results\<close> starts with and asks to be served.  Once the loop has passed index 1, the threads of clients 1 and 2 run; client 2 is then
  served with number 2 while client 1 is registered with number 1.
\<close>

definition nb_overtake :: "nat \<Rightarrow> nb_sys" where
  "nb_overtake i = \<lparr>ns_data = snd (get_number_proc_1_svc 2 nb_boot), ns_pending = [1, 2], ns_main = Nb_wait 7 2 i,
     ns_sent = [(7, Ba_void), (7, Ba_void), (7, Ba_int 0)]\<rparr>"

lemma nb_overtake_reach: "nb_reach (nb_overtake 0)"
proof -
  let ?a = "nb_sys_boot\<lparr>ns_pending := [1], ns_sent := [(7, Ba_void)]\<rparr>"
  let ?b = "?a\<lparr>ns_pending := [1, 2], ns_sent := [(7, Ba_void), (7, Ba_void)]\<rparr>"
  let ?c = "?b\<lparr>ns_data := snd (get_number_proc_1_svc 2 nb_boot), ns_sent := [(7, Ba_void), (7, Ba_void), (7, Ba_int 0)]\<rparr>"
  have "fst (get_number_proc_1_svc 2 nb_boot) = 0"
    by (simp add: get_number_proc_1_svc_def nb_boot_def MAX_CLIENTS_def)
  then have "nb_act (nb_demo_reg 1 1) nb_sys_boot = Cont ?a" "nb_act (nb_demo_reg 2 1) ?a = Cont ?b"
    "nb_act (nb_demo_reg 2 2) ?b = Cont ?c" "nb_act (nb_demo_reg 2 3) ?c = Cont (nb_overtake 0)"
    by (simp_all add: nb_demo_reg_def nb_bakery_prog_1_def register_proc_1_svc_def ba_put_def nb_sys_boot_def
        nb_index_def nb_overtake_def case_prod_beta)
      (simp_all add: MAX_CLIENTS_def)
  then show ?thesis by (metis nb_reach.intros)
qed

lemma new_bakery_own_thread_overtakes:
  "\<exists>s. nb_waits (nb_overtake 0) s \<and> ns_main s = Nb_wait 7 2 MAX_CLIENTS \<and>
     nb_numbers (ns_data s) ! 1 = 1 \<and> nb_numbers (ns_data s) ! 2 = 2"
proof -
  let ?s = "nb_overtake MAX_CLIENTS"
  let ?d = "snd (get_number_proc_1_svc 2 nb_boot)"
  let ?a = "?s\<lparr>ns_data := nb_find_max_number 1 ?d, ns_pending := [2]\<rparr>"
  let ?b = "?s\<lparr>ns_data := nb_find_max_number 2 (nb_find_max_number 1 ?d), ns_pending := []\<rparr>"
  have m: "2 < MAX_CLIENTS" by (simp add: MAX_CLIENTS_def)
  have "\<forall>k < MAX_CLIENTS. \<not> nb_before (nb_numbers (ns_data (nb_overtake 0))) k 2"
    by (simp add: nb_overtake_def nb_boot_def nb_before_def)
  from nb_waits_through [OF this, of 7 MAX_CLIENTS] have w: "nb_waits (nb_overtake 0) ?s" by (simp add: nb_overtake_def)
  have a: "nb_act (Nb_thread 0) ?s = Cont ?a" and b: "nb_act (Nb_thread 0) ?a = Cont ?b"
    using m by (simp_all add: nb_thread_step_def nb_index_def nb_overtake_def)
  have "nb_waits (nb_overtake 0) ?b"
    by (rule nb_waits.more [OF nb_waits.more [OF w a] b]) (simp_all add: nb_overtake_def)
  moreover have "nb_numbers (ns_data ?b) ! 1 = 1" "nb_numbers (ns_data ?b) ! 2 = 2"
    using m by (simp_all add: nb_boot_def)
  moreover have "ns_main ?b = Nb_wait 7 2 MAX_CLIENTS" by (simp add: nb_overtake_def)
  ultimately show ?thesis by blast
qed

text \<open>
  (C28) The dispatcher of \<open>new_bakery\<close> can hang for ever: once it waits for \<open>j\<close> at a client \<open>i\<close> with a smaller
  number and neither is about to register again, no step of any thread changes that; the wait
  never ends and no client ever gets another reply, because the call that would clear
  the number of \<open>i\<close> needs the same thread.
\<close>

theorem new_bakery_dispatcher_hangs:
  assumes "ns_main s = Nb_wait t j i" "i < MAX_CLIENTS" "nb_before (nb_numbers (ns_data s)) i j"
    "int i \<notin> set (ns_pending s)" "int j \<notin> set (ns_pending s)" "nb_steps s s'"
  shows "ns_main s' = Nb_wait t j i \<and> ns_sent s' = ns_sent s"
proof -
  from assms(6,1-5)
  have "ns_main s' = Nb_wait t j i \<and> ns_sent s' = ns_sent s \<and> nb_before (nb_numbers (ns_data s')) i j \<and>
      int i \<notin> set (ns_pending s') \<and> int j \<notin> set (ns_pending s')"
  proof (induction rule: nb_steps.induct)
    case (refl s)
    then show ?case by simp
  next
    case (more s0 s e s')
    then have s: "ns_main s = Nb_wait t j i" "ns_sent s = ns_sent s0" "nb_before (nb_numbers (ns_data s)) i j"
      "int i \<notin> set (ns_pending s)" "int j \<notin> set (ns_pending s)" by blast+
    have "ns_main s' \<noteq> Nb_idle"
      using more.hyps(2) s(1) \<open>i < MAX_CLIENTS\<close> by (cases e) (auto simp: nb_result_step_def nb_thread_step_def split: if_splits)
    from s(1) more.hyps(2) this show ?case
    proof (cases rule: nb_wait_step)
      case (thread k)
      let ?a = "ns_pending s ! k"
      have "?a \<in> set (ns_pending s)" using thread(1) by simp
      then have "nat ?a \<noteq> i" "nat ?a \<noteq> j" using s(4,5) nb_index_nat [OF thread(2)] by auto
      then have "nb_before (nb_numbers (nb_find_max_number (nat ?a) (ns_data s))) i j" using s(3) by (simp add: nb_before_def)
      then show ?thesis using thread(3) s pending_shrinks [of k "ns_pending s"] by auto
    qed (use s in simp_all)
  qed
  then show ?thesis by blast
qed

theorem new_bakery_dispatcher_hangs_witness:
  "\<exists>s. nb_reach s \<and> ns_main s = Nb_wait 7 2 1 \<and> (\<forall>s'. nb_steps s s' \<longrightarrow> ns_main s' = Nb_wait 7 2 1)"
proof -
  let ?s = "\<lambda>i. nb_demo\<lparr>ns_main := Nb_wait 7 2 i\<rparr>"
  have m: "0 < MAX_CLIENTS" "1 < MAX_CLIENTS" "2 < MAX_CLIENTS" by (simp_all add: MAX_CLIENTS_def)
  have "nb_act (Nb_result 0 True True) (?s 0) = Cont (?s 1)"
    using m by (simp add: nb_result_step_def nb_before_def nb_demo_numbers)
  moreover have "nb_reach (?s 0)" using nb_reach.step [OF nb_demo_reach nb_demo_ask [OF m(3)]] by simp
  ultimately have reach: "nb_reach (?s 1)" by (rule nb_reach.step [rotated])
  have b: "nb_before (nb_numbers (ns_data (?s 1))) 1 2" using m by (simp add: nb_before_def nb_demo_numbers)
  have "ns_main s' = Nb_wait 7 2 1" if "nb_steps (?s 1) s'" for s'
    using new_bakery_dispatcher_hangs [OF _ m(2) b _ _ that, of 7] by (simp add: nb_demo_def)
  then show ?thesis using reach by (intro exI [of _ "?s 1"]) simp
qed

text \<open>The client of \<open>new_bakery\<close> prints the number it polled, after the failures it reports.\<close>

lemma nb_client_polls:
  "n \<noteq> -1 \<Longrightarrow> nb_poll_loop (replicate k (Some (-1)) @ Some n # rs) out = Cont (n, out)"
  by (induction k) simp_all

lemma nb_client_alone:
  assumes "n \<noteq> -1"
  shows "nb_client_main 2 True True [((True, replicate k (Some (-1)) @ [Some n], Some t), True)] g = Cont [Nbc_got n t]"
  using nb_client_polls [OF assms, of k "[]"] by (simp add: nb_client_main_def nb_client_iter_def)

text \<open>
  \<open>bakery (2)\<close>: a call of the service procedure clears the number at the ticket's index, whoever holds
  it; a negative ticket is out of bounds, and a failed call makes the client read a null pointer.
\<close>

lemma b2_service_clears_any:
  "(c_rem ticket 10000 < 0 \<longleftrightarrow> b2_bakery_proc_1_svc clk ticket s = UB) \<and>
   (0 \<le> c_rem ticket 10000 \<longrightarrow> (\<exists>t s'. b2_bakery_prog_1 clk 2 (Some ticket) True True s = Cont (Some (B2_long t), s') \<and>
      b2_numbers s' = (b2_numbers s)[nat (c_rem ticket 10000) := 0])) \<and>
   b2_client_iter None time = UB"
  by (auto simp: b2_bakery_proc_1_svc_def b2_bakery_prog_1_def b2_client_iter_def Let_def)

end
