(* ===== verification/Dgram_Labs.thy ===== *)
theory Dgram_Labs
  imports C_Text
begin

text \<open>
  The datagram programs of \<open>lab_sockets/lab_02\<close>: two servers on the socket file \<open>./server.soc\<close> and their
  clients.  The file system is the list of socket paths that exist; a result says whether the
  program is still waiting, has ended with a status, or runs into undefined behaviour.
\<close>

section \<open>Addresses\<close>

definition SOCK_NAME :: string where "SOCK_NAME = ''./server.soc''"

definition DG_BUF_SIZE :: nat where "DG_BUF_SIZE = 1024"

text \<open>
  \<open>strncpy(addr.sa_data, name, strlen(name))\<close> into the 14 bytes of \<open>sa_data\<close>: no terminating NUL is
  written, the bytes behind the name stay as they were, and a longer name overruns the array.
\<close>

definition strncpy_sa :: "string \<Rightarrow> string \<Rightarrow> string option" where
  "strncpy_sa sa name = (if length name \<le> length sa then Some (name @ drop (length name) sa) else None)"

text \<open>The path of an AF\_UNIX address ends at its first NUL or at the end of the structure.\<close>

definition sock_path :: "string \<Rightarrow> string" where
  "sock_path sa = upto_nul sa"

section \<open>Servers\<close>

datatype dg_line = Read_line string | Send_line string

record dg =
  dg_fs :: "string list"
  dg_out :: "dg_line list"
  dg_sent :: "(string \<times> string) list"

datatype dg_end = Waiting_in_recv dg | Ended int dg | Undefined

definition dg_unlink :: "string \<Rightarrow> dg \<Rightarrow> dg" where
  "dg_unlink p s = s\<lparr>dg_fs := removeAll p (dg_fs s)\<rparr>"

text \<open>
  What \<open>recvfrom\<close> returns to the second server: a datagram with its sender, the clock reading of the
  answer, whether \<open>sendto\<close> succeeds and whether SIGINT arrives outside \<open>recvfrom\<close>; or an error,
  which is also what SIGINT causes inside \<open>recvfrom\<close>, since the handler is installed without
  \<open>SA_RESTART\<close>.
\<close>

datatype dg2_event = Dg2 string string nat bool bool | Dg2_error

definition dg_got :: "string \<Rightarrow> string option" where
  "dg_got bytes = (let n = min (length bytes) DG_BUF_SIZE in
     if n < DG_BUF_SIZE then Some (upto_nul (take n bytes)) else None)"

fun dg2_loop :: "dg2_event list \<Rightarrow> bool \<Rightarrow> dg \<Rightarrow> dg_end" where
  "dg2_loop [] flag s = (if flag then Waiting_in_recv s else Ended 0 (dg_unlink SOCK_NAME s))"
| "dg2_loop (e # es) flag s = (if \<not> flag then Ended 0 (dg_unlink SOCK_NAME s) else case e of
      Dg2_error \<Rightarrow> Ended 1 (dg_unlink SOCK_NAME s)
    | Dg2 from bytes nsec send_ok sigint \<Rightarrow> (case dg_got bytes of
          None \<Rightarrow> Undefined
        | Some text \<Rightarrow> (let s1 = s\<lparr>dg_out := dg_out s @ [Read_line text]\<rparr>; buf = show_dec nsec in
            if send_ok
            then dg2_loop es (\<not> sigint) (s1\<lparr>dg_sent := dg_sent s @ [(from, buf)], dg_out := dg_out s1 @ [Send_line buf]\<rparr>)
            else Ended 1 (dg_unlink SOCK_NAME s1))))"

definition dg_start :: "string list \<Rightarrow> dg" where
  "dg_start fs = \<lparr>dg_fs = fs, dg_out = [], dg_sent = []\<rparr>"

text \<open>\<open>main\<close> of the second server; \<open>sa\<close> is what the uninitialised \<open>addr.sa_data\<close> holds.\<close>

definition dg2_main :: "string \<Rightarrow> bool \<Rightarrow> bool \<Rightarrow> dg2_event list \<Rightarrow> string list \<Rightarrow> dg_end" where
  "dg2_main sa socket_ok sigaction_ok es fs =
     (if \<not> socket_ok then Ended 1 (dg_start fs)
      else (case strncpy_sa sa SOCK_NAME of
          None \<Rightarrow> Undefined
        | Some addr \<Rightarrow>
            if sock_path addr \<in> set fs then Ended 1 (dg_start fs)
            else if \<not> sigaction_ok then Ended 1 (dg_start (sock_path addr # fs))
            else dg2_loop es True (dg_start (sock_path addr # fs))))"

text \<open>
  The first server: \<open>signal\<close> installs the handler of SIGALRM with restarting calls, so the flag is
  looked at only after the next datagram; the second component of a datagram says whether the
  alarm has gone off by then.  An error of \<open>recvfrom\<close> ends the server without \<open>unlink\<close>.
\<close>

datatype dg1_event = Dg1 string bool | Dg1_error

fun dg1_loop :: "dg1_event list \<Rightarrow> bool \<Rightarrow> dg \<Rightarrow> dg_end" where
  "dg1_loop [] flag s = (if flag then Waiting_in_recv s else Ended 0 (dg_unlink SOCK_NAME s))"
| "dg1_loop (e # es) flag s = (if \<not> flag then Ended 0 (dg_unlink SOCK_NAME s) else case e of
      Dg1_error \<Rightarrow> Ended 1 s
    | Dg1 bytes alarm \<Rightarrow> (case dg_got bytes of
          None \<Rightarrow> Undefined
        | Some text \<Rightarrow> dg1_loop es (\<not> alarm) (s\<lparr>dg_out := dg_out s @ [Read_line text]\<rparr>)))"

definition dg1_main :: "string \<Rightarrow> bool \<Rightarrow> dg1_event list \<Rightarrow> string list \<Rightarrow> dg_end" where
  "dg1_main sa socket_ok es fs = (case strncpy_sa sa SOCK_NAME of
      None \<Rightarrow> Undefined
    | Some addr \<Rightarrow>
        if \<not> socket_ok \<or> sock_path addr \<in> set fs then Ended 1 (dg_start fs)
        else dg1_loop es True (dg_start (sock_path addr # fs)))"

section \<open>Clients\<close>

text \<open>
  The client of the first server: the address is initialised with zeros.  The result is the
  status, the path the datagram goes to and its bytes.
\<close>

definition dg1_client :: "bool \<Rightarrow> nat \<Rightarrow> (string \<Rightarrow> bool) \<Rightarrow> int \<times> (string \<times> string) option" where
  "dg1_client socket_ok pid deliver =
     (if \<not> socket_ok then (1, None)
      else (case strncpy_sa (replicate 14 NUL) SOCK_NAME of
          None \<Rightarrow> (1, None)
        | Some addr \<Rightarrow> if deliver (sock_path addr) then (0, Some (sock_path addr, show_dec pid)) else (1, None)))"

definition client_path :: "nat \<Rightarrow> string" where
  "client_path pid = ''./'' @ show_dec pid @ ''_client.soc''"

text \<open>
  The client of the second server.  \<open>ssa\<close> and \<open>csa\<close> are what the two uninitialised addresses hold;
  \<open>exchange\<close> stands for the server: it gives the answer to a datagram sent from one path to another,
  \<open>None\<close> when \<open>sendto\<close> fails, \<open>Some None\<close> when \<open>recvfrom\<close> fails.
\<close>

definition dg2_client ::
  "bool \<Rightarrow> nat \<Rightarrow> string \<Rightarrow> string \<Rightarrow> string list \<Rightarrow> (string \<Rightarrow> string \<Rightarrow> string \<Rightarrow> string option option) \<Rightarrow> dg_end" where
  "dg2_client socket_ok pid ssa csa fs exchange =
     (if \<not> socket_ok then Ended 1 (dg_start fs)
      else (case (strncpy_sa ssa SOCK_NAME, strncpy_sa csa (client_path pid)) of
          (Some server, Some client) \<Rightarrow>
            (let me = sock_path client; buf = show_dec pid in
             if me \<in> set fs then Ended 1 (dg_start fs)
             else (let s = dg_start (me # fs) in
               case exchange me (sock_path server) buf of
                 None \<Rightarrow> Ended 1 (dg_unlink (client_path pid) s)
               | Some None \<Rightarrow> Ended 1 (dg_unlink (client_path pid) (s\<lparr>dg_out := [Send_line buf]\<rparr>))
               | Some (Some bytes) \<Rightarrow> (case dg_got bytes of
                     None \<Rightarrow> Undefined
                   | Some text \<Rightarrow>
                       Ended 0 (dg_unlink (client_path pid) (s\<lparr>dg_out := [Send_line buf, Read_line text], dg_sent := [(sock_path server, buf)]\<rparr>)))))
        | _ \<Rightarrow> Undefined))"

section \<open>Lemmas\<close>

lemma length_SOCK_NAME: "length SOCK_NAME = 12"
  by (simp add: SOCK_NAME_def)

lemma sock_name_addr:
  assumes "length sa = 14"
  shows "strncpy_sa sa SOCK_NAME = Some (SOCK_NAME @ drop 12 sa)"
    and "sock_path (SOCK_NAME @ drop 12 sa) = SOCK_NAME @ upto_nul (drop 12 sa)"
proof -
  show "strncpy_sa sa SOCK_NAME = Some (SOCK_NAME @ drop 12 sa)"
    using assms by (simp add: strncpy_sa_def length_SOCK_NAME)
  show "sock_path (SOCK_NAME @ drop 12 sa) = SOCK_NAME @ upto_nul (drop 12 sa)"
    by (simp add: sock_path_def upto_nul_def SOCK_NAME_def)
qed

lemma upto_nul_Nil_iff: "upto_nul xs = [] \<longleftrightarrow> xs = [] \<or> hd xs = NUL"
  by (cases xs) (auto simp: upto_nul_def)

text \<open>The server is found under its name exactly when the first byte behind the name happens to be NUL.\<close>

lemma sock_name_found:
  assumes "length sa = 14"
  shows "sock_path (SOCK_NAME @ drop 12 sa) = SOCK_NAME \<longleftrightarrow> sa ! 12 = NUL"
  using assms by (auto simp: sock_name_addr(2) [OF assms] upto_nul_Nil_iff hd_drop_conv_nth)

lemma dg_got_eq: "dg_got bytes = (if length bytes < 1024 then Some (upto_nul bytes) else None)"
  by (auto simp: dg_got_def DG_BUF_SIZE_def Let_def min_def)

lemma digit_char_not_nul: "d < 10 \<Longrightarrow> digit_char d \<noteq> NUL"
  using digit_char_class(1) [of d] by (auto simp: is_dec_def)

lemma show_dec_plain: "NUL \<notin> set (show_dec n)"
  using digs_less [of 10 _ n] digit_char_not_nul by (force simp: show_base_def)

lemma upto_nul_show_dec [simp]: "upto_nul (show_dec n) = show_dec n"
  using show_dec_plain [of n] by (auto simp: upto_nul_def takeWhile_eq_all_conv)

lemma length_digs: "length (digs 10 n) = 1 \<longleftrightarrow> n < 10"
proof (cases "n < 10")
  case False
  then have "digs 10 n = digs 10 (n div 10) @ [n mod 10]" by (subst digs.simps) simp
  moreover have "length (digs 10 (n div 10)) \<noteq> 0" by simp
  ultimately show ?thesis using False by simp
qed (simp add: digs.simps)

lemma length_digs_le: "n < 10 ^ k \<Longrightarrow> 0 < k \<Longrightarrow> length (digs 10 n) \<le> k"
proof (induction k arbitrary: n)
  case (Suc k)
  show ?case
  proof (cases "n < 10")
    case False
    then have d: "digs 10 n = digs 10 (n div 10) @ [n mod 10]" by (subst digs.simps) simp
    have "n div 10 < 10 ^ k" using Suc.prems(1) by (simp add: less_mult_imp_div_less mult.commute)
    moreover have "0 < k" using False Suc.prems(1) by (cases k) auto
    ultimately show ?thesis using Suc.IH d by simp
  qed (simp add: digs.simps)
qed simp

lemma show_nsec_short: "n < 1000000000 \<Longrightarrow> length (show_dec n) < 1024"
  using length_digs_le [of n 9] by (simp add: show_base_def)

lemma client_path_length: "length (client_path pid) \<le> 14 \<longleftrightarrow> pid < 10"
proof -
  have "length (client_path pid) = 13 + length (digs 10 pid)" by (simp add: client_path_def show_base_def)
  moreover have "0 < length (digs 10 pid)" by simp
  ultimately show ?thesis using length_digs [of pid] by linarith
qed

lemma dg2_loop_answers:
  assumes "\<forall>(from, bytes, nsec) \<in> set ms. length bytes < 1024"
  shows "dg2_loop (map (\<lambda>(from, bytes, nsec). Dg2 from bytes nsec True False) ms @ es) True s =
    dg2_loop es True (s\<lparr>dg_out := dg_out s @ concat (map (\<lambda>(from, bytes, nsec). [Read_line (upto_nul bytes), Send_line (show_dec nsec)]) ms),
       dg_sent := dg_sent s @ map (\<lambda>(from, bytes, nsec). (from, show_dec nsec)) ms\<rparr>)"
  using assms
proof (induction ms arbitrary: s)
  case (Cons m ms)
  obtain f bytes nsec where m: "m = (f, bytes, nsec)" by (cases m)
  then show ?case using Cons.prems Cons.IH by (simp add: dg_got_eq Let_def)
qed simp

lemma dg2_loop_unlinks: "dg2_loop es flag s = Ended c s' \<Longrightarrow> dg_fs s' = removeAll SOCK_NAME (dg_fs s)"
proof (induction es flag s rule: dg2_loop.induct)
  case (2 e es flag s)
  show ?case
  proof (cases "flag \<and> e \<noteq> Dg2_error")
    case True
    then obtain f bytes nsec send_ok sigint where e: "e = Dg2 f bytes nsec send_ok sigint" by (cases e) auto
    show ?thesis
      using 2 True by (auto simp: e Let_def dg_unlink_def split: option.splits if_splits)
  qed (use 2 in \<open>auto simp: dg_unlink_def split: if_splits\<close>)
qed (auto simp: dg_unlink_def split: if_splits)

lemma dg1_loop_reads:
  assumes "\<forall>bytes \<in> set ms. length bytes < 1024"
  shows "dg1_loop (map (\<lambda>bytes. Dg1 bytes False) ms @ es) True s =
    dg1_loop es True (s\<lparr>dg_out := dg_out s @ map (\<lambda>bytes. Read_line (upto_nul bytes)) ms\<rparr>)"
  using assms by (induction ms arbitrary: s) (simp_all add: dg_got_eq)

section \<open>Properties\<close>

text \<open>
  The second server answers every datagram: if the byte behind the name in its uninitialised
  address is NUL and no socket file is in the way, then after any number of datagrams of less than
  1024 bytes it waits for the next one, having printed each text, and having sent to each sender, in
  order, the nanoseconds in decimal.  One datagram of 1024 bytes or more makes it store
  the terminating NUL outside the buffer.
\<close>

lemma dg2_server_answers:
  assumes "length sa = 14" "sa ! 12 = NUL" "SOCK_NAME \<notin> set fs"
    and "\<forall>(from, bytes, nsec) \<in> set ms. length bytes < 1024"
  shows "dg2_main sa True True (map (\<lambda>(from, bytes, nsec). Dg2 from bytes nsec True False) ms) fs =
      Waiting_in_recv \<lparr>dg_fs = SOCK_NAME # fs,
        dg_out = concat (map (\<lambda>(from, bytes, nsec). [Read_line (upto_nul bytes), Send_line (show_dec nsec)]) ms),
        dg_sent = map (\<lambda>(from, bytes, nsec). (from, show_dec nsec)) ms\<rparr> \<and>
    (1024 \<le> length long \<longrightarrow>
      dg2_main sa True True (map (\<lambda>(from, bytes, nsec). Dg2 from bytes nsec True False) ms @ [Dg2 f long n ok sig]) fs = Undefined)"
proof -
  have path: "sock_path (SOCK_NAME @ drop 12 sa) = SOCK_NAME" using sock_name_found [OF assms(1)] assms(2) by simp
  show ?thesis
    using dg2_loop_answers [OF assms(4), of "[]" "dg_start (SOCK_NAME # fs)"]
      dg2_loop_answers [OF assms(4), of "[Dg2 f long n ok sig]" "dg_start (SOCK_NAME # fs)"] assms(3)
    by (simp add: dg2_main_def sock_name_addr(1) [OF assms(1)] path dg_start_def dg_got_eq)
qed

lemma dg2_server_answers_witness:
  "dg2_main (replicate 14 NUL) True True [Dg2 ''./7_client.soc'' ''7'' 42 True False] [''./x''] =
     Waiting_in_recv \<lparr>dg_fs = [SOCK_NAME, ''./x''], dg_out = [Read_line ''7'', Send_line (show_dec 42)],
       dg_sent = [(''./7_client.soc'', show_dec 42)]\<rparr>"
  using dg2_server_answers [of "replicate 14 NUL" "[''./x'']" "[(''./7_client.soc'', ''7'', 42)]" "[]"]
  by (simp add: SOCK_NAME_def upto_nul_def)

text \<open>
  Ending and starting again: however the loop of the second server ends (an error, a failed answer or
  the cleared flag), the socket file is removed, so that a restart gets to its loop.  The first server
  removes it only on the orderly way out: after an error of \<open>recvfrom\<close> the file stays and every later
  start fails to bind.
\<close>

lemma dgram_restart:
  assumes "length sa = 14" "sa ! 12 = NUL" "length sb = 14" "sb ! 12 = NUL" "SOCK_NAME \<notin> set fs"
    and "\<forall>bytes \<in> set ms. length bytes < 1024"
  shows "(\<forall>c s. dg2_main sa True True es fs = Ended c s \<longrightarrow>
      dg2_main sb True True es' (dg_fs s) = dg2_loop es' True (dg_start (SOCK_NAME # fs))) \<and>
    (\<exists>s. dg1_main sa True (map (\<lambda>bytes. Dg1 bytes False) ms @ [Dg1_error]) fs = Ended 1 s \<and>
      dg1_main sb True es1 (dg_fs s) = Ended 1 (dg_start (dg_fs s)))"
proof -
  have path: "sock_path (SOCK_NAME @ drop 12 x) = SOCK_NAME" if "length x = 14" "x ! 12 = NUL" for x
    using sock_name_found [OF that(1)] that(2) by simp
  have main2: "dg2_main x True True e f = (if SOCK_NAME \<in> set f then Ended 1 (dg_start f) else dg2_loop e True (dg_start (SOCK_NAME # f)))"
    if "length x = 14" "x ! 12 = NUL" for x e f
    using that by (simp add: dg2_main_def sock_name_addr(1) path)
  have main1: "dg1_main x True e f = (if SOCK_NAME \<in> set f then Ended 1 (dg_start f) else dg1_loop e True (dg_start (SOCK_NAME # f)))"
    if "length x = 14" "x ! 12 = NUL" for x e f
    using that by (simp add: dg1_main_def sock_name_addr(1) path)
  have "dg_fs s = fs" if "dg2_main sa True True es fs = Ended c s" for c s
    using that dg2_loop_unlinks [of es True "dg_start (SOCK_NAME # fs)" c s] assms(1,2,5)
    by (simp add: main2 dg_start_def)
  then show ?thesis
    using assms(5) dg1_loop_reads [OF assms(6), of "[Dg1_error]"]
    by (simp add: main2 [OF assms(1,2)] main2 [OF assms(3,4)] main1 [OF assms(1,2)] main1 [OF assms(3,4)] dg_start_def)
qed

lemma dgram_restart_witness:
  "\<exists>s. dg1_main (replicate 14 NUL) True [Dg1 ''12'' False, Dg1_error] [] = Ended 1 s \<and>
     dg1_main (replicate 14 NUL) True [] (dg_fs s) = Ended 1 (dg_start (dg_fs s))"
  using dgram_restart [of "replicate 14 NUL" "replicate 14 NUL" "[]" "[''12'']" "[]" "[]" "[]"] by simp

text \<open>
  The client of the second server works only for process ids of one digit: its own path has 13
  characters besides the digits and is copied into the 14 bytes of \<open>sa_data\<close>, so from pid 10 on the
  copy overruns the address; below 10 the client prints its pid and the server's
  nanoseconds, ends with 0 and removes its socket file.
\<close>

lemma dg2_client_pid_bound:
  assumes "length ssa = 14" "ssa ! 12 = NUL" "length csa = 14" "client_path pid \<notin> set fs"
    and "exchange (client_path pid) SOCK_NAME (show_dec pid) = Some (Some (show_dec nsec))" "nsec < 1000000000"
  shows "dg2_client True pid ssa csa fs exchange =
    (if 10 \<le> pid then Undefined
     else Ended 0 \<lparr>dg_fs = fs, dg_out = [Send_line (show_dec pid), Read_line (show_dec nsec)],
       dg_sent = [(SOCK_NAME, show_dec pid)]\<rparr>)"
proof (cases "10 \<le> pid")
  case True
  then have "strncpy_sa csa (client_path pid) = None"
    using client_path_length [of pid] assms(3) by (simp add: strncpy_sa_def)
  then show ?thesis using True by (simp add: dg2_client_def sock_name_addr(1) [OF assms(1)])
next
  case False
  then have "length (digs 10 pid) = 1" using length_digs [of pid] by simp
  then have len: "length (client_path pid) = 14" by (simp add: client_path_def show_base_def)
  then have copy: "strncpy_sa csa (client_path pid) = Some (client_path pid)" using assms(3) by (simp add: strncpy_sa_def)
  have "NUL \<notin> set (client_path pid)" using show_dec_plain [of pid] by (simp add: client_path_def)
  then have me: "sock_path (client_path pid) = client_path pid"
    by (auto simp: sock_path_def upto_nul_def takeWhile_eq_all_conv)
  have srv: "sock_path (SOCK_NAME @ drop 12 ssa) = SOCK_NAME" using sock_name_found [OF assms(1)] assms(2) by simp
  show ?thesis
    using False assms(4,5) show_nsec_short [OF assms(6)]
    by (simp add: dg2_client_def sock_name_addr(1) [OF assms(1)] copy me srv Let_def dg_got_eq dg_unlink_def dg_start_def)
qed

lemma dg2_client_pid_bound_witness:
  "dg2_client True 10 (replicate 14 NUL) (replicate 14 NUL) [] (\<lambda>me srv buf. Some (Some (show_dec 5))) = Undefined"
  using dg2_client_pid_bound [of "replicate 14 NUL" "replicate 14 NUL" 10 "[]" "\<lambda>me srv buf. Some (Some (show_dec 5))" 5] by simp

text \<open>
  The first client always ends its address with a NUL; it reaches a server whose own address
  happens to be clean.
\<close>

lemma dg1_client_reaches:
  assumes "length sa = 14" "SOCK_NAME \<notin> set fs" "\<And>p. deliver p \<longleftrightarrow> p = sock_path (SOCK_NAME @ drop 12 sa)"
  shows "dg1_client True pid deliver = (if sa ! 12 = NUL then (0, Some (SOCK_NAME, show_dec pid)) else (1, None))"
proof -
  let ?z = "replicate 14 NUL"
  have z: "sock_path (SOCK_NAME @ drop 12 ?z) = SOCK_NAME" "strncpy_sa ?z SOCK_NAME = Some (SOCK_NAME @ drop 12 ?z)"
    using sock_name_found [of ?z] sock_name_addr(1) [of ?z] by simp_all
  have "deliver SOCK_NAME \<longleftrightarrow> sa ! 12 = NUL"
    unfolding assms(3) using sock_name_found [OF assms(1)] by metis
  then show ?thesis unfolding dg1_client_def z(2) option.case z(1) by simp
qed

end
