(* ===== verification/Socket_Pair.thy ===== *)
theory Socket_Pair
  imports C_Text
begin

text \<open>
  The programs of \<open>lab_sockets/lab_01\<close>: a parent and three children on the two ends of one pair of
  stream sockets.  The children share their end, and a stream has no message boundaries: the
  model has one byte list for each direction and interleaves the calls of the four processes.
\<close>

section \<open>main.c\<close>

datatype sp_line = Parent_receive string | Parent_send string | Child_send nat string | Child_receive nat string

datatype sp_parent = P_fork | P_read | P_end

datatype sp_child = C_write | C_read | C_done

record sp_kid =
  kid_buf :: string
  kid_pc :: sp_child

record sp =
  sp_i :: nat
  sp_pc :: sp_parent
  sp_buf :: string
  sp_up :: string
  sp_down :: string
  sp_kids :: "sp_kid list"
  sp_reads :: "(nat \<times> string) list"
  sp_out :: "sp_line list"

definition messages :: "string list" where
  "messages = [''aaaaa'', ''bbb'', ''cccc'']"

text \<open>\<open>read\<close> into a buffer, \<open>printf\<close> with \<open>%s\<close> of a buffer and \<open>strcat(buf, " OK")\<close>; \<open>None\<close> is a buffer
  without a NUL, or too small.\<close>

definition read_into :: "string \<Rightarrow> string \<Rightarrow> string" where
  "read_into bytes buf = bytes @ drop (length bytes) buf"

definition c_text :: "string \<Rightarrow> string option" where
  "c_text buf = (if NUL \<in> set buf then Some (upto_nul buf) else None)"

definition strcat_ok :: "string \<Rightarrow> string option" where
  "strcat_ok buf = (case c_text buf of
      None \<Rightarrow> None
    | Some t \<Rightarrow> if length t + 4 \<le> length buf then Some (t @ '' OK'' @ [NUL] @ drop (length t + 4) buf) else None)"

text \<open>The parent, one iteration in two steps: \<open>fork\<close>, then from \<open>read\<close> to \<open>write\<close>.\<close>

definition sp_parent_step :: "bool \<Rightarrow> sp \<Rightarrow> sp outcome" where
  "sp_parent_step fork_ok s = (case sp_pc s of
      P_fork \<Rightarrow> (if 3 \<le> sp_i s then Cont (s\<lparr>sp_pc := P_end\<rparr>)
        else if \<not> fork_ok then Exit 1
        else Cont (s\<lparr>sp_kids := sp_kids s @ [\<lparr>kid_buf = sp_buf s, kid_pc = C_write\<rparr>], sp_pc := P_read\<rparr>))
    | P_read \<Rightarrow> (if sp_up s = [] then Blocked
        else (let buf = read_into (take 1024 (sp_up s)) (sp_buf s) in
          case (c_text buf, strcat_ok buf) of
            (Some t, Some buf') \<Rightarrow> Cont (s\<lparr>sp_up := drop 1024 (sp_up s), sp_buf := buf', sp_down := sp_down s @ buf',
               sp_out := sp_out s @ [Parent_receive t, Parent_send (upto_nul buf')], sp_i := sp_i s + 1, sp_pc := P_fork\<rparr>)
          | _ \<Rightarrow> UB))
    | P_end \<Rightarrow> Blocked)"

definition sp_child_step :: "nat \<Rightarrow> sp \<Rightarrow> sp outcome" where
  "sp_child_step k s = (let kid = sp_kids s ! k; set_kid = (\<lambda>x s. s\<lparr>sp_kids := (sp_kids s)[k := x]\<rparr>) in
     case kid_pc kid of
       C_write \<Rightarrow> Cont (set_kid (kid\<lparr>kid_pc := C_read\<rparr>)
          (s\<lparr>sp_up := sp_up s @ messages ! k @ [NUL], sp_out := sp_out s @ [Child_send k (messages ! k)]\<rparr>))
     | C_read \<Rightarrow> (if sp_down s = [] then Blocked
         else (let bytes = take 3 (sp_down s); buf = read_into bytes (kid_buf kid) in
           case c_text buf of
             None \<Rightarrow> UB
           | Some t \<Rightarrow> Cont (set_kid (kid\<lparr>kid_buf := buf, kid_pc := C_done\<rparr>)
               (s\<lparr>sp_down := drop 3 (sp_down s), sp_reads := sp_reads s @ [(k, bytes)], sp_out := sp_out s @ [Child_receive k t]\<rparr>))))
     | C_done \<Rightarrow> Blocked)"

datatype sp_event = Parent bool | Child nat

fun sp_act :: "sp_event \<Rightarrow> sp \<Rightarrow> sp outcome" where
  "sp_act (Parent ok) s = sp_parent_step ok s"
| "sp_act (Child k) s = (if k < length (sp_kids s) then sp_child_step k s else Blocked)"

text \<open>The start, with the uninitialised buffer \<open>g\<close>.\<close>

definition sp_boot :: "string \<Rightarrow> sp" where
  "sp_boot g = \<lparr>sp_i = 0, sp_pc = P_fork, sp_buf = g, sp_up = [], sp_down = [], sp_kids = [], sp_reads = [], sp_out = []\<rparr>"

inductive sp_reach :: "string \<Rightarrow> sp \<Rightarrow> bool" for g where
  boot: "sp_reach g (sp_boot g)"
| step: "sp_reach g s \<Longrightarrow> sp_act e s = Cont s' \<Longrightarrow> sp_reach g s'"

section \<open>socketpair.c\<close>

text \<open>
  All children are forked before the parent reads; each sends \<open>sizeof\<close> of a pointer, 8 bytes from the
  start of its string literal, so \<open>raw ! k\<close> is the literal with its NUL and what lies behind it in
  memory.  The parent reads up to 64 bytes and sends its whole buffer of 64 bytes.
\<close>

record sp2 =
  s2p_i :: nat
  s2p_buf :: string
  s2p_up :: string
  s2p_down :: string
  s2p_kids :: "sp_kid list"
  s2p_out :: "sp_line list"

definition sp2_boot :: "string \<Rightarrow> sp2" where
  "sp2_boot g = \<lparr>s2p_i = 0, s2p_buf = g, s2p_up = [], s2p_down = [], s2p_kids = replicate 3 \<lparr>kid_buf = g, kid_pc = C_write\<rparr>,
     s2p_out = []\<rparr>"

text \<open>
  A read on the parent's end would return 0 only when every child has closed the other one, and a
  child does that after it has got a reply: while the parent still has replies to send, it waits.
\<close>

definition sp2_parent_step :: "sp2 \<Rightarrow> sp2 outcome" where
  "sp2_parent_step s = (if 3 \<le> s2p_i s then Blocked
     else if s2p_up s = [] then Blocked
     else (let buf = read_into (take 64 (s2p_up s)) (s2p_buf s) in
       case (c_text buf, strcat_ok buf) of
         (Some t, Some buf') \<Rightarrow> Cont (s\<lparr>s2p_up := drop 64 (s2p_up s), s2p_buf := buf', s2p_down := s2p_down s @ buf',
            s2p_out := s2p_out s @ [Parent_receive t], s2p_i := s2p_i s + 1\<rparr>)
       | _ \<Rightarrow> UB))"

definition sp2_child_step :: "string list \<Rightarrow> nat \<Rightarrow> sp2 \<Rightarrow> sp2 outcome" where
  "sp2_child_step raw k s = (let kid = s2p_kids s ! k; set_kid = (\<lambda>x s. s\<lparr>s2p_kids := (s2p_kids s)[k := x]\<rparr>) in
     case kid_pc kid of
       C_write \<Rightarrow> Cont (set_kid (kid\<lparr>kid_pc := C_read\<rparr>)
          (s\<lparr>s2p_up := s2p_up s @ take 8 (raw ! k), s2p_out := s2p_out s @ [Child_send k (upto_nul (raw ! k))]\<rparr>))
     | C_read \<Rightarrow> (if s2p_down s = [] \<and> s2p_i s < 3 then Blocked
         else (let buf = read_into (take 64 (s2p_down s)) (kid_buf kid) in
           case c_text buf of
             None \<Rightarrow> UB
           | Some t \<Rightarrow> Cont (set_kid (kid\<lparr>kid_buf := buf, kid_pc := C_done\<rparr>)
               (s\<lparr>s2p_down := drop 64 (s2p_down s), s2p_out := s2p_out s @ [Child_receive k t]\<rparr>))))
     | C_done \<Rightarrow> Blocked)"

datatype sp2_event = Parent2 | Child2 nat

fun sp2_act :: "string list \<Rightarrow> sp2_event \<Rightarrow> sp2 \<Rightarrow> sp2 outcome" where
  "sp2_act raw Parent2 s = sp2_parent_step s"
| "sp2_act raw (Child2 k) s = (if k < length (s2p_kids s) then sp2_child_step raw k s else Blocked)"

fun sp2_run :: "string list \<Rightarrow> sp2_event list \<Rightarrow> sp2 \<Rightarrow> sp2 outcome" where
  "sp2_run raw [] s = Cont s"
| "sp2_run raw (e # es) s = (case sp2_act raw e s of Cont s' \<Rightarrow> sp2_run raw es s' | Blocked \<Rightarrow> Blocked | Exit c \<Rightarrow> Exit c | UB \<Rightarrow> UB)"

section \<open>Invariant of main.c\<close>

definition taken :: "sp \<Rightarrow> string" where
  "taken s = concat (map snd (sp_reads s))"

definition sp_parent_ok :: "sp \<Rightarrow> bool" where
  "sp_parent_ok s \<longleftrightarrow> sp_i s \<le> 3 \<and> length (sp_buf s) = 1024 \<and>
     length (sp_kids s) = sp_i s + (if sp_pc s = P_read then 1 else 0) \<and>
     (sp_pc s = P_read \<longrightarrow> sp_i s < 3) \<and> (sp_pc s = P_end \<longrightarrow> sp_i s = 3) \<and>
     (\<forall>k < sp_i s. kid_pc (sp_kids s ! k) \<noteq> C_write) \<and>
     sp_up s = (if sp_pc s = P_read \<and> kid_pc (sp_kids s ! sp_i s) \<noteq> C_write then messages ! sp_i s @ [NUL] else [])"

definition parent_lines :: "sp_line list \<Rightarrow> sp_line list" where
  "parent_lines ls = filter (\<lambda>l. case l of Parent_receive _ \<Rightarrow> True | Parent_send _ \<Rightarrow> True | _ \<Rightarrow> False) ls"

definition sp_streams_ok :: "sp \<Rightarrow> bool" where
  "sp_streams_ok s \<longleftrightarrow>
     length (taken s @ sp_down s) = 1024 * sp_i s \<and>
     (0 < sp_i s \<longrightarrow> take 9 (taken s @ sp_down s) = ''aaaaa OK'' @ [NUL]) \<and>
     (\<forall>(k, bytes) \<in> set (sp_reads s). length bytes = 3) \<and>
     int (length (sp_reads s)) = cnt (\<lambda>kid. kid_pc kid = C_done) (sp_kids s) \<and>
     parent_lines (sp_out s) = concat (map (\<lambda>k. [Parent_receive (messages ! k), Parent_send (messages ! k @ '' OK'')]) [0..<sp_i s])"

definition sp_inv :: "sp \<Rightarrow> bool" where
  "sp_inv s \<longleftrightarrow> sp_parent_ok s \<and> sp_streams_ok s"

lemma message_facts:
  assumes "k < 3"
  shows "NUL \<notin> set (messages ! k)" "length (messages ! k) \<le> 5" "messages ! k \<noteq> []"
proof -
  have "k = 0 \<or> k = 1 \<or> k = 2" using assms by auto
  then show "NUL \<notin> set (messages ! k)" "length (messages ! k) \<le> 5" "messages ! k \<noteq> []" by (auto simp: messages_def)
qed

lemma upto_nul_plain_append: "NUL \<notin> set m \<Longrightarrow> upto_nul (m @ xs) = m @ upto_nul xs"
  by (induction m) (auto simp: upto_nul_def)

text \<open>The parent's statements on a buffer that has just received a message with its NUL.\<close>

lemma read_message:
  assumes "NUL \<notin> set m" "length m \<le> 5" "length b = 1024"
  shows "c_text (read_into (m @ [NUL]) b) = Some m"
    and "strcat_ok (read_into (m @ [NUL]) b) = Some (m @ '' OK'' @ [NUL] @ drop (length m + 4) (read_into (m @ [NUL]) b))"
    and "length (m @ '' OK'' @ [NUL] @ drop (length m + 4) (read_into (m @ [NUL]) b)) = 1024"
    and "upto_nul (m @ '' OK'' @ [NUL] @ rest) = m @ '' OK''"
proof -
  show t: "c_text (read_into (m @ [NUL]) b) = Some m"
    using upto_nul_at [OF assms(1)] by (simp add: c_text_def read_into_def)
  have len: "length (read_into (m @ [NUL]) b) = 1024" using assms(2,3) by (simp add: read_into_def)
  show "strcat_ok (read_into (m @ [NUL]) b) = Some (m @ '' OK'' @ [NUL] @ drop (length m + 4) (read_into (m @ [NUL]) b))"
    using t len assms(2) by (simp add: strcat_ok_def)
  show "length (m @ '' OK'' @ [NUL] @ drop (length m + 4) (read_into (m @ [NUL]) b)) = 1024"
    using len assms(2) by simp
  show "upto_nul (m @ '' OK'' @ [NUL] @ rest) = m @ '' OK''"
    using upto_nul_at [of "m @ '' OK''" rest] assms(1) by simp
qed

lemma sp_parent_read_step:
  assumes inv: "sp_inv s" and pc: "sp_pc s = P_read" "sp_up s \<noteq> []"
  defines "m \<equiv> messages ! sp_i s"
  defines "buf' \<equiv> m @ '' OK'' @ [NUL] @ drop (length m + 4) (read_into (m @ [NUL]) (sp_buf s))"
  shows "sp_parent_step ok s = Cont (s\<lparr>sp_up := [], sp_buf := buf', sp_down := sp_down s @ buf',
     sp_out := sp_out s @ [Parent_receive m, Parent_send (m @ '' OK'')], sp_i := sp_i s + 1, sp_pc := P_fork\<rparr>)"
    and "length buf' = 1024"
proof -
  have i: "sp_i s < 3" and up: "sp_up s = m @ [NUL]" and b: "length (sp_buf s) = 1024"
    using inv pc by (auto simp: sp_inv_def sp_parent_ok_def m_def split: if_splits)
  note mf = message_facts [OF i, folded m_def]
  have "take 1024 (sp_up s) = m @ [NUL]" "drop 1024 (sp_up s) = []" using up mf(2) by simp_all
  then show "sp_parent_step ok s = Cont (s\<lparr>sp_up := [], sp_buf := buf', sp_down := sp_down s @ buf',
     sp_out := sp_out s @ [Parent_receive m, Parent_send (m @ '' OK'')], sp_i := sp_i s + 1, sp_pc := P_fork\<rparr>)"
    using pc read_message [OF mf(1,2) b] by (simp add: sp_parent_step_def buf'_def Let_def)
  show "length buf' = 1024" unfolding buf'_def by (rule read_message(3) [OF mf(1,2) b])
qed

lemma parent_lines_simps [simp]:
  "parent_lines (ls @ [Child_send k t]) = parent_lines ls" "parent_lines (ls @ [Child_receive k t]) = parent_lines ls"
  "parent_lines (ls @ [Parent_receive t, Parent_send u]) = parent_lines ls @ [Parent_receive t, Parent_send u]"
  by (simp_all add: parent_lines_def)

lemma sp_parent_step_inv:
  assumes inv: "sp_inv s" and run: "sp_parent_step ok s = Cont s'"
  shows "sp_inv s'"
proof (cases "sp_pc s")
  case P_fork
  show ?thesis
    using run inv P_fork
    by (auto simp: sp_parent_step_def sp_inv_def sp_parent_ok_def sp_streams_ok_def taken_def nth_append split: if_splits)
next
  case P_read
  let ?m = "messages ! sp_i s"
  let ?b = "?m @ '' OK'' @ [NUL] @ drop (length ?m + 4) (read_into (?m @ [NUL]) (sp_buf s))"
  have up: "sp_up s \<noteq> []" using run P_read by (auto simp: sp_parent_step_def)
  note r = sp_parent_read_step [OF inv P_read up]
  have s': "s' = s\<lparr>sp_up := [], sp_buf := ?b, sp_down := sp_down s @ ?b,
     sp_out := sp_out s @ [Parent_receive ?m, Parent_send (?m @ '' OK'')], sp_i := sp_i s + 1, sp_pc := P_fork\<rparr>"
    using run r(1) [of ok] by simp
  have p: "sp_parent_ok s" and st: "sp_streams_ok s" using inv by (simp_all add: sp_inv_def)
  have "kid_pc (sp_kids s ! sp_i s) \<noteq> C_write" using p P_read up by (auto simp: sp_parent_ok_def)
  then have "sp_parent_ok s'" using p P_read r(2) by (auto simp: s' sp_parent_ok_def less_Suc_eq)
  moreover have "take 9 (taken s' @ sp_down s') = ''aaaaa OK'' @ [NUL]"
  proof (cases "sp_i s = 0")
    case True
    then have "taken s @ sp_down s = []" using st unfolding sp_streams_ok_def by (metis length_0_conv mult_0_right)
    then have "taken s' = []" "sp_down s' = ?b" by (simp_all add: s' taken_def)
    then show ?thesis using True by (simp add: messages_def)
  next
    case False
    then have "take 9 (taken s @ sp_down s) = ''aaaaa OK'' @ [NUL]" "9 \<le> length (taken s @ sp_down s)"
      using st by (simp_all add: sp_streams_ok_def)
    then have "take 9 ((taken s @ sp_down s) @ ?b) = ''aaaaa OK'' @ [NUL]" by (simp only: take_append) simp
    then show ?thesis by (simp add: s' taken_def)
  qed
  ultimately show ?thesis
    using st r(2) by (simp add: sp_inv_def sp_streams_ok_def s' taken_def)
qed (use run in \<open>simp add: sp_parent_step_def\<close>)

lemma taken_length:
  assumes "sp_streams_ok s"
  shows "length (taken s) = 3 * length (sp_reads s)"
proof -
  have "\<forall>(k, bytes) \<in> set rs. length bytes = 3 \<Longrightarrow> length (concat (map snd rs)) = 3 * length rs" for rs :: "(nat \<times> string) list"
    by (induction rs) auto
  then show ?thesis using assms by (simp add: sp_streams_ok_def taken_def)
qed

text \<open>A child that reads always gets three bytes, from the first nine of the first reply.\<close>

lemma sp_child_reads_three:
  assumes inv: "sp_inv s" and k: "k < length (sp_kids s)" "kid_pc (sp_kids s ! k) = C_read" "sp_down s \<noteq> []"
  shows "length (sp_reads s) < 3" "3 \<le> length (sp_down s)" "0 < sp_i s"
proof -
  have p: "sp_parent_ok s" and st: "sp_streams_ok s" using inv by (simp_all add: sp_inv_def)
  have "cnt (\<lambda>kid. kid_pc kid = C_done \<or> kid_pc kid = C_read) (sp_kids s) =
      cnt (\<lambda>kid. kid_pc kid = C_done) (sp_kids s) + cnt (\<lambda>kid. kid_pc kid = C_read) (sp_kids s)"
    by (rule cnt_disj) simp
  moreover have "cnt (\<lambda>kid. kid_pc kid = C_done \<or> kid_pc kid = C_read) (sp_kids s) \<le> int (length (sp_kids s))"
    by (simp add: cnt_def)
  moreover have "1 \<le> cnt (\<lambda>kid. kid_pc kid = C_read) (sp_kids s)" using cnt_ge_1 [OF k(1)] k(2) by simp
  moreover have "length (sp_kids s) \<le> 3" using p by (auto simp: sp_parent_ok_def split: if_splits)
  ultimately show l: "length (sp_reads s) < 3" using st by (simp add: sp_streams_ok_def)
  have len: "length (taken s) + length (sp_down s) = 1024 * sp_i s" using st by (simp add: sp_streams_ok_def)
  then show i: "0 < sp_i s" using k(3) by (cases "sp_i s") auto
  show "3 \<le> length (sp_down s)" using len i l taken_length [OF st] by linarith
qed

lemma sp_child_step_inv:
  assumes inv: "sp_inv s" and k: "k < length (sp_kids s)" and run: "sp_child_step k s = Cont s'"
  shows "sp_inv s'"
proof -
  have p: "sp_parent_ok s" and st: "sp_streams_ok s" using inv by (simp_all add: sp_inv_def)
  show ?thesis
  proof (cases "kid_pc (sp_kids s ! k)")
    case C_write
    then have "k = sp_i s" "sp_pc s = P_read"
      using p k by (auto simp: sp_parent_ok_def split: if_splits) (metis add.right_neutral less_antisym less_SucE)+
    then show ?thesis
      using run C_write p st k by (auto simp: sp_child_step_def Let_def sp_inv_def sp_parent_ok_def sp_streams_ok_def taken_def cnt_update)
  next
    case C_read
    have ne: "sp_down s \<noteq> []" using run C_read by (auto simp: sp_child_step_def Let_def)
    note c = sp_child_reads_three [OF inv k C_read ne]
    obtain kid out where s': "s' = s\<lparr>sp_down := drop 3 (sp_down s), sp_reads := sp_reads s @ [(k, take 3 (sp_down s))],
        sp_out := sp_out s @ [Child_receive k out], sp_kids := (sp_kids s)[k := kid]\<rparr>" "kid_pc kid = C_done"
      using run C_read ne by (auto simp: sp_child_step_def Let_def split: option.splits)
    have same: "taken s' @ sp_down s' = taken s @ sp_down s" by (simp add: s' taken_def)
    have "sp_streams_ok s'"
      using st c(2) k C_read unfolding sp_streams_ok_def same by (simp add: s' cnt_update)
    moreover have "sp_parent_ok s'" using p s' k C_read by (auto simp: sp_parent_ok_def nth_list_update)
    ultimately show ?thesis by (simp add: sp_inv_def)
  qed (use run in \<open>simp add: sp_child_step_def Let_def\<close>)
qed

lemma sp_reach_inv:
  assumes "sp_reach g s" "length g = 1024"
  shows "sp_inv s"
  using assms
proof (induction rule: sp_reach.induct)
  case boot
  then show ?case by (simp add: sp_inv_def sp_boot_def sp_parent_ok_def sp_streams_ok_def taken_def parent_lines_def)
next
  case (step s e s')
  then show ?case by (cases e) (auto split: if_splits intro: sp_parent_step_inv sp_child_step_inv)
qed

section \<open>Properties\<close>

lemma concat_chunks:
  "(\<forall>x \<in> set xs. length x = 3) \<Longrightarrow> r < length xs \<Longrightarrow> xs ! r = take 3 (drop (3 * r) (concat xs))"
proof (induction xs arbitrary: r)
  case (Cons x xs)
  then show ?case by (cases r) simp_all
qed simp

lemma sp_reads_le: "sp_inv s \<Longrightarrow> length (sp_reads s) \<le> 3"
proof -
  assume "sp_inv s"
  then have "int (length (sp_reads s)) = cnt (\<lambda>kid. kid_pc kid = C_done) (sp_kids s)" "length (sp_kids s) \<le> 3"
    by (auto simp: sp_inv_def sp_streams_ok_def sp_parent_ok_def split: if_splits)
  moreover have "cnt (\<lambda>kid. kid_pc kid = C_done) (sp_kids s) \<le> int (length (sp_kids s))" by (simp add: cnt_def)
  ultimately show ?thesis by linarith
qed

lemma sp_read_bytes:
  assumes inv: "sp_inv s" and r: "r < length (sp_reads s)"
  shows "snd (sp_reads s ! r) = [''aaa'', ''aa '', ''OK'' @ [NUL]] ! r"
proof -
  let ?n = "length (sp_reads s)"
  have st: "sp_streams_ok s" using inv by (simp add: sp_inv_def)
  have len: "length (taken s) = 3 * ?n" by (rule taken_length [OF st])
  have n: "?n \<le> 3" by (rule sp_reads_le [OF inv])
  have "length (taken s) + length (sp_down s) = 1024 * sp_i s" using st by (simp add: sp_streams_ok_def)
  then have "0 < sp_i s" using len r by (cases "sp_i s") auto
  then have "take 9 (taken s @ sp_down s) = ''aaaaa OK'' @ [NUL]" using st by (simp add: sp_streams_ok_def)
  moreover have "take 9 (taken s @ sp_down s) = taken s @ take (9 - 3 * ?n) (sp_down s)" using len n by simp
  ultimately have "taken s = take (3 * ?n) (''aaaaa OK'' @ [NUL])" using len by (metis append_eq_conv_conj)
  moreover have "snd (sp_reads s ! r) = take 3 (drop (3 * r) (taken s))"
    using concat_chunks [of "map snd (sp_reads s)" r] st r by (force simp: taken_def sp_streams_ok_def)
  ultimately have "snd (sp_reads s ! r) = take 3 (drop (3 * r) (take (3 * ?n) (''aaaaa OK'' @ [NUL])))" by simp
  moreover have "r = 0 \<or> r = 1 \<or> r = 2" "?n = 1 \<or> ?n = 2 \<or> ?n = 3" using r n by auto
  ultimately show ?thesis using r by auto
qed

text \<open>
  (C32) What the processes of \<open>main.c\<close> exchange, whatever the interleaving: the parent receives the
  messages of the children in the order of their creation and answers each; but the children,
  who each read three bytes of the shared stream, get the pieces \<open>aaa\<close>, \<open>aa \<close> and \<open>OK\<close> of the
  first answer in the order in which they happen to read, whoever they are; and nobody waits for ever: unless all are done, some process can go on.
\<close>

theorem socketpair_children_share_reply:
  assumes "sp_reach g s" "length g = 1024"
  shows "parent_lines (sp_out s) =
      concat (map (\<lambda>k. [Parent_receive (messages ! k), Parent_send (messages ! k @ '' OK'')]) [0..<sp_i s]) \<and>
    (\<forall>r < length (sp_reads s). snd (sp_reads s ! r) = [''aaa'', ''aa '', ''OK'' @ [NUL]] ! r) \<and>
    (sp_pc s \<noteq> P_end \<or> (\<exists>k < length (sp_kids s). kid_pc (sp_kids s ! k) \<noteq> C_done) \<longrightarrow> (\<exists>e. sp_act e s \<noteq> Blocked))"
proof (intro conjI impI)
  have inv: "sp_inv s" by (rule sp_reach_inv [OF assms])
  then have p: "sp_parent_ok s" and st: "sp_streams_ok s" by (simp_all add: sp_inv_def)
  show "parent_lines (sp_out s) =
      concat (map (\<lambda>k. [Parent_receive (messages ! k), Parent_send (messages ! k @ '' OK'')]) [0..<sp_i s])"
    using st by (simp add: sp_streams_ok_def)
  show "\<forall>r < length (sp_reads s). snd (sp_reads s ! r) = [''aaa'', ''aa '', ''OK'' @ [NUL]] ! r"
    using sp_read_bytes [OF inv] by blast
  assume busy: "sp_pc s \<noteq> P_end \<or> (\<exists>k < length (sp_kids s). kid_pc (sp_kids s ! k) \<noteq> C_done)"
  have child: "sp_act (Child k) s \<noteq> Blocked" if "k < length (sp_kids s)" "kid_pc (sp_kids s ! k) \<noteq> C_done" "sp_down s \<noteq> []" for k
    using that by (cases "kid_pc (sp_kids s ! k)") (auto simp: sp_child_step_def Let_def split: option.splits)
  show "\<exists>e. sp_act e s \<noteq> Blocked"
  proof (cases "sp_pc s")
    case P_fork
    then show ?thesis by (intro exI [of _ "Parent True"]) (simp add: sp_parent_step_def)
  next
    case P_read
    show ?thesis
    proof (cases "sp_up s = []")
      case True
      then have "kid_pc (sp_kids s ! sp_i s) = C_write" "sp_i s < length (sp_kids s)"
        using p P_read by (auto simp: sp_parent_ok_def split: if_splits)
      then show ?thesis by (intro exI [of _ "Child (sp_i s)"]) (simp add: sp_child_step_def Let_def)
    next
      case False
      then show ?thesis using sp_parent_read_step(1) [OF inv P_read False, of True]
        by (intro exI [of _ "Parent True"]) simp
    qed
  next
    case P_end
    then have "sp_i s = 3" using p by (simp add: sp_parent_ok_def)
    moreover have "length (taken s) \<le> 9" using taken_length [OF st] sp_reads_le [OF inv] by simp
    ultimately have "sp_down s \<noteq> []" using st by (auto simp: sp_streams_ok_def)
    then show ?thesis using child busy P_end by blast
  qed
qed

fun sp_run :: "sp_event list \<Rightarrow> sp \<Rightarrow> sp outcome" where
  "sp_run [] s = Cont s"
| "sp_run (e # es) s = (case sp_act e s of Cont s' \<Rightarrow> sp_run es s' | Blocked \<Rightarrow> Blocked | Exit c \<Rightarrow> Exit c | UB \<Rightarrow> UB)"

lemma sp_run_reach: "sp_run es s = Cont s' \<Longrightarrow> sp_reach g s \<Longrightarrow> sp_reach g s'"
  by (induction es s rule: sp_run.induct) (auto split: outcome.splits intro: sp_reach.step)

definition sp_demo :: "sp outcome" where
  "sp_demo = sp_run [Parent True, Child 0, Parent True, Parent True, Child 1, Child 1, Child 0, Parent True] (sp_boot (replicate 1024 NUL))"

theorem socketpair_children_share_reply_witness:
  "\<exists>s. sp_demo = Cont s \<and> map fst (sp_reads s) = [1, 0] \<and> snd (sp_reads s ! 0) = ''aaa'' \<and> sp_i s = 2 \<and>
     parent_lines (sp_out s) = [Parent_receive ''aaaaa'', Parent_send ''aaaaa OK'', Parent_receive ''bbb'', Parent_send ''bbb OK'']"
proof -
  have "(case sp_demo of Cont s \<Rightarrow> map fst (sp_reads s) = [1, 0] \<and> sp_i s = 2 | _ \<Rightarrow> False)" by code_simp
  then obtain s where s: "sp_demo = Cont s" "map fst (sp_reads s) = [1, 0]" "sp_i s = 2" by (auto split: outcome.splits)
  have reach: "sp_reach (replicate 1024 NUL) s" using sp_run_reach [OF _ sp_reach.boot] s(1) unfolding sp_demo_def by blast
  have "length (sp_reads s) = 2" using s(2) by (metis length_map length_Cons list.size(3) Suc_1 One_nat_def)
  moreover have g: "length (replicate 1024 NUL) = 1024" by simp
  from socketpair_children_share_reply [OF reach g]
  have "\<forall>r < length (sp_reads s). snd (sp_reads s ! r) = [''aaa'', ''aa '', ''OK'' @ [NUL]] ! r" by blast
  ultimately have "snd (sp_reads s ! 0) = ''aaa''" by simp
  moreover have "parent_lines (sp_out s) = [Parent_receive ''aaaaa'', Parent_send ''aaaaa OK'', Parent_receive ''bbb'', Parent_send ''bbb OK'']"
    using socketpair_children_share_reply [OF reach g] s(3) by (simp add: messages_def upt_conv_Cons)
  ultimately show ?thesis using s by (intro exI [of _ s] conjI)
qed

text \<open>
  \<open>socketpair.c\<close> can hang: when all three children have written before the parent reads for the first
  time, the parent takes the three messages for one, sends one answer and waits for more;
  the child that reads the answer ends, and the parent and the other two wait for each other.
\<close>

definition sp2_raw :: "string list" where
  "sp2_raw = [''aaa'' @ replicate 5 NUL, ''bbbb'' @ replicate 4 NUL, ''cccccc'' @ replicate 2 NUL]"

definition sp2_stuck :: "sp2 outcome" where
  "sp2_stuck = sp2_run sp2_raw [Child2 0, Child2 1, Child2 2, Parent2, Child2 1] (sp2_boot (replicate 64 NUL))"

lemma socketpair2_can_hang:
  "\<exists>s. sp2_stuck = Cont s \<and> s2p_i s = 1 \<and> map kid_pc (s2p_kids s) = [C_read, C_done, C_read] \<and>
     (\<forall>e. sp2_act sp2_raw e s = Blocked)"
proof -
  have "(case sp2_stuck of Cont s \<Rightarrow> s2p_i s = 1 \<and> map kid_pc (s2p_kids s) = [C_read, C_done, C_read] \<and>
      s2p_up s = [] \<and> s2p_down s = [] | _ \<Rightarrow> False)" by code_simp
  then obtain s where s: "sp2_stuck = Cont s" "s2p_i s = 1" "map kid_pc (s2p_kids s) = [C_read, C_done, C_read]"
    "s2p_up s = []" "s2p_down s = []" by (auto split: outcome.splits)
  have len: "length (s2p_kids s) = 3" using arg_cong [OF s(3), of length] by simp
  have kids: "kid_pc (s2p_kids s ! k) = C_read \<or> kid_pc (s2p_kids s ! k) = C_done" if "k < 3" for k
  proof -
    have "kid_pc (s2p_kids s ! k) = [C_read, C_done, C_read] ! k" using s(3) that len by (metis nth_map)
    moreover have "k = 0 \<or> k = 1 \<or> k = 2" using that by auto
    ultimately show ?thesis by auto
  qed
  have "sp2_act sp2_raw e s = Blocked" for e
  proof (cases e)
    case Parent2
    then show ?thesis using s(4) by (simp add: sp2_parent_step_def)
  next
    case (Child2 k)
    then show ?thesis using kids [of k] len s(2,5) by (auto simp: sp2_child_step_def Let_def)
  qed
  then show ?thesis using s by (intro exI [of _ s] conjI allI)
qed

text \<open>When the parent reads after each write, everybody ends and the child prints its own answer.\<close>

lemma socketpair2_in_turn:
  "(case sp2_run sp2_raw [Child2 0, Parent2, Child2 0, Child2 1, Parent2, Child2 1, Child2 2, Parent2, Child2 2] (sp2_boot (replicate 64 NUL)) of
      Cont s \<Rightarrow> s2p_i s = 3 \<and> map kid_pc (s2p_kids s) = [C_done, C_done, C_done] \<and>
        filter (\<lambda>l. case l of Child_receive _ _ \<Rightarrow> True | _ \<Rightarrow> False) (s2p_out s) =
          [Child_receive 0 ''aaa OK'', Child_receive 1 ''bbbb OK'', Child_receive 2 ''cccccc OK'']
    | _ \<Rightarrow> False)"
  by code_simp

end
