(* ===== verification/Mux_Client.thy ===== *)
theory Mux_Client
  imports Mux_Server Letter_Client
begin

text \<open>
  The main loop of the client of the multiplexing server (\<open>lab_sockets/lab_03/multiplex/client.c\<close>), run alone
  against that server.  \<open>None\<close> is a run whose last call of \<open>produce\<close> or \<open>consume\<close> retries for ever, waiting for another client to
  change the buffer; every other way to end is a value of \<open>tried\<close>.
\<close>

section \<open>The main loop\<close>

datatype mc_line = Iter nat | Producer_sent c_char | Consumer_got c_char

text \<open>\<open>mc_conns\<close> counts the connections made so far.\<close>

record mc =
  mc_letter :: c_char
  mc_out :: "mc_line list"
  mc_srv :: mux
  mc_conns :: nat

definition mc_produce :: "(nat \<Rightarrow> bool) \<Rightarrow> int \<Rightarrow> c_char list \<Rightarrow> mc \<Rightarrow> mc tried option" where
  "mc_produce conn ns buf c = map_option
     (map_tried (\<lambda>(s', l, n). c\<lparr>mc_letter := l, mc_out := mc_out c @ [Producer_sent (mc_letter c)], mc_srv := s', mc_conns := n\<rparr>))
     (mux_produce conn (mc_conns c) ns buf (mc_letter c) (mc_srv c))"

definition mc_consume :: "(nat \<Rightarrow> bool) \<Rightarrow> int \<Rightarrow> c_char list \<Rightarrow> mc \<Rightarrow> mc tried option" where
  "mc_consume conn ns buf c = map_option
     (map_tried (\<lambda>(s', l, n). c\<lparr>mc_out := mc_out c @ [Consumer_got l], mc_srv := s', mc_conns := n\<rparr>))
     (mux_consume conn (mc_conns c) ns buf (mc_srv c))"

definition mc_iter :: "bool \<Rightarrow> (nat \<Rightarrow> bool) \<Rightarrow> int \<Rightarrow> c_char list \<Rightarrow> nat \<Rightarrow> mc \<Rightarrow> mc tried option" where
  "mc_iter producer_mode conn ns buf iter c = (let c = c\<lparr>mc_out := mc_out c @ [Iter iter]\<rparr> in
     if producer_mode
     then (if iter mod 3 = 2 then mc_consume conn ns buf c else mc_produce conn ns buf c)
     else (if iter mod 3 = 2 then mc_produce conn ns buf c else mc_consume conn ns buf c))"

fun mc_loop :: "bool \<Rightarrow> (nat \<Rightarrow> bool) \<Rightarrow> int \<Rightarrow> c_char list \<Rightarrow> nat list \<Rightarrow> mc \<Rightarrow> mc tried option" where
  "mc_loop pm conn ns buf [] c = Some (Returned c)"
| "mc_loop pm conn ns buf (i # is) c = (case mc_iter pm conn ns buf i c of
     Some (Returned c') \<Rightarrow> mc_loop pm conn ns buf is c' | other \<Rightarrow> other)"

text \<open>\<open>main\<close>: the first character of the second argument chooses the mode; the loop runs 300 times.\<close>

definition mc_main :: "int \<Rightarrow> char \<Rightarrow> int \<Rightarrow> (nat \<Rightarrow> bool) \<Rightarrow> int \<Rightarrow> c_char list \<Rightarrow> mux \<Rightarrow> mc tried option" where
  "mc_main argc mode pton conn ns buf s =
     (if argc \<noteq> 3 then Some (Client_exits 1)
      else if pton = -1 then Some (Client_exits 1)
      else mc_loop (mode = CHR ''p'') conn ns buf [0..<300] \<lparr>mc_letter = ch CHR ''a'', mc_out = [], mc_srv = s, mc_conns = 0\<rparr>)"

section \<open>What one iteration does\<close>

lemma mux_next_letter_at: "next_letter (letter_at k) = letter_at (Suc k)"
  using client_next_letter_at [of k] by (simp add: next_letter_def client_next_letter_def)

lemma mc_loop_append:
  "mc_loop pm conn ns buf (is @ js) c = (case mc_loop pm conn ns buf is c of
     Some (Returned c') \<Rightarrow> mc_loop pm conn ns buf js c' | other \<Rightarrow> other)"
  by (induction pm conn ns buf "is" c rule: mc_loop.induct) (auto split: option.splits tried.splits)

text \<open>After \<open>n\<close> iterations in producer mode a third of them have consumed.\<close>

definition mc_consumed :: "nat \<Rightarrow> nat" where "mc_consumed n = n div 3"
definition mc_produced :: "nat \<Rightarrow> nat" where "mc_produced n = n - n div 3"

definition mc_lines :: "nat \<Rightarrow> mc_line list" where
  "mc_lines i = [Iter i, if i mod 3 = 2 then Consumer_got (letter_at (i div 3)) else Producer_sent (letter_at (i - i div 3))]"

definition mc_at :: "nat \<Rightarrow> mc \<Rightarrow> bool" where
  "mc_at n c \<longleftrightarrow> mux_inv (mc_srv c) \<and> m_contents (mc_srv c) = map letter_at [mc_consumed n..<mc_produced n] \<and>
     mc_letter c = letter_at (mc_produced n) \<and> mc_out c = concat (map mc_lines [0..<n])"

lemma mc_counts:
  "n mod 3 = 2 \<Longrightarrow> mc_consumed (Suc n) = Suc (mc_consumed n) \<and> mc_produced (Suc n) = mc_produced n"
  "n mod 3 \<noteq> 2 \<Longrightarrow> mc_consumed (Suc n) = mc_consumed n \<and> mc_produced (Suc n) = Suc (mc_produced n)"
  by (auto simp: mc_consumed_def mc_produced_def div_Suc mod_Suc Suc_diff_le split: if_splits)

lemma mc_stored: "mc_produced n - mc_consumed n = n div 3 + n mod 3" "mc_consumed n \<le> mc_produced n"
proof -
  have "n = 3 * (n div 3) + n mod 3" by simp
  then show "mc_produced n - mc_consumed n = n div 3 + n mod 3" "mc_consumed n \<le> mc_produced n"
    unfolding mc_consumed_def mc_produced_def by linarith+
qed

lemma mc_iter_producer:
  assumes buf: "length buf = BUF_SIZE" and conn: "\<forall>n. conn n" and at: "mc_at n c" and room: "n mod 3 \<noteq> 2 \<longrightarrow> mc_produced n - mc_consumed n < 26"
  obtains c' where "mc_iter True conn ns buf n c = Some (Returned c')" "mc_at (Suc n) c'"
proof (cases "n mod 3 = 2")
  case True
  let ?s = "mc_srv c"
  have ne: "mc_consumed n < mc_produced n" using True mc_stored [of n] by linarith
  then have con: "m_contents ?s = letter_at (mc_consumed n) # map letter_at [Suc (mc_consumed n)..<mc_produced n]"
    using at by (simp add: mc_at_def upt_conv_Cons)
  have "mux_inv ?s" using at by (simp add: mc_at_def)
  from mux_consume_returns [OF this buf conn, of "mc_conns c" ns] con obtain s' where s':
    "mux_consume conn (mc_conns c) ns buf ?s = Some (Returned (s', letter_at (mc_consumed n), Suc (mc_conns c)))" "mux_inv s'" "m_contents s' = map letter_at [Suc (mc_consumed n)..<mc_produced n]"
    by auto
  let ?c = "c\<lparr>mc_out := mc_out c @ [Iter n, Consumer_got (letter_at (mc_consumed n))], mc_srv := s', mc_conns := Suc (mc_conns c)\<rparr>"
  have "mc_iter True conn ns buf n c = Some (Returned ?c)" using True s'(1) by (simp add: mc_iter_def mc_consume_def Let_def)
  moreover have "mc_at (Suc n) ?c"
    using at s' True mc_counts(1) [OF True] by (simp add: mc_at_def mc_lines_def mc_consumed_def)
  ultimately show thesis by (rule that)
next
  case False
  let ?s = "mc_srv c"
  have inv: "mux_inv ?s" and con: "m_contents ?s = map letter_at [mc_consumed n..<mc_produced n]"
    and l: "mc_letter c = letter_at (mc_produced n)" using at by (simp_all add: mc_at_def)
  have "length (m_contents ?s) < MUX_ARR_SIZE" using con room False by (simp add: MUX_ARR_SIZE_def del: m_contents_length)
  with mux_produce_returns [OF inv buf conn, of "mc_conns c" ns "mc_letter c"] obtain s' where s':
    "mux_produce conn (mc_conns c) ns buf (mc_letter c) ?s = Some (Returned (s', next_letter (mc_letter c), Suc (mc_conns c)))" "mux_inv s'" "m_contents s' = m_contents ?s @ [mc_letter c]"
    by blast
  let ?c = "c\<lparr>mc_letter := letter_at (Suc (mc_produced n)), mc_out := mc_out c @ [Iter n, Producer_sent (letter_at (mc_produced n))], mc_srv := s', mc_conns := Suc (mc_conns c)\<rparr>"
  have "mc_iter True conn ns buf n c = Some (Returned ?c)"
    using False s'(1) l by (simp add: mc_iter_def mc_produce_def Let_def mux_next_letter_at)
  moreover note le = mc_stored(2) [of n]
  have "mc_at (Suc n) ?c"
    using at s' l con le False mc_counts(2) [OF False] by (simp add: mc_at_def mc_lines_def mc_produced_def)
  ultimately show thesis using that by blast
qed

lemma mc_start: "length buf0 = BUF_SIZE \<Longrightarrow> mc_at 0 \<lparr>mc_letter = ch CHR ''a'', mc_out = [], mc_srv = mux_boot buf0, mc_conns = 0\<rparr>"
  by (simp add: mc_at_def mux_boot_inv mc_consumed_def mc_produced_def letter_at_def)

lemma mc_loop_producer:
  assumes "length buf = BUF_SIZE" "\<forall>n. conn n" "mc_at 0 c" "n \<le> 76"
  shows "\<exists>c'. mc_loop True conn ns buf [0..<n] c = Some (Returned c') \<and> mc_at n c'"
  using assms(4)
proof (induction n)
  case 0
  then show ?case using assms(3) by simp
next
  case (Suc n)
  then obtain c1 where c1: "mc_loop True conn ns buf [0..<n] c = Some (Returned c1)" "mc_at n c1" by auto
  have "n mod 3 \<noteq> 2 \<longrightarrow> mc_produced n - mc_consumed n < 26"
    using Suc.prems mc_stored(1) [of n] mod_less_divisor [of 3 n] div_mult_mod_eq [of n 3] by linarith
  from mc_iter_producer [OF assms(1,2) c1(2) this, of ns] obtain c2 where "mc_iter True conn ns buf n c1 = Some (Returned c2)" "mc_at (Suc n) c2" .
  then show ?case using c1(1) by (simp add: mc_loop_append)
qed

section \<open>Properties\<close>

text \<open>
  (C36) A client that is alone with a fresh server and whose connections are all made never finishes, in either mode.  With mode
  \<open>p\<close> it completes 76 of its 300 iterations, in which the letters it gets back are those it
  sent, in order; then the buffer holds 26 letters and the next \<open>produce\<close> retries for
  ever.  With any other mode already the first \<open>consume\<close>, from an empty buffer, retries for ever.  If the
  first connection fails, it exits with status 1 instead.
\<close>

theorem mux_client_alone_hangs:
  assumes "length buf = BUF_SIZE" "length buf0 = BUF_SIZE" "mode \<noteq> CHR ''p''" "\<forall>n. conn n"
  shows "(\<exists>c. mc_loop True conn ns buf [0..<76] \<lparr>mc_letter = ch CHR ''a'', mc_out = [], mc_srv = mux_boot buf0, mc_conns = 0\<rparr> = Some (Returned c) \<and>
      mc_out c = concat (map mc_lines [0..<76]) \<and> m_contents (mc_srv c) = map letter_at [25..<51] \<and>
      mux_produce conn (mc_conns c) ns buf (mc_letter c) (mc_srv c) = None) \<and>
    mux_consume conn 0 ns buf (mux_boot buf0) = None \<and>
    mc_main 3 CHR ''p'' 1 conn ns buf (mux_boot buf0) = None \<and> mc_main 3 mode 1 conn ns buf (mux_boot buf0) = None \<and>
    (\<not> fails 0 \<longrightarrow> mc_main 3 m 1 fails ns buf (mux_boot buf0) = Some (Client_exits 1))"
proof -
  let ?c = "\<lparr>mc_letter = ch CHR ''a'', mc_out = [], mc_srv = mux_boot buf0, mc_conns = 0\<rparr>"
  from mc_loop_producer [OF assms(1,4) mc_start [OF assms(2)], of 76 ns] obtain c where
    c: "mc_loop True conn ns buf [0..<76] ?c = Some (Returned c)" "mc_at 76 c" by blast
  then have at: "mc_out c = concat (map mc_lines [0..<76])" "m_contents (mc_srv c) = map letter_at [25..<51]" "mux_inv (mc_srv c)"
    unfolding mc_at_def mc_consumed_def mc_produced_def by simp_all
  have "length (m_contents (mc_srv c)) = MUX_ARR_SIZE" unfolding at(2) by (simp add: MUX_ARR_SIZE_def del: upt_rec_numeral)
  with mux_produce_returns [OF at(3) assms(1,4)] have full: "mux_produce conn (mc_conns c) ns buf (mc_letter c) (mc_srv c) = None" by blast
  then have stuck: "mc_iter True conn ns buf 76 c = None" by (simp add: mc_iter_def mc_produce_def Let_def)
  have split: "[0..<300] = [0..<76] @ 76 # [77..<300]"
    using upt_add_eq_append [of 0 76 224] upt_conv_Cons [of 76 300] by simp
  have p: "mc_loop True conn ns buf [0..<300] ?c = None" unfolding split mc_loop_append c(1) by (simp add: stuck)
  have empty: "mux_consume conn 0 ns buf (mux_boot buf0) = None"
    using mux_consume_returns [OF mux_boot_inv [OF assms(2)] assms(1,4)] by simp
  have first: "[0..<300] = 0 # [1..<300]" using upt_conv_Cons [of 0 300] by simp
  have q: "mc_loop False conn ns buf [0..<300] ?c = None"
    unfolding first by (simp add: mc_iter_def mc_consume_def empty Let_def del: upt_rec_numeral)
  have "mc_loop b fails ns buf [0..<300] ?c = Some (Client_exits 1)" if "\<not> fails 0" for b
    unfolding first using mux_client_exits [of fails 0, OF that] by (simp add: mc_iter_def mc_consume_def mc_produce_def Let_def del: upt_rec_numeral)
  then show ?thesis using c(1) at p q full empty assms(3) by (simp del: upt_rec_numeral add: mc_main_def)
qed

theorem mux_client_alone_hangs_witness:
  "mc_main 3 CHR ''c'' 1 (\<lambda>n. True) 5 (replicate 64 7) (mux_boot (replicate 64 0)) = None"
  using mux_client_alone_hangs [of "replicate 64 7" "replicate 64 0" "CHR ''c''" "\<lambda>n. True" 5] by (simp add: BUF_SIZE_def)

end
