(* ===== verification/Letters_Client.thy ===== *)
theory Letters_Client
  imports Letters_Server
begin

text \<open>
  The client of the reservation server (\<open>lab_sockets/lab_03/mt/client.c\<close>) and its session with that server
  when it is the only client: every request is a connection of its own, in which the client
  reads the table, chooses the first free letter and asks for it.
\<close>

section \<open>The client\<close>

datatype lr_line = Connected | Recieved_letters "c_char list" | No_letters_left | Sending_index nat | Response_OK | Response_reserved

text \<open>
  \<open>request\<close>: \<open>ex\<close> stands for one \<open>send\<close> and the \<open>recv\<close> that follows, giving the bytes received; an error of
  either is \<open>Exit\<close>.  \<open>buf\<close> is the uninitialised buffer; the lines printed before an exit are kept.
\<close>

type_synonym 's lr_exchange = "c_char list \<Rightarrow> 's \<Rightarrow> (c_char list \<times> 's) outcome"

fun lr_fail :: "lr_line list \<Rightarrow> 'a outcome \<Rightarrow> lr_line list \<times> 's outcome" where
  "lr_fail out (Exit c) = (out, Exit c)"
| "lr_fail out UB = (out, UB)"
| "lr_fail out _ = (out, Blocked)"

definition lr_request :: "'s lr_exchange \<Rightarrow> c_char list \<Rightarrow> lr_line list \<Rightarrow> 's \<Rightarrow> lr_line list \<times> 's outcome" where
  "lr_request ex buf out s =
     (let buf1 = buf[0 := ch CHR ''r''] in
      case ex buf1 s of
        Cont (bytes, s1) \<Rightarrow>
          (let buf2 = recv_into bytes buf1; out1 = out @ [Recieved_letters (take LS_ARR_SIZE buf2)] in
           case ls_pick buf2 of
             None \<Rightarrow> (out1 @ [No_letters_left], Exit EXIT_FAILURE)
           | Some index \<Rightarrow>
               (let buf3 = ls_write_request index buf2; out2 = out1 @ [Sending_index index] in
                case ex buf3 s1 of
                  Cont (bytes', s2) \<Rightarrow>
                    (let b = sint (recv_into bytes' buf3 ! 0) in
                     if b = 0 then (out2 @ [Response_OK], Cont s2)
                     else if b = 1 then (out2 @ [Response_reserved], Cont s2)
                     else (out2, Exit EXIT_FAILURE))
                | r \<Rightarrow> lr_fail out2 r))
      | r \<Rightarrow> lr_fail out r)"

text \<open>
  The loop of \<open>main\<close> ends only when \<open>request\<close> or a system call exits: \<open>n\<close> rounds of it.  \<open>sock\<close> and \<open>pton\<close> are
  the results of \<open>socket\<close> and \<open>inet_pton\<close>; \<open>conn\<close> connects, giving the exchange of the connection and what
  closing it does.
\<close>

type_synonym 's lr_connect = "'s \<Rightarrow> ('s \<times> 's lr_exchange \<times> ('s \<Rightarrow> 's)) outcome"

fun lr_rounds :: "int \<Rightarrow> int \<Rightarrow> 's lr_connect \<Rightarrow> c_char list \<Rightarrow> nat \<Rightarrow> lr_line list \<Rightarrow> 's \<Rightarrow> lr_line list \<times> 's outcome" where
  "lr_rounds sock pton conn buf 0 out s = (out, Cont s)"
| "lr_rounds sock pton conn buf (Suc n) out s =
     (if sock = -1 \<or> pton = -1 then (out, Exit EXIT_FAILURE)
      else case conn s of
        Cont (s0, ex, cls) \<Rightarrow>
          (case lr_request ex buf (out @ [Connected]) s0 of
             (out', Cont s1) \<Rightarrow> lr_rounds sock pton conn buf n out' (cls s1)
           | (out', r) \<Rightarrow> (out', r))
      | r \<Rightarrow> lr_fail out r)"

definition lr_main :: "int \<Rightarrow> int \<Rightarrow> int \<Rightarrow> 's lr_connect \<Rightarrow> c_char list \<Rightarrow> nat \<Rightarrow> 's \<Rightarrow> lr_line list \<times> 's outcome" where
  "lr_main argc sock pton conn buf n s =
     (if argc \<noteq> 2 then ([], Exit EXIT_FAILURE) else lr_rounds sock pton conn buf n [] s)"

section \<open>The server's side of a connection\<close>

text \<open>What a reply puts on the wire: the whole buffer, or the four bytes of the status.\<close>

fun reply_bytes :: "ls_reply \<Rightarrow> c_char list" where
  "reply_bytes (Letters bs) = bs"
| "reply_bytes (Status st) = [case st of LsOK \<Rightarrow> 0 | ALREADLY_RESERVED \<Rightarrow> 1 | ERROR \<Rightarrow> 2, 0, 0, 0]"

text \<open>
  The thread of the connection runs alone until it is back in \<open>recv\<close>.  60 statements are enough for one
  request: 24 for reading, at most 27 for writing.
\<close>

definition ls_go :: ls_input where "ls_go = \<lparr>in_bytes = None, in_send_ok = True\<rparr>"

fun ls_until_recv :: "nat \<Rightarrow> nat \<Rightarrow> ls \<Rightarrow> ls outcome" where
  "ls_until_recv 0 i s = Blocked"
| "ls_until_recv (Suc n) i s = (if l_pc (ls_threads s ! i) = L_recv then Cont s
     else (case ls_process_client ls_go i s of Cont s' \<Rightarrow> ls_until_recv n i s' | r \<Rightarrow> r))"

text \<open>The request arrives, the server runs, the client receives what was sent last.\<close>

definition ls_exchange :: "nat \<Rightarrow> ls lr_exchange" where
  "ls_exchange i bytes s =
     (case ls_process_client \<lparr>in_bytes = Some bytes, in_send_ok = True\<rparr> i s of
        Cont s1 \<Rightarrow>
          (case ls_until_recv 60 i s1 of
             Cont s2 \<Rightarrow> (if ls_sent s2 = ls_sent s then Blocked else Cont (reply_bytes (snd (last (ls_sent s2))), s2))
           | Blocked \<Rightarrow> Blocked | Exit c \<Rightarrow> Exit c | UB \<Rightarrow> UB)
      | Blocked \<Rightarrow> Blocked | Exit c \<Rightarrow> Exit c | UB \<Rightarrow> UB)"

text \<open>A connection: \<open>accept\<close> and the new thread's first statement; its last one after the client has closed.\<close>

definition ls_close :: "nat \<Rightarrow> ls \<Rightarrow> ls" where
  "ls_close i s = (case ls_process_client ls_go i s of Cont s' \<Rightarrow> s' | _ \<Rightarrow> s)"

definition ls_connect :: "int \<Rightarrow> ls_thread \<Rightarrow> ls lr_connect" where
  "ls_connect fd t s =
     (let i = length (ls_threads s) in
      case ls_process_client ls_go i (ls_accept fd t s) of
        Cont s' \<Rightarrow> Cont (s', ls_exchange i, ls_close i)
      | Blocked \<Rightarrow> Blocked | Exit c \<Rightarrow> Exit c | UB \<Rightarrow> UB)"

section \<open>One request on a quiet server\<close>

definition ls_free :: semset where "ls_free = [0, 0, 0, 1, 0]"

definition ls_quiet :: "nat \<Rightarrow> ls \<Rightarrow> bool" where
  "ls_quiet i s \<longleftrightarrow> i < length (ls_threads s) \<and> l_pc (ls_threads s ! i) = L_recv \<and>
     length (l_buf (ls_threads s ! i)) = LS_BUF_SIZE \<and> ls_sems s = ls_free \<and> length (ls_arr s) = LS_ARR_SIZE"

lemma ls_sem_steps:
  "semop ls_start_rd ls_free = Done [0, 0, 1, 1, 0]" "semop ls_stop_rd [0, 0, 1, 1, 0] = Done ls_free"
  "semop ls_start_wr ls_free = Done [0, 0, 0, 0, 1]" "semop ls_stop_wr [0, 0, 0, 0, 1] = Done ls_free"
  by (simp_all add: ls_ops ls_free_def semop_eval numeral_nat)

lemma ls_sel_rest [simp]:
  "ls_kills (ls_set i t s) = ls_kills s" "ls_kills (ls_print l s) = ls_kills s"
  by (simp_all add: ls_set_def ls_print_def)

lemma ls_until_step:
  assumes "ls_process_client ls_go i s = Cont s'" "l_pc (ls_threads s ! i) \<noteq> L_recv"
  shows "ls_until_recv (Suc n) i s = ls_until_recv n i s'"
  using assms by simp

lemmas ls_run = ls_process_client_def ls_go_def Let_def ls_semop_def ls_send_def ls_sem_steps

text \<open>What a finished request leaves: the thread in \<open>recv\<close>, the lock free, one reply more.\<close>

definition ls_answered :: "nat \<Rightarrow> ls \<Rightarrow> ls_reply \<Rightarrow> nat \<Rightarrow> ls \<Rightarrow> bool" where
  "ls_answered i s r k s' \<longleftrightarrow> ls_quiet i s' \<and> ls_arr s' = ls_arr s \<and> length (ls_threads s') = length (ls_threads s) \<and>
     (\<exists>fd. ls_sent s' = ls_sent s @ [(fd, r)]) \<and> ls_kills s' = ls_kills s + k"

text \<open>The copy loop and the rest of a read request.\<close>

lemma ls_copy_loop:
  assumes "i < length (ls_threads s)" "l_pc (ls_threads s ! i) = L_copy n" "n + m = LS_ARR_SIZE"
    "length (l_buf (ls_threads s ! i)) = LS_BUF_SIZE" "length (ls_arr s) = LS_ARR_SIZE"
    "take n (l_buf (ls_threads s ! i)) = take n (ls_arr s)" "ls_sems s = [0, 0, 1, 1, 0]"
  shows "\<exists>s'. ls_until_recv (m + (4 + k)) i s = Cont s' \<and>
    ls_answered i s (Letters (ls_arr s @ drop LS_ARR_SIZE (l_buf (ls_threads s ! i)))) 0 s'"
  using assms
proof (induction m arbitrary: n s)
  case 0
  then have "ls_arr s @ drop LS_ARR_SIZE (l_buf (ls_threads s ! i)) = l_buf (ls_threads s ! i)"
    by (metis add.right_neutral append_take_drop_id order_refl take_all)
  then show ?case using 0 by (simp add: numeral_eq_Suc ls_run ls_answered_def ls_quiet_def)
next
  case (Suc m)
  let ?t = "ls_threads s ! i"
  let ?t' = "?t\<lparr>l_buf := (l_buf ?t)[n := ls_arr s ! n], l_pc := L_copy (Suc n)\<rparr>"
  have n: "n < LS_ARR_SIZE" using Suc.prems by simp
  then have step: "ls_process_client ls_go i s = Cont (ls_set i ?t' s)"
    using Suc.prems by (simp add: ls_run)
  have "take (Suc n) (l_buf ?t') = take (Suc n) (ls_arr s)"
    using Suc.prems n by (simp add: ls_copy_ok)
  moreover have "drop LS_ARR_SIZE (l_buf ?t') = drop LS_ARR_SIZE (l_buf ?t)" using n by (simp add: drop_update_cancel)
  moreover have "ls_until_recv (Suc (m + (4 + k))) i s = ls_until_recv (m + (4 + k)) i (ls_set i ?t' s)"
    using Suc.prems by (intro ls_until_step [OF step]) simp
  ultimately show ?case
    using Suc.IH [of "ls_set i ?t' s" "Suc n"] Suc.prems by (simp add: ls_answered_def)
qed

text \<open>The loop that looks for a letter left and the rest of a write request.\<close>

lemma ls_full_loop:
  assumes "i < length (ls_threads s)" "l_pc (ls_threads s ! i) = L_full n" "n + m = LS_ARR_SIZE"
    "length (l_buf (ls_threads s ! i)) = LS_BUF_SIZE" "length (ls_arr s) = LS_ARR_SIZE"
    "\<forall>k < n. ls_arr s ! k = ls_blank" "ls_sems s = [0, 0, 0, 0, 1]"
  shows "\<exists>s'. ls_until_recv (m + (5 + k)) i s = Cont s' \<and> ls_answered i s (Status (l_status (ls_threads s ! i)))
      (if \<forall>k < LS_ARR_SIZE. ls_arr s ! k = ls_blank then 1 else 0) s'"
  using assms
proof (induction m arbitrary: n s)
  case 0
  then show ?case by (simp add: numeral_eq_Suc ls_run ls_answered_def ls_quiet_def)
next
  case (Suc m)
  let ?t = "ls_threads s ! i"
  have n: "n < LS_ARR_SIZE" using Suc.prems by simp
  show ?case
  proof (cases "ls_arr s ! n = ls_blank")
    case True
    let ?s = "ls_set i (?t\<lparr>l_pc := L_full (Suc n)\<rparr>) s"
    have "ls_process_client ls_go i s = Cont ?s" using Suc.prems n True by (simp add: ls_run)
    then have "ls_until_recv (Suc (m + (5 + k))) i s = ls_until_recv (m + (5 + k)) i ?s"
      using Suc.prems by (intro ls_until_step) simp_all
    then show ?thesis
      using Suc.IH [of ?s "Suc n"] Suc.prems True by (simp add: ls_answered_def less_Suc_eq all_conj_distrib)
  next
    case False
    then have "\<not> (\<forall>k < LS_ARR_SIZE. ls_arr s ! k = ls_blank)" using n by auto
    moreover have "\<exists>s'. ls_until_recv (Suc (Suc (Suc (Suc (m + 2 + k))))) i s = Cont s' \<and>
        ls_answered i s (Status (l_status ?t)) 0 s'"
      using Suc.prems n False by (simp add: ls_run ls_answered_def ls_quiet_def)
    moreover have "Suc m + (5 + k) = Suc (Suc (Suc (Suc (m + 2 + k))))" by simp
    ultimately show ?thesis by (simp only: if_False)
  qed
qed

text \<open>A read request gives the table in front of what the client sent.\<close>

lemma ls_exchange_read:
  assumes "ls_quiet i s" "length bytes = LS_BUF_SIZE" "bytes ! 0 = ch CHR ''r''"
  shows "\<exists>s'. ls_exchange i bytes s = Cont (ls_arr s @ drop LS_ARR_SIZE bytes, s') \<and>
    ls_answered i s (Letters (ls_arr s @ drop LS_ARR_SIZE bytes)) 0 s'"
proof -
  let ?t = "(ls_threads s ! i)\<lparr>l_buf := bytes, l_pc := L_start_rd\<rparr>"
  let ?u = "ls_set i (?t\<lparr>l_pc := L_copy 0\<rparr>) ((ls_set i ?t s)\<lparr>ls_sems := [0, 0, 1, 1, 0]\<rparr>)"
  have recv: "ls_process_client \<lparr>in_bytes = Some bytes, in_send_ok = True\<rparr> i s = Cont (ls_set i ?t s)"
    using assms by (simp add: ls_process_client_def Let_def ls_quiet_def ls_switch_def recv_into_def)
  have "ls_process_client ls_go i (ls_set i ?t s) = Cont ?u"
    using assms by (simp add: ls_run ls_quiet_def)
  then have "ls_until_recv 60 i (ls_set i ?t s) = ls_until_recv (LS_ARR_SIZE + (4 + 35)) i ?u"
    using assms ls_until_step [of i "ls_set i ?t s" ?u 59] by (simp add: ls_quiet_def LS_ARR_SIZE_def)
  moreover obtain s' where "ls_until_recv (LS_ARR_SIZE + (4 + 35)) i ?u = Cont s'"
    "ls_answered i ?u (Letters (ls_arr s @ drop LS_ARR_SIZE bytes)) 0 s'"
    using assms ls_copy_loop [of i ?u 0 LS_ARR_SIZE 35] by (auto simp: ls_quiet_def)
  ultimately show ?thesis using recv by (auto simp: ls_exchange_def ls_answered_def)
qed

text \<open>A write request for a letter that is left blanks it, answers \<open>OK\<close> and signals when it was the last.\<close>

lemma ls_exchange_write:
  assumes "ls_quiet i s" "length bytes = LS_BUF_SIZE" "bytes ! 0 = ch CHR ''w''"
    "unat (ls_index_of bytes) = k" "k < LS_ARR_SIZE" "ls_arr s ! k \<noteq> ls_blank"
  defines "arr \<equiv> (ls_arr s)[k := ls_blank]"
  shows "\<exists>s'. ls_exchange i bytes s = Cont ([0, 0, 0, 0], s') \<and>
    ls_answered i (s\<lparr>ls_arr := arr\<rparr>) (Status LsOK) (if \<forall>k < LS_ARR_SIZE. arr ! k = ls_blank then 1 else 0) s'"
proof -
  let ?t = "(ls_threads s ! i)\<lparr>l_buf := bytes, l_index := ls_index_of bytes, l_pc := L_start_wr\<rparr>"
  let ?u = "ls_print (Reserved k) (ls_set i (?t\<lparr>l_status := LsOK, l_pc := L_full 0\<rparr>)
    (s\<lparr>ls_sems := [0, 0, 0, 0, 1], ls_arr := arr\<rparr>))"
  have w: "ch CHR ''w'' \<noteq> ch CHR ''r''" by code_simp
  have recv: "ls_process_client \<lparr>in_bytes = Some bytes, in_send_ok = True\<rparr> i s = Cont (ls_set i ?t s)"
    using assms w by (simp add: ls_process_client_def Let_def ls_quiet_def ls_switch_def recv_into_def)
  have three: "ls_until_recv (Suc (Suc (Suc n))) i (ls_set i ?t s) = ls_until_recv n i ?u" for n
    using assms by (simp add: ls_run ls_quiet_def ls_set_def ls_print_def)
  have "ls_until_recv 60 i (ls_set i ?t s) = ls_until_recv (LS_ARR_SIZE + (5 + 32)) i ?u"
    using three [of 57] by (simp add: LS_ARR_SIZE_def)
  moreover obtain s' where "ls_until_recv (LS_ARR_SIZE + (5 + 32)) i ?u = Cont s'"
    "ls_answered i ?u (Status LsOK) (if \<forall>k < LS_ARR_SIZE. arr ! k = ls_blank then 1 else 0) s'"
    using assms(1-6) ls_full_loop [of i ?u 0 LS_ARR_SIZE 32] by (auto simp: ls_quiet_def arr_def)
  ultimately show ?thesis using recv by (auto simp: ls_exchange_def ls_answered_def)
qed

section \<open>A client alone\<close>

lemma ls_connect_quiet:
  assumes "ls_sems s = ls_free" "length (ls_arr s) = LS_ARR_SIZE" "length (l_buf t) = LS_BUF_SIZE"
  shows "\<exists>s'. ls_connect fd t s = Cont (s', ls_exchange (length (ls_threads s)), ls_close (length (ls_threads s))) \<and>
    ls_quiet (length (ls_threads s)) s' \<and> ls_arr s' = ls_arr s \<and> ls_kills s' = ls_kills s"
  using assms by (auto simp: ls_connect_def ls_run ls_accept_def ls_quiet_def ls_set_def)

lemma ls_close_quiet:
  assumes "ls_quiet i s"
  shows "ls_sems (ls_close i s) = ls_free" "ls_arr (ls_close i s) = ls_arr s" "ls_kills (ls_close i s) = ls_kills s"
  using assms by (simp_all add: ls_close_def ls_run ls_quiet_def)

text \<open>One request: the first letter left is reserved, or there is none and the client exits.\<close>

lemma lr_request_reserves:
  assumes "ls_quiet i s" "length buf = LS_BUF_SIZE" "j < LS_ARR_SIZE" "ls_arr s ! j \<noteq> ls_blank" "\<forall>k < j. ls_arr s ! k = ls_blank"
  shows "\<exists>s'. lr_request (ls_exchange i) buf out s =
      (out @ [Recieved_letters (ls_arr s), Sending_index j, Response_OK], Cont s') \<and> ls_quiet i s' \<and>
    ls_arr s' = (ls_arr s)[j := ls_blank] \<and>
    ls_kills s' = ls_kills s + (if \<forall>k < LS_ARR_SIZE. (ls_arr s)[j := ls_blank] ! k = ls_blank then 1 else 0)"
proof -
  let ?b1 = "buf[0 := ch CHR ''r'']"
  let ?b2 = "ls_arr s @ drop LS_ARR_SIZE ?b1"
  have len: "length (ls_arr s) = LS_ARR_SIZE" "length ?b2 = LS_BUF_SIZE"
    using assms(1,2) by (simp_all add: ls_quiet_def LS_ARR_SIZE_def LS_BUF_SIZE_def)
  obtain s1 where s1: "ls_exchange i ?b1 s = Cont (?b2, s1)" "ls_quiet i s1" "ls_arr s1 = ls_arr s" "ls_kills s1 = ls_kills s"
    using ls_exchange_read [OF assms(1), of ?b1] assms(2) by (auto simp: ls_answered_def LS_BUF_SIZE_def)
  have b2: "recv_into ?b2 ?b1 = ?b2" using len assms(2) by (simp add: recv_into_def)
  have pick: "ls_pick ?b2 = Some j" "unat (ls_index_of (ls_write_request j ?b2)) = j"
  proof -
    have "take 20 ?b2 = ls_arr s" using len by (simp add: LS_ARR_SIZE_def)
    from letters_client_picks_first_free [OF len(2) this] assms(3-5)
    show "ls_pick ?b2 = Some j" unfolding LS_ARR_SIZE_def
      by (cases "ls_pick ?b2") (auto simp: LS_ARR_SIZE_def, metis linorder_neqE_nat)
    with letters_client_picks_first_free [OF len(2) \<open>take 20 ?b2 = ls_arr s\<close>]
    show "unat (ls_index_of (ls_write_request j ?b2)) = j" by simp
  qed
  let ?b3 = "ls_write_request j ?b2"
  have b3: "length ?b3 = LS_BUF_SIZE" "?b3 ! 0 = ch CHR ''w''"
    using len by (auto simp: ls_write_request_def LS_BUF_SIZE_def nth_list_update)
  obtain s2 where s2: "ls_exchange i ?b3 s1 = Cont ([0, 0, 0, 0], s2)"
    "ls_answered i (s1\<lparr>ls_arr := (ls_arr s)[j := ls_blank]\<rparr>) (Status LsOK)
      (if \<forall>k < LS_ARR_SIZE. (ls_arr s)[j := ls_blank] ! k = ls_blank then 1 else 0) s2"
    using ls_exchange_write [OF s1(2) b3 pick(2) assms(3)] assms(4) unfolding s1(3) by blast
  have "recv_into [0, 0, 0, 0] ?b3 ! 0 = 0" using b3(1) by (simp add: recv_into_def LS_BUF_SIZE_def)
  then show ?thesis
    using b2 s1 s2 pick(1) len(1) by (simp add: lr_request_def Let_def ls_answered_def)
qed

lemma lr_request_none_left:
  assumes "ls_quiet i s" "length buf = LS_BUF_SIZE" "\<forall>k < LS_ARR_SIZE. ls_arr s ! k = ls_blank"
  shows "lr_request (ls_exchange i) buf out s = (out @ [Recieved_letters (ls_arr s), No_letters_left], Exit EXIT_FAILURE)"
proof -
  let ?b1 = "buf[0 := ch CHR ''r'']"
  let ?b2 = "ls_arr s @ drop LS_ARR_SIZE ?b1"
  have len: "length (ls_arr s) = LS_ARR_SIZE" "length ?b2 = LS_BUF_SIZE"
    using assms(1,2) by (simp_all add: ls_quiet_def LS_ARR_SIZE_def LS_BUF_SIZE_def)
  obtain s1 where s1: "ls_exchange i ?b1 s = Cont (?b2, s1)"
    using ls_exchange_read [OF assms(1), of ?b1] assms(2) by (auto simp: LS_BUF_SIZE_def)
  have b2: "recv_into ?b2 ?b1 = ?b2" using len assms(2) by (simp add: recv_into_def)
  have "take 20 ?b2 = ls_arr s" using len by (simp add: LS_ARR_SIZE_def)
  then have "ls_pick ?b2 = None"
    using letters_client_picks_first_free [OF len(2)] assms(3) by (auto simp: LS_ARR_SIZE_def split: option.splits)
  then show ?thesis using b2 s1 len(1) by (simp add: lr_request_def Let_def)
qed

text \<open>The table after \<open>n\<close> reservations in order.\<close>

definition lr_table :: "nat \<Rightarrow> c_char list" where
  "lr_table n = map (\<lambda>k. if k < n then ls_blank else ls_letter k) [0..<LS_ARR_SIZE]"

lemma lr_table_nth [simp]:
  "length (lr_table n) = LS_ARR_SIZE" "k < LS_ARR_SIZE \<Longrightarrow> lr_table n ! k = (if k < n then ls_blank else ls_letter k)"
  by (simp_all add: lr_table_def)

lemma lr_table_step: "n < LS_ARR_SIZE \<Longrightarrow> (lr_table n)[n := ls_blank] = lr_table (Suc n)"
  by (rule nth_equalityI) (auto simp: nth_list_update)

definition lr_lines :: "nat \<Rightarrow> lr_line list" where
  "lr_lines k = [Connected, Recieved_letters (lr_table k), Sending_index k, Response_OK]"

definition ls_at :: "nat \<Rightarrow> ls \<Rightarrow> bool" where
  "ls_at n s \<longleftrightarrow> ls_sems s = ls_free \<and> ls_arr s = lr_table n \<and> ls_kills s = (if n = LS_ARR_SIZE then 1 else 0)"

lemma lr_round:
  assumes "ls_at m s" "m < LS_ARR_SIZE" "length buf = LS_BUF_SIZE" "length (l_buf t) = LS_BUF_SIZE" "sock \<noteq> -1" "pton \<noteq> -1"
  shows "\<exists>s'. lr_rounds sock pton (ls_connect fd t) buf (Suc n) out s =
      lr_rounds sock pton (ls_connect fd t) buf n (out @ lr_lines m) s' \<and> ls_at (Suc m) s'"
proof -
  let ?i = "length (ls_threads s)"
  obtain s0 where s0: "ls_connect fd t s = Cont (s0, ls_exchange ?i, ls_close ?i)" "ls_quiet ?i s0" "ls_arr s0 = lr_table m" "ls_kills s0 = 0"
    using ls_connect_quiet [of s t fd] assms by (auto simp: ls_at_def)
  have "(\<forall>k < LS_ARR_SIZE. lr_table (Suc m) ! k = ls_blank) \<longleftrightarrow> Suc m = LS_ARR_SIZE"
    using assms(2) by (auto simp: ls_letter_not_blank)
  then obtain s1 where s1: "lr_request (ls_exchange ?i) buf (out @ [Connected]) s0 = (out @ lr_lines m, Cont s1)"
    "ls_quiet ?i s1" "ls_arr s1 = lr_table (Suc m)" "ls_kills s1 = (if Suc m = LS_ARR_SIZE then 1 else 0)"
    using lr_request_reserves [OF s0(2) assms(3,2), of "out @ [Connected]"] s0(3,4) assms(2)
    by (auto simp: ls_letter_not_blank lr_table_step lr_lines_def)
  then show ?thesis
    using s0(1) assms(5,6) by (auto simp: ls_at_def ls_close_quiet)
qed

lemma lr_rounds_at:
  assumes "length buf = LS_BUF_SIZE" "length (l_buf t) = LS_BUF_SIZE" "sock \<noteq> -1" "pton \<noteq> -1"
    "ls_at m s" "m + n \<le> LS_ARR_SIZE"
  shows "\<exists>s'. lr_rounds sock pton (ls_connect fd t) buf (n + r) out s =
      lr_rounds sock pton (ls_connect fd t) buf r (out @ concat (map lr_lines [m..<m + n])) s' \<and> ls_at (m + n) s'"
  using assms(5,6)
proof (induction n arbitrary: m s out)
  case (Suc n)
  then obtain s1 where "lr_rounds sock pton (ls_connect fd t) buf (Suc (n + r)) out s =
      lr_rounds sock pton (ls_connect fd t) buf (n + r) (out @ lr_lines m) s1" "ls_at (Suc m) s1"
    using lr_round [OF Suc.prems(1) _ assms(1-4), of fd "n + r" out] by auto
  moreover have "[m..<m + Suc n] = m # [Suc m..<Suc m + n]" by (simp add: upt_rec)
  ultimately show ?case using Suc.IH [of "Suc m" s1 "out @ lr_lines m"] Suc.prems(2) by (auto simp del: lr_rounds.simps)
qed auto

lemma lr_round_full:
  assumes "ls_at LS_ARR_SIZE s" "length buf = LS_BUF_SIZE" "length (l_buf t) = LS_BUF_SIZE" "sock \<noteq> -1" "pton \<noteq> -1"
  shows "lr_rounds sock pton (ls_connect fd t) buf (Suc n) out s =
    (out @ [Connected, Recieved_letters (replicate 20 ls_blank), No_letters_left], Exit EXIT_FAILURE)"
proof -
  let ?i = "length (ls_threads s)"
  obtain s0 where s0: "ls_connect fd t s = Cont (s0, ls_exchange ?i, ls_close ?i)" "ls_quiet ?i s0" "ls_arr s0 = lr_table LS_ARR_SIZE"
    using ls_connect_quiet [of s t fd] assms by (auto simp: ls_at_def)
  have "lr_table LS_ARR_SIZE = replicate 20 ls_blank" by (rule nth_equalityI) (simp_all add: LS_ARR_SIZE_def lr_table_def)
  then show ?thesis
    using lr_request_none_left [OF s0(2) assms(2), of "out @ [Connected]"] s0 assms(4,5) by (simp add: LS_ARR_SIZE_def)
qed

lemma ls_boot_at: "ls_at 0 ls_boot"
  by (simp add: ls_at_def ls_boot_def ls_free_def lr_table_def ls_letter_def LS_ARR_SIZE_def)

text \<open>
  (C12) A client that is alone with a fresh server reserves the 20 letters in order, one per connection, and
  is answered \<open>OK\<close> each time, although it has to read the table before it asks; the server signals its
  parent once, at the last letter.  The next connection ends the client: its endless loop is left
  only through \<open>exit(EXIT_FAILURE)\<close>, after at most 21 connections.
\<close>

theorem letters_client_takes_all:
  assumes "length buf = 200" "length (l_buf t) = 200" "sock \<noteq> -1" "pton \<noteq> -1"
  shows "(n \<le> 20 \<longrightarrow> (\<exists>s. lr_main 2 sock pton (ls_connect fd t) buf n ls_boot = (concat (map lr_lines [0..<n]), Cont s) \<and>
      ls_arr s = lr_table n \<and> ls_kills s = (if n = 20 then 1 else 0))) \<and>
    (20 < n \<longrightarrow> lr_main 2 sock pton (ls_connect fd t) buf n ls_boot =
      (concat (map lr_lines [0..<20]) @ [Connected, Recieved_letters (replicate 20 ls_blank), No_letters_left], Exit EXIT_FAILURE))"
proof -
  have b: "length buf = LS_BUF_SIZE" "length (l_buf t) = LS_BUF_SIZE" using assms by (simp_all add: LS_BUF_SIZE_def)
  note rounds = lr_rounds_at [OF b assms(3,4) ls_boot_at, of _ fd _ "[]", unfolded LS_ARR_SIZE_def add_0]
  show ?thesis
  proof (cases "n \<le> 20")
    case True
    with rounds [of n 0] show ?thesis by (auto simp: lr_main_def ls_at_def LS_ARR_SIZE_def)
  next
    case False
    then obtain r where n: "n = 20 + Suc r" by (metis add_Suc_right less_iff_Suc_add not_le)
    from rounds [of 20 "Suc r"] obtain s where "ls_at LS_ARR_SIZE s"
      "lr_rounds sock pton (ls_connect fd t) buf n [] ls_boot =
        lr_rounds sock pton (ls_connect fd t) buf (Suc r) (concat (map lr_lines [0..<20])) s"
      by (auto simp: n LS_ARR_SIZE_def simp del: lr_rounds.simps)
    then show ?thesis using False lr_round_full [OF _ b assms(3,4)] by (simp add: lr_main_def del: lr_rounds.simps)
  qed
qed

theorem letters_client_takes_all_witness:
  "snd (lr_main 2 3 1 (ls_connect 4 ls_fresh) (replicate 200 0) 21 ls_boot) = Exit EXIT_FAILURE"
  using letters_client_takes_all [of "replicate 200 0" ls_fresh 3 1 21 4] by (simp add: ls_fresh_def LS_BUF_SIZE_def)

end
