(* ===== verification/Server_Mains.thy ===== *)
theory Server_Mains
  imports Threaded_Server Epoll_Server Mux_Server Letters_Server
begin

text \<open>
  The \<open>main\<close> functions of the four letter servers: how each sets up its semaphores and its listening
  socket, which failures it notices, and what is left in the kernel when it ends.  A System V semaphore
  set outlives the process; descriptors and files do not.
\<close>

section \<open>System calls\<close>

datatype srv_res = SrvLog | SrvListen | SrvEpoll

record srv_k =
  k_sems :: "semset option"
  k_open :: "srv_res list"

text \<open>
  The calls: \<open>semget\<close>, \<open>SETVAL\<close>, \<open>IPC_RMID\<close>; opening a file, socket or epoll instance, a call on an open
  one (\<open>bind\<close>, \<open>listen\<close>, \<open>setsockopt\<close>, \<open>fcntl\<close>, \<open>epoll_ctl\<close>), closing it; \<open>Sys\<close> for the installation of a
  signal handler.  \<open>srv_effect\<close> gives \<open>None\<close> for a call that cannot succeed, such as one on a descriptor that is not open.
\<close>

datatype srv_op = Semget nat | Setval nat int | Rmid | Open srv_res | On srv_res | Close srv_res | Sys

fun srv_effect :: "srv_op \<Rightarrow> srv_k \<Rightarrow> srv_k option" where
  "srv_effect (Semget n) k = Some (k\<lparr>k_sems := Some (replicate n 0)\<rparr>)"
| "srv_effect (Setval i v) k = (case k_sems k of None \<Rightarrow> None
     | Some vs \<Rightarrow> if i < length vs \<and> 0 \<le> v \<and> v \<le> SEMVMX then Some (k\<lparr>k_sems := Some (vs[i := v])\<rparr>) else None)"
| "srv_effect Rmid k = (if k_sems k = None then None else Some (k\<lparr>k_sems := None\<rparr>))"
| "srv_effect (Open r) k = Some (k\<lparr>k_open := k_open k @ [r]\<rparr>)"
| "srv_effect (On r) k = (if r \<in> set (k_open k) then Some k else None)"
| "srv_effect (Close r) k = (if r \<in> set (k_open k) then Some (k\<lparr>k_open := removeAll r (k_open k)\<rparr>) else None)"
| "srv_effect Sys k = Some k"

text \<open>A statement: a call whose failure exits with a code, or a call whose result is not acted upon.\<close>

datatype srv_call = Must srv_op int | Try srv_op

text \<open>\<open>ok n\<close>: the environment lets call number \<open>n\<close> succeed.\<close>

fun srv_run :: "(nat \<Rightarrow> bool) \<Rightarrow> nat \<Rightarrow> srv_call list \<Rightarrow> srv_k \<Rightarrow> int option \<times> srv_k" where
  "srv_run ok n [] k = (None, k)"
| "srv_run ok n (Must p c # cs) k = (case (if ok n then srv_effect p k else None) of
      Some k' \<Rightarrow> srv_run ok (Suc n) cs k' | None \<Rightarrow> (Some c, k))"
| "srv_run ok n (Try p # cs) k = (case (if ok n then srv_effect p k else None) of
      Some k' \<Rightarrow> srv_run ok (Suc n) cs k' | None \<Rightarrow> srv_run ok (Suc n) cs k)"

definition srv_k0 :: srv_k where "srv_k0 = \<lparr>k_sems = None, k_open = []\<rparr>"

definition srv_exit :: "int \<Rightarrow> srv_k \<Rightarrow> int option \<times> srv_k" where
  "srv_exit c k = (Some c, k\<lparr>k_open := []\<rparr>)"


section \<open>The four programs\<close>

definition s1_setup :: "srv_call list" where
  "s1_setup = [Must (Open SrvLog) EXIT_FAILURE, Must Sys 1, Must (Semget 3) EXIT_FAILURE,
     Try (Setval 0 (int ARR_SIZE)), Try (Setval 1 0), Try (Setval 2 1),
     Try (Open SrvListen), Try (On SrvListen), Must (On SrvListen) EXIT_FAILURE, Must (On SrvListen) EXIT_FAILURE]"


definition s2_setup :: "srv_call list" where
  "s2_setup = [Must (Open SrvLog) 1, Must Sys 1, Must (Semget 2) EXIT_FAILURE,
     Try (Setval 0 (int ARR_SIZE)), Try (Setval 1 0),
     Try (Open SrvListen), Must (On SrvListen) 1, Try (On SrvListen), Must (On SrvListen) 1, Must (On SrvListen) 1,
     Must (Open SrvEpoll) 1, Must (On SrvEpoll) 1]"


definition mux_setup :: "srv_call list" where
  "mux_setup = [Must (Open SrvLog) EXIT_FAILURE, Try Sys, Must (Semget 2) EXIT_FAILURE,
     Try (Setval 0 (int MUX_ARR_SIZE)), Try (Setval 1 0),
     Try (Open SrvListen), Try (On SrvListen), Must (On SrvListen) EXIT_FAILURE, Must (On SrvListen) EXIT_FAILURE,
     Must (Open SrvEpoll) EXIT_FAILURE, Must (On SrvEpoll) EXIT_FAILURE]"


text \<open>
  In the reservation server a failing \<open>semget\<close> is only reported.  Its handler closes \<open>sfd\<close>, a variable
  that is never assigned: descriptor 0, not one of those below.
\<close>

definition ls_setup :: "srv_call list" where
  "ls_setup = [Must Sys EXIT_FAILURE, Try (Semget 5),
     Try (Setval 0 0), Try (Setval 1 0), Try (Setval 2 0), Try (Setval 3 1), Try (Setval 4 0),
     Must (Open SrvListen) EXIT_FAILURE, Must (On SrvListen) EXIT_FAILURE, Must (On SrvListen) EXIT_FAILURE]"











section \<open>Start-up\<close>

lemma srv_size_ok [simp]: "int ARR_SIZE \<le> SEMVMX" "int MUX_ARR_SIZE \<le> SEMVMX" "0 \<le> SEMVMX" "1 \<le> SEMVMX"
  by (simp_all add: ARR_SIZE_def MUX_ARR_SIZE_def SEMVMX_def)

lemma srv_run_code:
  "srv_run ok n cs k = (Some c, k') \<Longrightarrow> list_all (\<lambda>x. case x of Must p d \<Rightarrow> d = 1 | Try p \<Rightarrow> True) cs \<Longrightarrow> c = 1"
  by (induction ok n cs k rule: srv_run.induct) (auto split: option.splits)

text \<open>
  A set-up as its accept loop relies on it: whatever fails, the loop is reached only with a listening
  socket, and with the initial semaphore values when the calls in \<open>vals\<close> (that make and set the semaphores) do not fail.
\<close>

locale server_setup =
  fixes script :: "srv_call list" and vals :: "nat list" and boot :: semset
  assumes reaches: "srv_run ok 0 script srv_k0 = (None, k) \<Longrightarrow>
      SrvListen \<in> set (k_open k) \<and> ((\<forall>n \<in> set vals. ok n) \<longrightarrow> k_sems k = Some boot)"
    and fails: "srv_run ok 0 script srv_k0 = (Some c, k) \<Longrightarrow> c = 1"
    and succeeds: "(\<forall>n. ok n) \<Longrightarrow> fst (srv_run ok 0 script srv_k0) = None"
begin

lemma exit_nonzero: "fst (srv_run ok 0 script srv_k0) \<noteq> Some 0"
  using fails [of ok] by (cases "srv_run ok 0 script srv_k0") auto

lemma boots: "(\<forall>n. ok n) \<Longrightarrow> \<exists>k. srv_run ok 0 script srv_k0 = (None, k) \<and> k_sems k = Some boot \<and> SrvListen \<in> set (k_open k)"
  using succeeds [of ok] reaches [of ok] by (cases "srv_run ok 0 script srv_k0") simp

end

text \<open>The four scripts; the state after a call decides the rest, whatever \<open>ok\<close> is.\<close>

lemmas srv_scripts = s1_setup_def s2_setup_def mux_setup_def ls_setup_def srv_k0_def numeral_nat

interpretation s1_up: server_setup s1_setup "[3, 4, 5]" "s1_sems s1_boot"
proof unfold_locales
  show "SrvListen \<in> set (k_open k) \<and> ((\<forall>n \<in> set [3, 4, 5]. ok n) \<longrightarrow> k_sems k = Some (s1_sems s1_boot))"
    if "srv_run ok 0 s1_setup srv_k0 = (None, k)" for ok k
    using that by (auto simp: srv_scripts s1_boot_def split: if_splits)
  show "c = 1" if "srv_run ok 0 s1_setup srv_k0 = (Some c, k)" for ok c k
    using srv_run_code [OF that] by (simp add: s1_setup_def)
  show "fst (srv_run ok 0 s1_setup srv_k0) = None" if "\<forall>n. ok n" for ok
    using that by (simp add: srv_scripts)
qed

interpretation s2_up: server_setup s2_setup "[3, 4]" "s2_sems s2_boot"
proof unfold_locales
  show "SrvListen \<in> set (k_open k) \<and> ((\<forall>n \<in> set [3, 4]. ok n) \<longrightarrow> k_sems k = Some (s2_sems s2_boot))"
    if "srv_run ok 0 s2_setup srv_k0 = (None, k)" for ok k
    using that by (auto simp: srv_scripts s2_boot_def split: if_splits)
  show "c = 1" if "srv_run ok 0 s2_setup srv_k0 = (Some c, k)" for ok c k
    using srv_run_code [OF that] by (simp add: s2_setup_def)
  show "fst (srv_run ok 0 s2_setup srv_k0) = None" if "\<forall>n. ok n" for ok
    using that by (simp add: srv_scripts)
qed

interpretation mux_up: server_setup mux_setup "[3, 4]" "m_sems (mux_boot buf0)"
proof unfold_locales
  show "SrvListen \<in> set (k_open k) \<and> ((\<forall>n \<in> set [3, 4]. ok n) \<longrightarrow> k_sems k = Some (m_sems (mux_boot buf0)))"
    if "srv_run ok 0 mux_setup srv_k0 = (None, k)" for ok k
    using that by (auto simp: srv_scripts mux_boot_def split: if_splits)
  show "c = 1" if "srv_run ok 0 mux_setup srv_k0 = (Some c, k)" for ok c k
    using srv_run_code [OF that] by (simp add: mux_setup_def)
  show "fst (srv_run ok 0 mux_setup srv_k0) = None" if "\<forall>n. ok n" for ok
    using that by (simp add: srv_scripts)
qed

interpretation ls_up: server_setup ls_setup "[1, 2, 3, 4, 5, 6]" "ls_sems ls_boot"
proof unfold_locales
  show "SrvListen \<in> set (k_open k) \<and> ((\<forall>n \<in> set [1, 2, 3, 4, 5, 6]. ok n) \<longrightarrow> k_sems k = Some (ls_sems ls_boot))"
    if "srv_run ok 0 ls_setup srv_k0 = (None, k)" for ok k
    using that by (auto simp: srv_scripts ls_boot_def split: if_splits)
  show "c = 1" if "srv_run ok 0 ls_setup srv_k0 = (Some c, k)" for ok c k
    using srv_run_code [OF that] by (simp add: ls_setup_def)
  show "fst (srv_run ok 0 ls_setup srv_k0) = None" if "\<forall>n. ok n" for ok
    using that by (simp add: srv_scripts)
qed

text \<open>
  Whichever system calls fail, each server enters its service loop only with a listening socket, although
  three of them do not test \<open>socket\<close>; and unless creating or setting the semaphores fails, they have
  the values from which the other theories start.
\<close>

lemma servers_start_at_boot:
  assumes "srv_run ok 0 cs srv_k0 = (None, k)"
    "(cs, vals, boot) \<in> {(s1_setup, [3, 4, 5], s1_sems s1_boot), (s2_setup, [3, 4], s2_sems s2_boot),
       (mux_setup, [3, 4], m_sems (mux_boot buf0)), (ls_setup, [1, 2, 3, 4, 5, 6], ls_sems ls_boot)}"
  shows "SrvListen \<in> set (k_open k) \<and> ((\<forall>n \<in> set vals. ok n) \<longrightarrow> k_sems k = Some boot)"
  using assms s1_up.reaches [of ok k] s2_up.reaches [of ok k] mux_up.reaches [of ok k buf0] ls_up.reaches [of ok k] by auto

lemma servers_start_at_boot_witness:
  "\<exists>k. srv_run (\<lambda>n. n \<noteq> 7) 0 s1_setup srv_k0 = (None, k) \<and> k_sems k = Some [26, 0, 1]"
proof -
  have "fst (srv_run (\<lambda>n. n \<noteq> 7) 0 s1_setup srv_k0) = None" by (simp add: srv_scripts)
  then obtain k where "srv_run (\<lambda>n. n \<noteq> 7) 0 s1_setup srv_k0 = (None, k)" by (metis prod.collapse)
  with servers_start_at_boot [OF this, of "[3, 4, 5]" "s1_sems s1_boot" "[]"] show ?thesis
    by (simp add: s1_boot_def ARR_SIZE_def)
qed

text \<open>
  The reservation server goes on without semaphores when \<open>semget\<close> fails: every \<open>semctl\<close> fails as well, all
  of it is only reported, and the server listens.
\<close>

lemma ls_starts_without_semaphores:
  assumes "\<forall>n. ok n \<longleftrightarrow> n \<noteq> 1"
  shows "srv_run ok 0 ls_setup srv_k0 = (None, \<lparr>k_sems = None, k_open = [SrvListen]\<rparr>)"
  using assms by (simp add: srv_scripts)

section \<open>The end\<close>







lemma srv_exit_sems [simp]: "srv_exit c k = (Some d, k') \<longleftrightarrow> d = c \<and> k' = k\<lparr>k_open := []\<rparr>"
  by (auto simp: srv_exit_def)




end
