(* ===== verification/Buf_Threads.thy ===== *)
theory Buf_Threads
  imports Buf_Io "HOL-Library.Sublist" "HOL-Library.Multiset"
begin

text \<open>
  \<open>lab_buf_io/src/app1_threads.c\<close>: the two streams of \<open>app1.c\<close>, each read by a thread of its own.  The
  format \<open>"%c\n"\<close> reads a character and then skips white space, for which it looks one
  character ahead, so an exhausted buffer is refilled at once.  A schedule decides which
  thread makes the next call.
\<close>

section \<open>Model\<close>

function skip_space :: "string \<Rightarrow> string \<Rightarrow> string \<times> string" where
  "skip_space fl buf = (let (f, b) = refill fl buf in
     case b of [] \<Rightarrow> (f, []) | c # cs \<Rightarrow> if is_space c then skip_space f cs else (f, b))"
  by pat_completeness auto
termination
proof (relation "measure (\<lambda>(fl, buf). length fl + length buf)")
  fix fl buf x f b c cs
  assume "x = refill fl buf" "(f, b) = x" "b = c # cs"
  then show "((f, cs), (fl, buf)) \<in> measure (\<lambda>(fl, buf). length fl + length buf)"
    using refill_length [of fl buf f b] by simp
qed simp

declare skip_space.simps [simp del]

text \<open>\<open>fscanf(fs, "%c\n", &c)\<close> on the stream with the buffer \<open>buf\<close>.\<close>

definition fscanf_c :: "string \<Rightarrow> string \<Rightarrow> char option \<times> string \<times> string" where
  "fscanf_c fl buf = (let (f, b) = refill fl buf in
     case b of [] \<Rightarrow> (None, f, []) | c # cs \<Rightarrow> (Some c, skip_space f cs))"

record at_thread =
  t_buf :: string
  t_ended :: bool
  t_printed :: string

record at =
  at_file :: string
  at_main :: at_thread
  at_other :: at_thread
  at_out :: string

text \<open>One call of a thread: \<open>fscanf\<close> and, if it delivers a character, \<open>fprintf\<close>.\<close>

definition thread_call :: "string \<Rightarrow> at_thread \<Rightarrow> string \<times> at_thread \<times> string" where
  "thread_call fl t = (case fscanf_c fl (t_buf t) of
      (None, f, b) \<Rightarrow> (f, t\<lparr>t_buf := b, t_ended := True\<rparr>, [])
    | (Some c, f, b) \<Rightarrow> (f, t\<lparr>t_buf := b, t_printed := t_printed t @ [c]\<rparr>, [c]))"

definition at_step :: "bool \<Rightarrow> at \<Rightarrow> at" where
  "at_step main s =
     (if main then
        (if t_ended (at_main s) then s
         else (case thread_call (at_file s) (at_main s) of (f, t, out) \<Rightarrow> s\<lparr>at_file := f, at_main := t, at_out := at_out s @ out\<rparr>))
      else
        (if t_ended (at_other s) then s
         else (case thread_call (at_file s) (at_other s) of (f, t, out) \<Rightarrow> s\<lparr>at_file := f, at_other := t, at_out := at_out s @ out\<rparr>)))"

definition at_start :: "string \<Rightarrow> at" where
  "at_start fl = (let t = \<lparr>t_buf = [], t_ended = False, t_printed = []\<rparr> in
     \<lparr>at_file = fl, at_main = t, at_other = t, at_out = []\<rparr>)"

definition at_run :: "bool list \<Rightarrow> string \<Rightarrow> at" where
  "at_run sched fl = fold at_step sched (at_start fl)"

section \<open>Lemmas\<close>

definition plain_text :: "string \<Rightarrow> bool" where
  "plain_text s \<longleftrightarrow> (\<forall>c \<in> set s. \<not> is_space c)"

lemma skip_space_plain:
  assumes "plain_text fl" "plain_text buf"
  shows "skip_space fl buf = refill fl buf"
proof -
  obtain f b where fb: "refill fl buf = (f, b)" by fastforce
  then have "plain_text b" using assms set_take_subset [of 20 fl] by (auto simp: refill_def plain_text_def split: if_splits)
  then show ?thesis by (cases b) (auto simp: skip_space.simps fb plain_text_def)
qed

text \<open>A call moves characters from the file to the buffer and from the buffer to the output.\<close>

lemma thread_call_cases:
  assumes "plain_text fl" "plain_text (t_buf t)" "thread_call fl t = (f, t', out)"
  shows "plain_text f \<and> plain_text (t_buf t') \<and> (\<exists>blocks. fl = blocks @ f \<and> t_buf t @ blocks = out @ t_buf t') \<and>
    t_printed t' = t_printed t @ out \<and> (t_ended t' \<longleftrightarrow> t_ended t \<or> out = []) \<and>
    (out = [] \<longrightarrow> t_buf t = [] \<and> fl = []) \<and> length out \<le> 1"
proof -
  obtain f1 b1 where r: "refill fl (t_buf t) = (f1, b1)" by fastforce
  then obtain bl where bl: "fl = bl @ f1" "t_buf t @ bl = b1" "b1 = [] \<longrightarrow> t_buf t = [] \<and> fl = []"
    by (fastforce simp: refill_def split: if_splits)
  have p1: "plain_text f1" "plain_text b1" using assms(1,2) bl by (auto simp: plain_text_def)
  show ?thesis
  proof (cases b1)
    case Nil
    then show ?thesis
      using assms(3) r bl p1 by (auto simp: thread_call_def fscanf_c_def plain_text_def)
  next
    case (Cons c cs)
    have cs: "plain_text cs" using p1(2) Cons by (simp add: plain_text_def)
    obtain f2 b2 where r2: "refill f1 cs = (f2, b2)" by fastforce
    then obtain bl2 where bl2: "f1 = bl2 @ f2" "cs @ bl2 = b2" by (fastforce simp: refill_def split: if_splits)
    have res: "f = f2" "t' = t\<lparr>t_buf := b2, t_printed := t_printed t @ [c]\<rparr>" "out = [c]"
      using assms(3) r Cons r2 skip_space_plain [OF p1(1) cs] by (auto simp: thread_call_def fscanf_c_def)
    have "plain_text f2" "plain_text b2" using p1(1) cs bl2 by (auto simp: plain_text_def)
    moreover have "fl = (bl @ bl2) @ f2" "t_buf t @ (bl @ bl2) = [c] @ b2" using bl bl2 Cons by auto
    ultimately show ?thesis unfolding res by (auto intro!: exI [of _ "bl @ bl2"])
  qed
qed

text \<open>What the threads have taken from the file, and what they still hold.\<close>

definition thread_inv :: "string \<Rightarrow> at_thread \<Rightarrow> bool" where
  "thread_inv used t \<longleftrightarrow> plain_text (t_buf t) \<and> subseq (t_printed t @ t_buf t) used \<and> (t_ended t \<longrightarrow> t_buf t = [])"

definition at_inv :: "string \<Rightarrow> at \<Rightarrow> bool" where
  "at_inv fl s \<longleftrightarrow> (\<exists>used. fl = used @ at_file s \<and> thread_inv used (at_main s) \<and> thread_inv used (at_other s) \<and>
     mset used = mset (at_out s) + mset (t_buf (at_main s)) + mset (t_buf (at_other s)) \<and>
     mset (at_out s) = mset (t_printed (at_main s)) + mset (t_printed (at_other s)) \<and>
     (t_ended (at_main s) \<or> t_ended (at_other s) \<longrightarrow> at_file s = []))"

lemma thread_inv_more: "thread_inv used t \<Longrightarrow> thread_inv (used @ blocks) t"
  unfolding thread_inv_def by (auto intro: list_emb_append2)

lemma thread_call_inv:
  assumes "plain_text fl" "thread_inv used t" "\<not> t_ended t" "thread_call fl t = (f, t', out)"
  obtains blocks where "fl = blocks @ f" "thread_inv (used @ blocks) t'" "mset (t_buf t) + mset blocks = mset out + mset (t_buf t')"
    "t_printed t' = t_printed t @ out" "t_ended t' \<longrightarrow> f = []"
proof -
  have pb: "plain_text (t_buf t)" and sub: "subseq (t_printed t @ t_buf t) used" using assms(2) by (simp_all add: thread_inv_def)
  note c = thread_call_cases [OF assms(1) pb assms(4)]
  then obtain blocks where bl: "fl = blocks @ f" "t_buf t @ blocks = out @ t_buf t'" by blast
  have "subseq ((t_printed t @ t_buf t) @ blocks) (used @ blocks)" using sub by (intro list_emb_append_mono) auto
  then have s: "subseq (t_printed t' @ t_buf t') (used @ blocks)" using bl(2) c by simp
  have e: "t_ended t' \<longrightarrow> t_buf t' = [] \<and> f = []" using c bl assms(3) by auto
  show thesis
  proof (rule that [OF bl(1)])
    show "thread_inv (used @ blocks) t'" using s e c by (simp add: thread_inv_def)
    show "mset (t_buf t) + mset blocks = mset out + mset (t_buf t')" using arg_cong [OF bl(2), of mset] by simp
  qed (use c e in auto)
qed

lemma at_step_inv:
  assumes "plain_text fl" "at_inv fl s"
  shows "at_inv fl (at_step main s)"
proof -
  obtain used where u: "fl = used @ at_file s" "thread_inv used (at_main s)" "thread_inv used (at_other s)"
      "mset used = mset (at_out s) + mset (t_buf (at_main s)) + mset (t_buf (at_other s))"
      "mset (at_out s) = mset (t_printed (at_main s)) + mset (t_printed (at_other s))"
      "t_ended (at_main s) \<or> t_ended (at_other s) \<longrightarrow> at_file s = []"
    using assms(2) unfolding at_inv_def by blast
  have pf: "plain_text (at_file s)" using assms(1) u(1) by (simp add: plain_text_def)
  let ?t = "if main then at_main s else at_other s"
  show ?thesis
  proof (cases "t_ended ?t")
    case True
    then show ?thesis using assms(2) by (auto simp: at_step_def split: if_splits)
  next
    case False
    obtain f t' out where call: "thread_call (at_file s) ?t = (f, t', out)" by (metis prod_cases3)
    have ti: "thread_inv used ?t" using u by simp
    obtain bl where bl: "at_file s = bl @ f" "thread_inv (used @ bl) t'" "mset (t_buf ?t) + mset bl = mset out + mset (t_buf t')"
      "t_printed t' = t_printed ?t @ out" "t_ended t' \<longrightarrow> f = []"
      using thread_call_inv [OF pf ti False call] by blast
    show ?thesis
      unfolding at_inv_def using u bl call False thread_inv_more
      by (intro exI [of _ "used @ bl"]) (auto simp: at_step_def ac_simps split: if_splits)
  qed
qed

lemma at_run_inv: "plain_text fl \<Longrightarrow> at_inv fl (at_run sched fl)"
proof -
  assume p: "plain_text fl"
  have "at_inv fl s \<Longrightarrow> at_inv fl (fold at_step sched s)" for s
    by (induction sched arbitrary: s) (auto intro: at_step_inv [OF p])
  moreover have "at_inv fl (at_start fl)" by (simp add: at_inv_def at_start_def Let_def thread_inv_def plain_text_def)
  ultimately show ?thesis by (simp add: at_run_def)
qed

text \<open>Each call of a thread that goes on prints one character.\<close>

lemma at_turns:
  "t_ended (at_main (at_run sched fl)) \<or> length (t_printed (at_main (at_run sched fl))) = count_list sched True"
  "t_ended (at_other (at_run sched fl)) \<or> length (t_printed (at_other (at_run sched fl))) = count_list sched False"
proof (induction sched rule: rev_induct)
  case Nil
  show "t_ended (at_main (at_run [] fl)) \<or> length (t_printed (at_main (at_run [] fl))) = count_list [] True"
    "t_ended (at_other (at_run [] fl)) \<or> length (t_printed (at_other (at_run [] fl))) = count_list [] False"
    by (simp_all add: at_run_def at_start_def Let_def)
next
  case (snoc b sched)
  have call: "t_ended t' \<or> length (t_printed t') = Suc (length (t_printed t)) \<and> (t_ended t' \<longleftrightarrow> t_ended t)"
    if "thread_call f t = (f', t', out)" for f t f' t' out
    using that by (auto simp: thread_call_def split: option.splits prod.splits)
  have run: "at_run (sched @ [b]) fl = at_step b (at_run sched fl)" by (simp add: at_run_def)
  show "t_ended (at_main (at_run (sched @ [b]) fl)) \<or> length (t_printed (at_main (at_run (sched @ [b]) fl))) = count_list (sched @ [b]) True"
    using snoc.IH(1) unfolding run by (auto simp: at_step_def split: prod.splits dest: call)
  show "t_ended (at_other (at_run (sched @ [b]) fl)) \<or> length (t_printed (at_other (at_run (sched @ [b]) fl))) = count_list (sched @ [b]) False"
    using snoc.IH(2) unfolding run by (auto simp: at_step_def split: prod.splits dest: call)
qed

section \<open>Properties\<close>

text \<open>
  (C33) The threads share the file without losing or repeating anything, whatever the schedule: for a file
  without white space, what each thread prints keeps the order of the file, nothing is printed that is not
  in it, and when both threads have ended every character has been printed exactly once; a
  thread ends after at most as many calls as the file has characters, and one.
\<close>

theorem app1_threads_print_once:
  assumes "plain_text fl"
  shows "subseq (t_printed (at_main (at_run sched fl))) fl \<and> subseq (t_printed (at_other (at_run sched fl))) fl \<and>
    mset (at_out (at_run sched fl)) \<subseteq># mset fl \<and>
    (t_ended (at_main (at_run sched fl)) \<and> t_ended (at_other (at_run sched fl)) \<longrightarrow> mset (at_out (at_run sched fl)) = mset fl) \<and>
    (length fl < count_list sched True \<longrightarrow> t_ended (at_main (at_run sched fl))) \<and>
    (length fl < count_list sched False \<longrightarrow> t_ended (at_other (at_run sched fl)))"
proof -
  let ?s = "at_run sched fl"
  obtain used where u: "fl = used @ at_file ?s" "thread_inv used (at_main ?s)" "thread_inv used (at_other ?s)"
      "mset used = mset (at_out ?s) + mset (t_buf (at_main ?s)) + mset (t_buf (at_other ?s))"
      "t_ended (at_main ?s) \<or> t_ended (at_other ?s) \<longrightarrow> at_file ?s = []"
    using at_run_inv [OF assms, of sched] unfolding at_inv_def by blast
  have "subseq (t_printed t) fl" if "thread_inv used t" for t
  proof -
    have "subseq (t_printed t @ []) (t_printed t @ t_buf t)" by (intro list_emb_append_mono) auto
    also have "subseq (t_printed t @ t_buf t) used" using that by (simp add: thread_inv_def)
    also have "subseq used fl" using u(1) by (metis prefixI prefix_imp_subseq)
    finally show ?thesis by simp
  qed
  then have sub: "subseq (t_printed (at_main ?s)) fl" "subseq (t_printed (at_other ?s)) fl" using u by blast+
  have "mset (at_out ?s) \<subseteq># mset used" unfolding u(4) by simp
  also have "mset used \<subseteq># mset fl" using arg_cong [OF u(1), of mset] by (metis mset_append mset_subset_eq_add_left)
  finally have out: "mset (at_out ?s) \<subseteq># mset fl" .
  have all: "mset (at_out ?s) = mset fl" if "t_ended (at_main ?s)" "t_ended (at_other ?s)"
  proof -
    have "t_buf (at_main ?s) = []" "t_buf (at_other ?s) = []" "at_file ?s = []"
      using that u(2,3,5) by (auto simp: thread_inv_def)
    then show ?thesis using u(4) arg_cong [OF u(1), of mset] by (metis add.right_neutral append_Nil2 mset.simps(1) u(1))
  qed
  show ?thesis
    using sub out all at_turns [of sched fl] list_emb_length [OF sub(1)] list_emb_length [OF sub(2)] by auto
qed

theorem app1_threads_print_once_witness:
  "mset (at_out (at_run (concat (replicate 30 [False, True])) ''abcdefghijklmnopqrstuvwxyz'')) = mset ''abcdefghijklmnopqrstuvwxyz''"
proof -
  have p: "plain_text ''abcdefghijklmnopqrstuvwxyz''" by (simp add: plain_text_def is_space_def)
  have c: "count_list (concat (replicate 30 [False, True])) True = 30" "count_list (concat (replicate 30 [False, True])) False = 30"
    by code_simp+
  show ?thesis using app1_threads_print_once [OF p, of "concat (replicate 30 [False, True])"] by (simp add: c)
qed

end
