(* ===== verification/Task_List.thy ===== *)
theory Task_List
  imports OS_Prelude
begin

text \<open>
  \<open>lab_module/task_01/main.c\<close>: the module that prints the fields of every task.  The tasks are numbered,
  \<open>next_task\<close> is a parameter of the system; a walk that does not come back to \<open>init_task\<close> does not
  return, which is \<open>None\<close>.
\<close>

section \<open>Model\<close>

record task_struct =
  ta_comm :: string
  ta_pid :: int
  ta_tgid :: int
  ta_parent :: nat
  ta_state :: int
  ta_on_cpu :: int
  ta_flags :: int
  ta_sessionid :: int
  ta_prio :: int
  ta_static_prio :: int
  ta_normal_prio :: int
  ta_rt_priority :: int
  ta_policy :: int
  ta_migration_disabled :: int
  ta_migration_flags :: int
  ta_exit_state :: int
  ta_exit_code :: int
  ta_exit_signal :: int
  ta_nvcsw :: u64
  ta_nivcsw :: u64
  ta_last_switch_time :: u64
  ta_utime :: u64
  ta_stime :: u64

text \<open>The arguments of one \<open>printk\<close>, in the order of the format.\<close>

datatype task_field = TStr string | TNum int | TU64 u64

definition task_line :: "(nat \<Rightarrow> task_struct) \<Rightarrow> nat \<Rightarrow> task_field list" where
  "task_line tasks k = (let t = tasks k; p = tasks (ta_parent t) in
     [TStr (ta_comm t), TNum (ta_pid t), TNum (ta_tgid t), TStr (ta_comm p), TNum (ta_pid p),
      TNum (ta_state t), TNum (ta_on_cpu t), TNum (ta_flags t), TNum (ta_sessionid t),
      TNum (ta_prio t), TNum (ta_static_prio t), TNum (ta_normal_prio t), TNum (ta_rt_priority t),
      TNum (ta_policy t), TNum (ta_migration_disabled t), TNum (ta_migration_flags t),
      TNum (ta_exit_state t), TNum (ta_exit_code t), TNum (ta_exit_signal t),
      TU64 (ta_nvcsw t + ta_nivcsw t), TU64 (ta_last_switch_time t), TU64 (ta_utime t), TU64 (ta_stime t)])"

text \<open>The \<open>do\<close>--\<open>while\<close> loop from \<open>init_task\<close>, and \<open>mod_init\<close>.\<close>

partial_function (option) task_walk :: "(nat \<Rightarrow> nat) \<Rightarrow> (nat \<Rightarrow> task_struct) \<Rightarrow> nat \<Rightarrow> nat \<Rightarrow> task_field list list \<Rightarrow> task_field list list option" where
  "task_walk next_task tasks init_task task out =
     (let out' = out @ [task_line tasks task]; task' = next_task task in
      if task' = init_task then Some out' else task_walk next_task tasks init_task task' out')"

definition task_mod_init :: "(nat \<Rightarrow> nat) \<Rightarrow> (nat \<Rightarrow> task_struct) \<Rightarrow> nat \<Rightarrow> nat \<Rightarrow> (int \<times> task_field list list) option" where
  "task_mod_init next_task tasks init_task current =
     map_option (\<lambda>out. (0, out @ [task_line tasks current])) (task_walk next_task tasks init_task init_task [])"

section \<open>Walking a ring\<close>

text \<open>The tasks in the order of their links, closed to a ring; \<open>init_task\<close> is the first.\<close>

definition task_ring :: "(nat \<Rightarrow> nat) \<Rightarrow> nat list \<Rightarrow> bool" where
  "task_ring next_task ks \<longleftrightarrow> ks \<noteq> [] \<and> distinct ks \<and> (\<forall>i < length ks. next_task (ks ! i) = ks ! (Suc i mod length ks))"

lemma task_walk_suffix:
  assumes "task_ring next_task (ks @ k # rest)" "hd (ks @ k # rest) = init_task"
  shows "task_walk next_task tasks init_task k out = Some (out @ map (task_line tasks) (k # rest))"
  using assms
proof (induction rest arbitrary: ks k out)
  case Nil
  let ?ks = "ks @ [k]"
  have "\<forall>i < length ?ks. next_task (?ks ! i) = ?ks ! (Suc i mod length ?ks)"
    using Nil(1) unfolding task_ring_def by blast
  from this [rule_format, of "length ks"] have "next_task k = ?ks ! 0" by simp
  then have "next_task k = init_task" using Nil(2) by (simp add: hd_conv_nth)
  then show ?case by (subst task_walk.simps) (simp add: Let_def)
next
  case (Cons r rest)
  let ?ks = "ks @ k # r # rest"
  have ring: "\<forall>i < length ?ks. next_task (?ks ! i) = ?ks ! (Suc i mod length ?ks)" "distinct ?ks"
    using Cons.prems(1) unfolding task_ring_def by blast+
  from ring(1) [rule_format, of "length ks"] have "next_task k = r" by (simp add: nth_append)
  moreover have "r \<noteq> init_task" using Cons.prems(2) ring(2) by (cases ks) auto
  moreover have "task_walk next_task tasks init_task r (out @ [task_line tasks k])
      = Some ((out @ [task_line tasks k]) @ map (task_line tasks) (r # rest))"
    using Cons.IH [of "ks @ [k]" r "out @ [task_line tasks k]"] Cons.prems by simp
  ultimately show ?case by (subst task_walk.simps) (simp add: Let_def)
qed

section \<open>Properties\<close>

text \<open>
  Loading the module ends: when the tasks form a ring through \<open>init_task\<close>, the loop returns, every task
  has been printed exactly once in the order of the ring, starting with \<open>init_task\<close>, the current task
  follows, and the result is 0.
\<close>

lemma task_list_printed_once:
  assumes "task_ring next_task (init_task # ks)"
  shows "task_mod_init next_task tasks init_task current =
    Some (0, map (task_line tasks) (init_task # ks) @ [task_line tasks current])"
  using task_walk_suffix [of next_task "[]" init_task ks init_task tasks "[]"] assms
  by (simp add: task_mod_init_def)

lemma task_list_printed_once_witness:
  "map_option (map hd \<circ> snd) (task_mod_init (\<lambda>k. Suc k mod 3)
     (\<lambda>k. (undefined :: task_struct)\<lparr>ta_comm := [''swapper'', ''init'', ''kthreadd''] ! k\<rparr>) 0 1)
   = Some [TStr ''swapper'', TStr ''init'', TStr ''kthreadd'', TStr ''init'']"
proof -
  have "task_ring (\<lambda>k. Suc k mod 3) (0 # [1, 2])"
    by (auto simp: task_ring_def less_Suc_eq nth_Cons')
  from task_list_printed_once [OF this] show ?thesis by (simp add: task_line_def Let_def)
qed

end
