(* ===== verification/Exec_Lab.thy ===== *)
theory Exec_Lab
  imports Unix_Labs
begin

text \<open>
  \<open>exec.c\<close> and \<open>fork.c\<close> of \<open>lab_02_unix\<close>: the parent that starts the two programs of that directory and
  reports how they ended, and the parent that leaves its children behind.
\<close>

section \<open>exec.c\<close>

text \<open>
  A child: \<open>execl\<close> replaces it by one of the programs, which reads \<open>input\<close>; if the program is not
  found the child ends with 1.  \<open>g\<close> is the uninitialised array of the second program; \<open>None\<close> is undefined.
\<close>

definition exec_child :: "nat \<Rightarrow> bool \<Rightarrow> int list \<Rightarrow> string \<Rightarrow> (int \<times> string) option" where
  "exec_child i found g input = (if \<not> found then Some (1, [])
     else if i = 0 then first_prog_main input else second_prog_main g input)"

text \<open>What \<open>wait\<close> returns for a child that ended with the given return value.\<close>

definition child_status :: "int \<Rightarrow> (int \<times> string) option \<Rightarrow> (int \<times> c_int) option" where
  "child_status pid r = map_option (\<lambda>(code, _). (pid, wait_status (Exited (word_of_int code)))) r"

text \<open>
  \<open>main\<close>: the results of the two forks, the results of the children and the order in which they end.
\<close>

definition exec_main :: "int list \<Rightarrow> (nat \<Rightarrow> (int \<times> string) option) \<Rightarrow> nat list \<Rightarrow> int \<times> (int \<times> report) list" where
  "exec_main forks child order = (case fork_loop 2 forks [] of
     Inl _ \<Rightarrow> (1, [])
   | Inr pids \<Rightarrow> wait_loop 2 (map (\<lambda>i. child_status (pids ! i) (child i)) order) [])"

section \<open>fork.c\<close>

text \<open>
  The lines of the children before and after \<open>sleep(2)\<close>, and of the parent, which does not wait:
  a child whose parent has ended belongs to \<open>reaper\<close>.
\<close>

datatype fork_line = Child_line int int | Parent_line int "int list"

definition fork_child :: "int \<Rightarrow> int \<Rightarrow> int \<Rightarrow> bool \<times> bool \<Rightarrow> fork_line list" where
  "fork_child parent reaper pid alive =
     [Child_line pid (if fst alive then parent else reaper), Child_line pid (if snd alive then parent else reaper)]"

definition fork_main :: "int \<Rightarrow> int list \<Rightarrow> int \<times> fork_line list" where
  "fork_main parent forks = (case fork_loop 2 forks [] of Inl _ \<Rightarrow> (1, []) | Inr pids \<Rightarrow> (0, [Parent_line parent pids]))"

section \<open>Properties\<close>

lemma first_prog_code: "first_prog_main input = Some (code, out) \<Longrightarrow> code = 0 \<or> code = 1"
  by (auto simp: first_prog_main_def split: option.splits prod.splits field.splits if_splits)

lemma second_prog_code: "second_prog_main g input = Some (code, out) \<Longrightarrow> code = 0 \<or> code = 1"
  by (auto simp: second_prog_main_def split: option.splits prod.splits field.splits if_splits)

text \<open>
  The parent reports the return value of each program, in the order in which they end, and ends
  with 0: a program that is not found is reported like one that ended with 1.
\<close>

lemma exec_main_reports:
  assumes "p0 \<noteq> -1" "p1 \<noteq> -1" "\<And>i. i < 2 \<Longrightarrow> exec_child i (found i) g (input i) = Some (code i, out i)"
    "order \<in> {[0, 1], [1, 0]}"
  shows "exec_main [p0, p1] (\<lambda>i. exec_child i (found i) g (input i)) order =
      (0, map (\<lambda>i. ([p0, p1] ! i, ReportExited (word_of_int (code i)))) order) \<and>
    (\<forall>i < 2. code i \<in> {0, 1} \<and> (\<not> found i \<longrightarrow> code i = 1))"
proof -
  have code: "code i \<in> {0, 1} \<and> (\<not> found i \<longrightarrow> code i = 1)" if "i < 2" for i
    using assms(3) [OF that] first_prog_code second_prog_code by (auto simp: exec_child_def split: if_splits)
  have rep: "wait_report (wait_status (Exited (word_of_int (code i)))) = ReportExited (word_of_int (code i))" if "i < 2" for i
    using code [OF that] by (intro report_exited) auto
  have "exec_main [p0, p1] (\<lambda>i. exec_child i (found i) g (input i)) order =
      (0, map (\<lambda>i. ([p0, p1] ! i, ReportExited (word_of_int (code i)))) order)"
    using assms rep [of 0] rep [of 1]
    by (auto simp: exec_main_def numeral_2_eq_2 child_status_def)
  then show ?thesis using code by blast
qed

end
