(* ===== verification/Vfs_Mount.thy ===== *)
theory Vfs_Mount
  imports Vfs_Module "HOL-Library.Word"
begin

text \<open>
  Mounting the file systems of \<open>lab_vfs\<close>: the super block and the root inode each module builds, its mount and
  unmount callbacks with the lines they print, and loading and unloading of \<open>myfs.c\<close> with its messages.
  Kernel functions (\<open>new_inode\<close>, \<open>d_make_root\<close>, \<open>mount_nodev\<close>, \<open>get_tree_nodev\<close>, \<open>kill_anon_super\<close>) are parameters.
\<close>

unbundle bit_operations_syntax

section \<open>Data\<close>

record vinode =
  i_ino :: int
  i_mode :: "16 word"
  i_size :: int
  i_times :: "int \<times> int \<times> int"
  i_nlink :: nat
  i_dir_ops :: bool

record vsuper =
  s_blocksize :: int
  s_blocksize_bits :: nat
  s_magic :: "64 word"
  s_op :: "string list"
  s_time_gran :: nat
  s_root :: "vinode option"

definition S_IFDIR :: "16 word" where "S_IFDIR = 0x4000"
definition PAGE_SHIFT :: nat where "PAGE_SHIFT = 12"
definition VFS_PAGE_SIZE :: int where "VFS_PAGE_SIZE = 4096"
definition VFS_MAGIC :: "64 word" where "VFS_MAGIC = 0xB16B00B5"
definition MYFS_MAGIC_NUMBER :: "64 word" where "MYFS_MAGIC_NUMBER = 0x13131313"

definition dir_mode :: "16 word" where "dir_mode = S_IFDIR OR 0x1ED"

text \<open>The callbacks of the three \<open>super_operations\<close> tables.\<close>

definition myvfs_super_operations :: "string list" where
  "myvfs_super_operations = [''put_super'', ''statfs'', ''drop_inode'']"

definition myfs_super_ops :: "string list" where
  "myfs_super_ops = [''put_super'', ''statfs'']"

definition myfs2_super_ops :: "string list" where
  "myfs2_super_ops = [''put_super'', ''statfs'', ''drop_inode'']"

definition fill_common :: "64 word \<Rightarrow> string list \<Rightarrow> vsuper \<Rightarrow> vsuper" where
  "fill_common magic ops sb = sb\<lparr>s_blocksize := VFS_PAGE_SIZE, s_blocksize_bits := PAGE_SHIFT, s_magic := magic,
     s_op := ops, s_time_gran := 1\<rparr>"

section \<open>Filling the super block\<close>

text \<open>
  \<open>new\<close> is what \<open>new_inode\<close> returns, with one reference; \<open>make_root r\<close> is \<open>d_make_root\<close> called by the holder of \<open>r\<close>
  references, giving success and the references left.  The result: the return value, the super block, the
  references accounted for, the lines printed.
\<close>

type_synonym fill_result = "int \<times> vsuper \<times> int \<times> string list"

definition my_vfs_make_inode :: "vinode option \<Rightarrow> int \<Rightarrow> 16 word \<Rightarrow> vinode option" where
  "my_vfs_make_inode new now mode = (case new of None \<Rightarrow> None
     | Some ino \<Rightarrow> Some (ino\<lparr>i_mode := mode, i_size := VFS_PAGE_SIZE, i_times := (now, now, now), i_ino := 1\<rparr>))"

definition fill_main :: "(int \<Rightarrow> bool \<times> int) \<Rightarrow> vinode option \<Rightarrow> int \<Rightarrow> vsuper \<Rightarrow> fill_result" where
  "fill_main make_root new now sb =
     (let sb1 = fill_common VFS_MAGIC myvfs_super_operations sb; l = [''call myvfs_fill_super''] in
      case my_vfs_make_inode new now dir_mode of
        None \<Rightarrow> (vfs_ENOMEM, sb1, 0, l @ [''my_vfs_make_inode error''])
      | Some ino \<Rightarrow>
          (let ino1 = ino\<lparr>i_dir_ops := True, i_nlink := 2\<rparr> in
           case make_root 1 of (ok, refs) \<Rightarrow>
             if \<not> ok then (vfs_ENOMEM, sb1\<lparr>s_root := None\<rparr>, refs - 1, l @ [''ERR: d_make_root''])
             else (0, sb1\<lparr>s_root := Some ino1\<rparr>, refs, l)))"

definition root_inode :: "int \<Rightarrow> vinode \<Rightarrow> vinode" where
  "root_inode now ino = ino\<lparr>i_ino := 1, i_mode := dir_mode, i_times := (now, now, now), i_dir_ops := True\<rparr>"

definition fill_my_vfs :: "(int \<Rightarrow> bool \<times> int) \<Rightarrow> vinode option \<Rightarrow> int \<Rightarrow> vsuper \<Rightarrow> fill_result" where
  "fill_my_vfs make_root new now sb =
     (let sb1 = fill_common MYFS_MAGIC_NUMBER myfs_super_ops sb; l = [''call myfs_fill_sb'', ''new_inode''] in
      case new of
        None \<Rightarrow> (vfs_ENOMEM, sb1, 0, l @ [''new_inode error''])
      | Some ino \<Rightarrow>
          (let ino1 = root_inode now ino; l1 = l @ [''simple_inode_init_ts'', ''d_make_root''] in
           case make_root 1 of (ok, refs) \<Rightarrow>
             if \<not> ok then (vfs_ENOMEM, sb1, refs, l1 @ [''d_make_root error''])
             else (0, sb1\<lparr>s_root := Some ino1\<rparr>, refs, l1 @ [''VFS root created'', ''super_block init''])))"

definition fill_myfs :: "(int \<Rightarrow> bool \<times> int) \<Rightarrow> vinode option \<Rightarrow> int \<Rightarrow> vsuper \<Rightarrow> fill_result" where
  "fill_myfs make_root new now sb =
     (let sb1 = fill_common MYFS_MAGIC_NUMBER myfs2_super_ops sb; l = [''new_inode''] in
      case new of
        None \<Rightarrow> (vfs_ENOMEM, sb1, 0, l @ [''new_inode error''])
      | Some ino \<Rightarrow>
          (let ino1 = root_inode now ino; l1 = l @ [''simple_inode_init_ts'', ''d_make_root''] in
           case make_root 1 of (ok, refs) \<Rightarrow>
             if \<not> ok then (vfs_ENOMEM, sb1, refs - 1, l1 @ [''d_make_root error'', ''iput''])
             else (0, sb1\<lparr>s_root := Some ino1\<rparr>, refs, l1 @ [''VFS root created'', ''super_block init''])))"

section \<open>Mounting and unmounting\<close>

text \<open>
  \<open>mount_nodev\<close> makes a super block, lets \<open>fill\<close> fill it and gives an error pointer or the root.
  \<open>get_tree_nodev\<close> does the same and gives a negative value on error.
\<close>

type_synonym fill_fun = "vsuper \<Rightarrow> fill_result"

definition myvfs_mount :: "(fill_fun \<Rightarrow> (int + vinode) \<times> string list) \<Rightarrow> fill_fun \<Rightarrow> (int + vinode) \<times> string list" where
  "myvfs_mount mount_nodev fill = (case mount_nodev fill of (entry, l) \<Rightarrow>
     (entry, l @ [if isl entry then ''mounting failed'' else ''mounted'']))"

definition myfs_mount :: "(fill_fun \<Rightarrow> (int + vinode) \<times> string list) \<Rightarrow> fill_fun \<Rightarrow> (int + vinode) \<times> string list" where
  "myfs_mount mount_nodev fill = (case mount_nodev fill of (entry, l) \<Rightarrow>
     (entry, l @ [if isl entry then ''mount error'' else ''mount'']))"

definition myfs_get_tree :: "(fill_fun \<Rightarrow> (int + vinode) \<times> string list) \<Rightarrow> fill_fun \<Rightarrow> (int + vinode) \<times> string list" where
  "myfs_get_tree get_tree_nodev fill = (case get_tree_nodev fill of (r, l) \<Rightarrow>
     (r, ''get_tree'' # l @ [case r of Inl e \<Rightarrow> if e < 0 then ''get_tree error'' else ''mount'' | Inr _ \<Rightarrow> ''mount'']))"

definition myfs_put_super :: "string list" where
  "myfs_put_super = [''super block destroyed'', ''put_super'']"

text \<open>\<open>kill_anon_super put\<close> gives the lines printed while it runs, \<open>put\<close> being those of the callback.\<close>

definition myfs_kill_super :: "(string list \<Rightarrow> string list) \<Rightarrow> string list" where
  "myfs_kill_super kill_anon_super = ''kill_super'' # kill_anon_super myfs_put_super @ [''super block destroyed'']"

definition myvfs_kill_super :: "(string list \<Rightarrow> string list) \<Rightarrow> string list" where
  "myvfs_kill_super kill_anon_super = ''call myvfs_kill_super'' # kill_anon_super [''myfs_put_super'']"

section \<open>Loading and unloading \<open>myfs.c\<close>\<close>

definition myfs2_init :: "int \<Rightarrow> bool \<Rightarrow> bool \<Rightarrow> bool list \<Rightarrow> int \<times> vfs_res list \<times> nat option list \<times> string list" where
  "myfs2_init reg kmalloc_ok cache_ok oks =
     (let l = [''register_filesystem call''] in
      if reg \<noteq> 0 then (reg, [], replicate 256 None, l @ [''register_filesystem error''])
      else let l1 = l @ [''register_filesystem''] in
      if \<not> kmalloc_ok then (vfs_ENOMEM, [FsType], replicate 256 None, l1 @ [''cache_mem_area error''])
      else let l2 = l1 @ [''kmalloc''] in
      if \<not> cache_ok then (vfs_ENOMEM, [FsType], replicate 256 None, l2 @ [''kmem_cache_create error'', ''kfree''])
      else (0, [FsType, CacheMem, SlabCache], myfs_alloc oks,
        l2 @ [''kmem_cache_create''] @ replicate (count_list (take 256 oks) False) ''kmem_cache_alloc error'' @
        [''kmem_cache_alloc'', ''register_filesystem'', ''loaded'', ''register_filesystem'']))"

definition myfs2_exit :: "nat option list \<Rightarrow> int \<Rightarrow> vfs_res list \<Rightarrow> (vfs_res list \<times> nat list \<times> string list) outcome" where
  "myfs2_exit tmp unreg held = (case myfs_exit_frees tmp of
      Cont freed \<Rightarrow> Cont (minus_all held ([SlabCache, CacheMem] @ (if unreg = 0 then [FsType] else [])), freed,
        [''kmem_cache_free'', ''kmem_cache_destroy'', ''kfree'',
         if unreg \<noteq> 0 then ''unregister_filesystem error'' else ''unregister_filesystem'', ''unloaded''])
    | Blocked \<Rightarrow> Blocked | Exit c \<Rightarrow> Exit c | UB \<Rightarrow> UB)"

text \<open>The constructor of the slab objects in \<open>main.c\<close>: an address cut to 32 bits.\<close>

definition f_init :: "64 word \<Rightarrow> 32 word" where
  "f_init p = ucast p"

section \<open>Properties\<close>

text \<open>The reference counts are those of the two functions of \<open>Vfs_Module\<close>; \<open>myfs.c\<close> has the second \<open>iput\<close> of \<open>main.c\<close>.\<close>

lemma fill_refs:
  "(case fill_main mr new now sb of (ret, sb', refs, l) \<Rightarrow> (ret, refs)) = myvfs_fill_super (new \<noteq> None) mr"
  "(case fill_my_vfs mr new now sb of (ret, sb', refs, l) \<Rightarrow> (ret, refs)) = myfs_fill_sb (new \<noteq> None) mr"
  "(case fill_myfs mr new now sb of (ret, sb', refs, l) \<Rightarrow> (ret, refs)) = myvfs_fill_super (new \<noteq> None) mr"
  by (auto simp: fill_main_def fill_my_vfs_def fill_myfs_def myvfs_fill_super_def myfs_fill_sb_def my_vfs_make_inode_def Let_def
      split: option.splits prod.splits)

lemma dir_mode_eval: "dir_mode = 0x41ED"
  by (simp add: dir_mode_def S_IFDIR_def)

text \<open>
  Mounting, with \<open>mount_nodev\<close> and \<open>get_tree_nodev\<close> filling a fresh super block and giving the error of the fill
  function or the root it installed.  When an inode and a root can be made, all three modules give a root
  directory with inode number 1 and mode 040755; \<open>myfs.c\<close> and \<open>my_vfs.c\<close>, written for different mount
  interfaces, give the same root, and only \<open>main.c\<close> sets the link count to 2.  Otherwise all three fail with
  \<open>-ENOMEM\<close> and report it.
\<close>

lemma vfs_mounts_agree:
  fixes make_root :: "int \<Rightarrow> bool \<times> int" and new :: "vinode option" and now :: int
  assumes law: "\<And>fill. mount_nodev fill = (case fill sb0 of (ret, sb, refs, l) \<Rightarrow> (if ret \<noteq> 0 then Inl ret else Inr (the (s_root sb)), l))"
  defines "a \<equiv> myvfs_mount mount_nodev (fill_main make_root new now)"
    and "b \<equiv> myfs_get_tree mount_nodev (fill_my_vfs make_root new now)"
    and "c \<equiv> myfs_mount mount_nodev (fill_myfs make_root new now)"
  shows "fst b = fst c \<and>
    (\<forall>ino. new = Some ino \<and> fst (make_root 1) \<longrightarrow>
       (\<exists>r q. fst a = Inr r \<and> fst b = Inr q \<and> i_ino r = 1 \<and> i_ino q = 1 \<and> i_mode r = 0x41ED \<and> i_mode q = 0x41ED \<and>
          i_dir_ops r \<and> i_dir_ops q \<and> i_nlink r = 2 \<and> i_nlink q = i_nlink ino \<and>
          last (snd a) = ''mounted'' \<and> last (snd b) = ''mount'' \<and> last (snd c) = ''mount'')) \<and>
    (new = None \<or> \<not> fst (make_root 1) \<longrightarrow> fst a = Inl (-12) \<and> fst b = Inl (-12) \<and>
       last (snd a) = ''mounting failed'' \<and> last (snd b) = ''get_tree error'' \<and> last (snd c) = ''mount error'')"
  unfolding a_def b_def c_def
  by (cases new; cases "make_root 1")
    (auto simp: law myvfs_mount_def myfs_get_tree_def myfs_mount_def fill_main_def fill_my_vfs_def fill_myfs_def my_vfs_make_inode_def
      root_inode_def dir_mode_eval vfs_ENOMEM_def Let_def)

definition demo_nodev :: "fill_fun \<Rightarrow> (int + vinode) \<times> string list" where
  "demo_nodev fill = (case fill \<lparr>s_blocksize = 0, s_blocksize_bits = 0, s_magic = 0, s_op = [], s_time_gran = 0, s_root = None\<rparr> of
     (ret, sb, refs, l) \<Rightarrow> (if ret \<noteq> 0 then Inl ret else Inr (the (s_root sb)), l))"

lemma vfs_mounts_agree_witness:
  "last (snd (myfs_get_tree demo_nodev (fill_my_vfs (\<lambda>r. (False, r - 1)) None 5))) = ''get_tree error''"
  using vfs_mounts_agree [where mount_nodev = demo_nodev and make_root = "\<lambda>r. (False, r - 1)" and new = None and now = 5, OF demo_nodev_def] by blast

text \<open>
  \<open>myfs.c\<close> loads to the state its script gives, whichever call fails first, so it also leaves the file system
  registered on an error; unloading after a complete load frees the 256 objects and leaves nothing.
\<close>

lemma myfs2_load_unload:
  "fst (myfs2_init vfs_EBUSY km kc oks) = fst (run_script [False] myfs_init [])"
  "(case myfs2_init 0 km kc oks of (ret, held, tmp, l) \<Rightarrow> (ret, held)) = run_script [True, km, kc] myfs_init []"
  "False \<notin> set (take 256 oks) \<Longrightarrow> (case myfs2_init 0 True True oks of (ret, held, tmp, l) \<Rightarrow>
     (case myfs2_exit tmp 0 held of Cont (held', freed, l') \<Rightarrow> held' = [] \<and> freed = [0..<256] | _ \<Rightarrow> False))"
proof -
  show "fst (myfs2_init vfs_EBUSY km kc oks) = fst (run_script [False] myfs_init [])"
    by (simp add: myfs2_init_def myfs_init_def vfs_EBUSY_def)
  show "(case myfs2_init 0 km kc oks of (ret, held, tmp, l) \<Rightarrow> (ret, held)) = run_script [True, km, kc] myfs_init []"
    by (simp add: myfs2_init_def myfs_init_def minus_all_def Let_def)
  assume "False \<notin> set (take 256 oks)"
  then have all: "i < length oks \<longrightarrow> oks ! i" if "i < 256" for i using that by (auto simp: in_set_conv_nth)
  then have "myfs_alloc oks = map Some [0..<256]" by (auto simp: myfs_alloc_def)
  then show "case myfs2_init 0 True True oks of (ret, held, tmp, l) \<Rightarrow>
     (case myfs2_exit tmp 0 held of Cont (held', freed, l') \<Rightarrow> held' = [] \<and> freed = [0..<256] | _ \<Rightarrow> False)"
    by (simp add: myfs2_init_def myfs2_exit_def myfs_exit_frees_def list_all_iff minus_all_def Let_def o_def take_map)
qed

text \<open>\<open>kill_anon_super\<close> runs the \<open>put_super\<close> callback of a mounted file system: \<open>my_vfs.c\<close> reports the destruction twice.\<close>

lemma my_vfs_reports_twice:
  assumes "\<And>put. kill_anon_super put = put"
  shows "count_list (myfs_kill_super kill_anon_super) ''super block destroyed'' = 2"
  by (simp add: myfs_kill_super_def myfs_put_super_def assms)

text \<open>The constructor keeps only the low half of an address: objects 4 GiB apart get the same value.\<close>

lemma f_init_low_half: "uint (f_init p) = uint p mod 4294967296"
  by (simp add: f_init_def unsigned_ucast_eq take_bit_eq_mod)

end
