(* ===== verification/Bakery_Pid.thy ===== *)
theory Bakery_Pid
  imports Bakery_Array
begin

text \<open>
  The RPC bakery of \<open>sem_05/rpc/bakery_2\<close>: tickets are drawn under a mutex and stored in a slot chosen by the client's
  process number; the service procedure waits until no other slot comes first.  As in its \<open>bakery_svc.c\<close>,
  the dispatcher starts a thread for every registration and runs the service procedure itself; the registration
  threads interleave between two evaluations of the loop condition.
  The last section holds the client of \<open>for-review/bakery_3\<close> and its session with that server.
\<close>

section \<open>Server\<close>

text \<open>
  \<open>bp_pending\<close> are the arguments of the started registration threads, \<open>bp_main\<close> is the dispatcher's thread: idle, or in
  \<open>result_proc_1_svc\<close> for a slot at the index the loop has come to.  \<open>bp_served\<close> records the slots
  served.
\<close>

datatype bp_dispatcher = Bp_idle | Bp_wait nat nat

record bp =
  bp_numbers :: "int list"
  bp_ticket :: int
  bp_pending :: "int list"
  bp_main :: bp_dispatcher
  bp_served :: "nat list"

definition bp_boot :: bp where
  "bp_boot = \<lparr>bp_numbers = replicate MAX_CLIENTS 0, bp_ticket = 0, bp_pending = [], bp_main = Bp_idle, bp_served = []\<rparr>"

text \<open>
  \<open>register_proc_1_svc\<close>: a negative argument gives a negative index, and the increment overflows at
  \<open>INT_MAX\<close>.  The value sent is read through the address of a dead local variable: it is not part of the state.
\<close>

definition bp_slot :: "int \<Rightarrow> int" where
  "bp_slot a = c_rem a (int MAX_CLIENTS)"

definition bp_register :: "int \<Rightarrow> bp \<Rightarrow> bp outcome" where
  "bp_register a s =
     (let idx = bp_slot a in
      if idx < 0 \<or> bp_ticket s = 2147483647 then UB
      else Cont (s\<lparr>bp_ticket := bp_ticket s + 1, bp_numbers := (bp_numbers s)[nat idx := bp_ticket s + 1]\<rparr>))"

text \<open>
  The dispatcher on a request, with procedures 1 and 2 for its \<open>GET_NUMBER\<close> and \<open>BAKERY_SERVICE\<close>.  The argument of the service procedure is not decoded: it
  may be any number.  \<open>pthread_create\<close> never returns -1, so a thread that cannot be started is not noticed.
\<close>

definition bp_prog_1 :: "int \<Rightarrow> int option \<Rightarrow> int \<Rightarrow> bool \<Rightarrow> bool \<Rightarrow> bp \<Rightarrow> bp outcome" where
  "bp_prog_1 proc decoded stack malloc_ok create_ok s =
     (if proc = 1 then
        (if \<not> malloc_ok then Exit 1
         else case decoded of
            None \<Rightarrow> Cont s
          | Some a \<Rightarrow> Cont (if create_ok then s\<lparr>bp_pending := bp_pending s @ [a]\<rparr> else s))
      else if proc = 2 then (if nb_index stack then Cont (s\<lparr>bp_main := Bp_wait (nat stack) 0\<rparr>) else UB)
      else Cont s)"

text \<open>A registration thread runs and answers.\<close>

definition bp_worker :: "nat \<Rightarrow> bool \<Rightarrow> bp \<Rightarrow> bp outcome" where
  "bp_worker k free_ok s =
     (if length (bp_pending s) \<le> k then Blocked
      else case bp_register (bp_pending s ! k) s of
          Cont s1 \<Rightarrow> if free_ok then Cont (s1\<lparr>bp_pending := take k (bp_pending s) @ drop (Suc k) (bp_pending s)\<rparr>) else Exit 1
        | Blocked \<Rightarrow> Blocked | Exit c \<Rightarrow> Exit c | UB \<Rightarrow> UB)"

text \<open>\<open>result_proc_1_svc\<close>: one evaluation of the condition of line 47, or the end of the loop and the reply.\<close>

definition bp_eval :: "bool \<Rightarrow> bp \<Rightarrow> bp outcome" where
  "bp_eval free_ok s = (case bp_main s of
       Bp_idle \<Rightarrow> Blocked
     | Bp_wait j i \<Rightarrow>
         if i < MAX_CLIENTS then
           (if nb_before (bp_numbers s) i j then Cont s else Cont (s\<lparr>bp_main := Bp_wait j (Suc i)\<rparr>))
         else if free_ok then Cont (s\<lparr>bp_numbers := (bp_numbers s)[j := 0], bp_main := Bp_idle, bp_served := bp_served s @ [j]\<rparr>)
         else Exit 1)"

datatype bp_event = Bp_request int "int option" int bool bool | Bp_worker nat bool | Bp_eval bool

fun bp_act :: "bp_event \<Rightarrow> bp \<Rightarrow> bp outcome" where
  "bp_act (Bp_request proc decoded stack m c) s = (if bp_main s = Bp_idle then bp_prog_1 proc decoded stack m c s else Blocked)"
| "bp_act (Bp_worker k fr) s = bp_worker k fr s"
| "bp_act (Bp_eval fr) s = bp_eval fr s"

definition bp_exec :: "bp_event \<Rightarrow> bp \<Rightarrow> bp option" where
  "bp_exec e s = (case bp_act e s of Cont s' \<Rightarrow> Some s' | _ \<Rightarrow> None)"

inductive bp_step :: "bp \<Rightarrow> bp \<Rightarrow> bool" where
  act: "bp_act e s = Cont s' \<Longrightarrow> bp_step s s'"

inductive_cases bp_stepE: "bp_step s s'"

interpretation bp_sched: scheduler bp_exec bp_step bp_boot
  by unfold_locales (auto simp: bp_exec_def split: outcome.splits intro: bp_step.act)

section \<open>Client\<close>

text \<open>
  One iteration: the two results, \<open>None\<close> for a failed call, whose null pointer is reported and then read.
\<close>

definition bpc_iter :: "int option \<Rightarrow> int option \<Rightarrow> (int \<times> int) outcome" where
  "bpc_iter r1 r2 = (case r1 of None \<Rightarrow> UB | Some n \<Rightarrow> (case r2 of None \<Rightarrow> UB | Some t \<Rightarrow> Cont (n, t)))"

fun rpc_loop :: "('a \<Rightarrow> 'l outcome) \<Rightarrow> ('a \<times> bool) list \<Rightarrow> bool \<Rightarrow> 'l list \<Rightarrow> 'l list outcome" where
  "rpc_loop iter [] flag out = (if flag then Blocked else Cont out)"
| "rpc_loop iter ((r, sigint) # its) flag out = (if \<not> flag then Cont out
     else (case iter r of
        Cont l \<Rightarrow> rpc_loop iter its (\<not> sigint) (out @ [l]) | Blocked \<Rightarrow> Blocked | Exit c \<Rightarrow> Exit c | UB \<Rightarrow> UB))"

definition bpc_main :: "int \<Rightarrow> bool \<Rightarrow> bool \<Rightarrow> ((int option \<times> int option) \<times> bool) list \<Rightarrow> (int \<times> int) list outcome" where
  "bpc_main argc signal_ok created its =
     (if argc < 2 then Exit 1 else if \<not> signal_ok then Exit 1 else if \<not> created then Exit 1
      else rpc_loop (\<lambda>(r1, r2). bpc_iter r1 r2) its True [])"

text \<open>The client of \<open>bakery (2)\<close> has the same shape; its results are never the pointer -1, for which its inner loops wait.\<close>

definition b2_client_main :: "int \<Rightarrow> bool \<Rightarrow> bool \<Rightarrow> ((int option \<times> 64 word option) \<times> bool) list \<Rightarrow> (int \<times> 64 word) list outcome" where
  "b2_client_main argc signal_ok created its =
     (if argc < 2 then Exit 1 else if \<not> signal_ok then Exit 1 else if \<not> created then Exit 1
      else rpc_loop (\<lambda>(number, time). b2_client_iter number time) its True [])"

section \<open>Invariant\<close>

text \<open>Numbers are tickets already drawn, and distinct; the wait has passed only slots that do not come before its own.\<close>

definition bp_inv :: "bp \<Rightarrow> bool" where
  "bp_inv s \<longleftrightarrow> length (bp_numbers s) = MAX_CLIENTS \<and> 0 \<le> bp_ticket s \<and>
     (\<forall>n \<in> set (bp_numbers s). 0 \<le> n \<and> n \<le> bp_ticket s) \<and>
     (\<forall>i < MAX_CLIENTS. \<forall>k < MAX_CLIENTS. i \<noteq> k \<longrightarrow> bp_numbers s ! i \<noteq> 0 \<longrightarrow> bp_numbers s ! i \<noteq> bp_numbers s ! k) \<and>
     (\<forall>j i. bp_main s = Bp_wait j i \<longrightarrow> j < MAX_CLIENTS \<and> i \<le> MAX_CLIENTS)"

lemma bp_inv_boot: "bp_inv bp_boot"
  by (simp add: bp_inv_def bp_boot_def)

lemma bp_slot_below: "\<not> bp_slot a < 0 \<Longrightarrow> nat (bp_slot a) < MAX_CLIENTS"
  by (simp add: bp_slot_def c_rem_def MAX_CLIENTS_def split: if_splits)

lemma bp_inv_register:
  assumes "bp_inv s" "idx < MAX_CLIENTS"
  shows "bp_inv (s\<lparr>bp_ticket := bp_ticket s + 1, bp_numbers := (bp_numbers s)[idx := bp_ticket s + 1]\<rparr>)"
proof -
  let ?n = "bp_numbers s" and ?n' = "(bp_numbers s)[idx := bp_ticket s + 1]"
  have inv: "length ?n = MAX_CLIENTS" "\<And>i. i < MAX_CLIENTS \<Longrightarrow> 0 \<le> ?n ! i \<and> ?n ! i \<le> bp_ticket s"
    using assms(1) by (simp_all add: bp_inv_def)
  have "\<forall>n \<in> set ?n'. 0 \<le> n \<and> n \<le> bp_ticket s + 1"
    using assms(1) set_update_subset_insert [of ?n idx "bp_ticket s + 1"] by (force simp: bp_inv_def)
  moreover have "i \<noteq> k \<longrightarrow> ?n' ! i \<noteq> 0 \<longrightarrow> ?n' ! i \<noteq> ?n' ! k" if "i < MAX_CLIENTS" "k < MAX_CLIENTS" for i k
  proof -
    have "i \<noteq> k \<longrightarrow> ?n ! i \<noteq> 0 \<longrightarrow> ?n ! i \<noteq> ?n ! k" using that assms(1) by (simp add: bp_inv_def)
    then show ?thesis using that assms(2) inv(1) inv(2) [of i] inv(2) [of k] by (auto simp: nth_list_update)
  qed
  ultimately show ?thesis using assms(1) by (simp add: bp_inv_def)
qed

lemma bp_inv_finish:
  assumes "bp_inv s" "j < MAX_CLIENTS"
  shows "bp_inv (s\<lparr>bp_numbers := (bp_numbers s)[j := 0], bp_main := Bp_idle, bp_served := bp_served s @ [j]\<rparr>)"
proof -
  let ?n = "bp_numbers s" and ?n' = "(bp_numbers s)[j := 0]"
  have "\<forall>n \<in> set ?n'. 0 \<le> n \<and> n \<le> bp_ticket s"
    using assms(1) set_update_subset_insert [of ?n j 0] by (force simp: bp_inv_def)
  moreover have "i \<noteq> k \<longrightarrow> ?n' ! i \<noteq> 0 \<longrightarrow> ?n' ! i \<noteq> ?n' ! k" if "i < MAX_CLIENTS" "k < MAX_CLIENTS" for i k
    using that assms by (auto simp: bp_inv_def nth_list_update)
  ultimately show ?thesis using assms by (simp add: bp_inv_def)
qed

lemma bp_inv_other: "bp_inv s \<Longrightarrow> bp_inv (s\<lparr>bp_pending := ps\<rparr>)"
  by (simp add: bp_inv_def)

lemma bp_inv_main: "bp_inv s \<Longrightarrow> j < MAX_CLIENTS \<Longrightarrow> i \<le> MAX_CLIENTS \<Longrightarrow> bp_inv (s\<lparr>bp_main := Bp_wait j i\<rparr>)"
  by (simp add: bp_inv_def)

lemma bp_inv_wait: "bp_inv s \<Longrightarrow> bp_main s = Bp_wait j i \<Longrightarrow> j < MAX_CLIENTS \<and> i \<le> MAX_CLIENTS"
  by (simp add: bp_inv_def)

lemma bp_worker_cont:
  assumes "bp_worker k fr s = Cont s'"
  obtains a where "k < length (bp_pending s)" "a = bp_pending s ! k" "0 \<le> bp_slot a" "nat (bp_slot a) < MAX_CLIENTS"
    "s' = s\<lparr>bp_ticket := bp_ticket s + 1, bp_numbers := (bp_numbers s)[nat (bp_slot a) := bp_ticket s + 1],
       bp_pending := take k (bp_pending s) @ drop (Suc k) (bp_pending s)\<rparr>"
  using assms bp_slot_below [of "bp_pending s ! k"]
  by (auto simp: bp_worker_def bp_register_def Let_def split: if_splits)

lemma bp_step_inv:
  assumes "bp_inv s" "bp_step s s'"
  shows "bp_inv s'"
proof -
  obtain e where 1: "bp_act e s = Cont s'" using assms(2) by (auto elim: bp_stepE)
  then show ?thesis
  proof (cases e)
    case (Bp_request proc decoded stack m c)
    then show ?thesis using 1 assms(1)
      by (auto simp: bp_prog_1_def nb_index_def nat_less_iff bp_inv_other bp_inv_main split: if_splits option.splits)
  next
    case (Bp_worker k fr)
    then show ?thesis using 1 bp_inv_other [OF bp_inv_register [OF assms(1)]] by (auto elim!: bp_worker_cont)
  next
    case (Bp_eval fr)
    then have "bp_eval fr s = Cont s'" using 1 by simp
    then show ?thesis using assms(1) bp_inv_wait [OF assms(1)]
      by (auto simp: bp_eval_def bp_inv_main bp_inv_finish split: bp_dispatcher.splits if_splits)
  qed
qed

interpretation bp_sys: invariant_system "\<lambda>s. s = bp_boot" bp_step bp_inv
  by unfold_locales (simp_all add: bp_inv_boot bp_step_inv)

text \<open>A slot without a number never waits: a client that has not registered, or whose number another client of its slot has cleared, is served at once.\<close>

lemma bp_unregistered_never_waits:
  assumes "bp_inv s" "k < MAX_CLIENTS" "bp_numbers s ! j = 0"
  shows "\<not> nb_before (bp_numbers s) k j"
proof -
  have "0 \<le> bp_numbers s ! k" using assms(1,2) by (simp add: bp_inv_def)
  then show ?thesis using assms(3) by (auto simp: nb_before_def)
qed

text \<open>Who comes first: with distinct numbers, nobody comes before the slot with the smallest one.\<close>

lemma bp_minimum:
  assumes "bp_inv s" "j < MAX_CLIENTS"
  shows "(\<forall>k < MAX_CLIENTS. \<not> nb_before (bp_numbers s) k j) \<longleftrightarrow>
    (\<forall>k < MAX_CLIENTS. bp_numbers s ! k \<noteq> 0 \<longrightarrow> bp_numbers s ! j \<le> bp_numbers s ! k)"
proof -
  have "nb_before (bp_numbers s) k j \<longleftrightarrow> bp_numbers s ! k \<noteq> 0 \<and> bp_numbers s ! k < bp_numbers s ! j" if "k < MAX_CLIENTS" for k
    using assms that unfolding bp_inv_def nb_before_def by (metis less_irrefl)
  then show ?thesis by (metis not_le)
qed

section \<open>The wait\<close>

text \<open>
  What the steps leave as it was while the dispatcher waits for \<open>j\<close>, if the threads that are pending
  belong to slots without a number: the numbers that were there, and \<open>j\<close>'s own; the numbers drawn meanwhile are
  larger.
\<close>

definition bp_fresh :: "nat \<Rightarrow> bp \<Rightarrow> bool" where
  "bp_fresh j s \<longleftrightarrow> (\<forall>a \<in> set (bp_pending s). nat (bp_slot a) \<noteq> j \<and> bp_numbers s ! nat (bp_slot a) = 0)"

definition bp_waited :: "nat \<Rightarrow> bp \<Rightarrow> bp \<Rightarrow> bool" where
  "bp_waited j s0 s \<longleftrightarrow> bp_served s = bp_served s0 \<and> set (bp_pending s) \<subseteq> set (bp_pending s0) \<and> bp_inv s \<and>
     bp_numbers s ! j = bp_numbers s0 ! j \<and>
     (\<forall>k < MAX_CLIENTS. bp_numbers s ! k = bp_numbers s0 ! k \<or> bp_numbers s0 ! k = 0 \<and> bp_numbers s0 ! j < bp_numbers s ! k) \<and>
     (\<exists>i. bp_main s = Bp_wait j i \<and> (\<forall>k < i. \<not> nb_before (bp_numbers s0) k j))"

lemma bp_waited_before:
  assumes "bp_waited j s0 s" "bp_inv s0" "k < MAX_CLIENTS" "j < MAX_CLIENTS"
  shows "nb_before (bp_numbers s) k j \<longleftrightarrow> nb_before (bp_numbers s0) k j"
proof -
  have "bp_numbers s ! j = bp_numbers s0 ! j"
    "bp_numbers s ! k = bp_numbers s0 ! k \<or> bp_numbers s0 ! k = 0 \<and> bp_numbers s0 ! j < bp_numbers s ! k"
    using assms by (auto simp: bp_waited_def)
  then show ?thesis by (auto simp: nb_before_def)
qed

lemma bp_waited_step:
  assumes w: "bp_waited j s0 s" and s0: "bp_inv s0" "bp_fresh j s0" "j < MAX_CLIENTS" and st: "bp_step s s'"
  shows "bp_waited j s0 s' \<or> bp_served s' = bp_served s0 @ [j] \<and> (\<forall>k < MAX_CLIENTS. \<not> nb_before (bp_numbers s0) k j)"
proof -
  obtain i where i: "bp_main s = Bp_wait j i" "\<forall>k < i. \<not> nb_before (bp_numbers s0) k j" "bp_inv s" using w by (auto simp: bp_waited_def)
  have le: "i \<le> MAX_CLIENTS" using i(1,3) by (simp add: bp_inv_def)
  have inv: "bp_inv s'" using bp_step_inv [OF i(3) st] .
  from st obtain e where e: "bp_act e s = Cont s'" by (auto elim: bp_stepE)
  show ?thesis
  proof (cases e)
    case (Bp_request proc decoded stack m c)
    then show ?thesis using e i(1) by simp
  next
    case (Bp_worker k fr)
    then obtain a where a: "k < length (bp_pending s)" "a = bp_pending s ! k" "0 \<le> bp_slot a" "nat (bp_slot a) < MAX_CLIENTS"
      "s' = s\<lparr>bp_ticket := bp_ticket s + 1, bp_numbers := (bp_numbers s)[nat (bp_slot a) := bp_ticket s + 1],
         bp_pending := take k (bp_pending s) @ drop (Suc k) (bp_pending s)\<rparr>"
      using e by (auto elim: bp_worker_cont)
    have "a \<in> set (bp_pending s0)" using a(1,2) w by (auto simp: bp_waited_def)
    then have new: "nat (bp_slot a) \<noteq> j" "bp_numbers s0 ! nat (bp_slot a) = 0" using s0(2) by (auto simp: bp_fresh_def)
    have "bp_numbers s ! j \<le> bp_ticket s" "length (bp_numbers s) = MAX_CLIENTS" using i(3) s0(3) by (simp_all add: bp_inv_def)
    then have "bp_waited j s0 s'"
      using w inv a(4,5) new pending_shrinks [of k "bp_pending s"] by (auto simp: bp_waited_def nth_list_update)
    then show ?thesis ..
  next
    case (Bp_eval fr)
    then have ev: "bp_eval fr s = Cont s'" using e by simp
    show ?thesis
    proof (cases "i < MAX_CLIENTS")
      case True
      then have "s' = s \<or> s' = s\<lparr>bp_main := Bp_wait j (Suc i)\<rparr> \<and> \<not> nb_before (bp_numbers s0) i j"
        using ev i(1) bp_waited_before [OF w s0(1) True s0(3)] by (auto simp: bp_eval_def split: if_splits)
      then show ?thesis using w i inv by (auto simp: bp_waited_def less_Suc_eq)
    next
      case False
      then show ?thesis using ev i w le by (auto simp: bp_eval_def bp_waited_def split: if_splits)
    qed
  qed
qed

lemma bp_served_grows: "bp_step s s' \<Longrightarrow> length (bp_served s) \<le> length (bp_served s')"
  by (elim bp_stepE, rename_tac e, case_tac e)
    (auto simp: bp_prog_1_def bp_eval_def split: if_splits option.splits bp_dispatcher.splits elim!: bp_worker_cont)

lemma bp_wait_steps:
  assumes "reach (\<lambda>s. s = s0) bp_step s" "bp_inv s0" "bp_main s0 = Bp_wait j 0" "bp_fresh j s0"
  shows "bp_waited j s0 s \<or> length (bp_served s0) < length (bp_served s) \<and> (\<forall>k < MAX_CLIENTS. \<not> nb_before (bp_numbers s0) k j)"
  using assms(1)
proof (induction rule: reach.induct)
  case (reach_init s)
  then show ?case using assms(2,3) by (auto simp: bp_waited_def)
next
  case (reach_step s t)
  have "j < MAX_CLIENTS" using assms(2,3) by (simp add: bp_inv_def)
  then show ?case
    using reach_step bp_waited_step [of j s0 s t] bp_served_grows [of s t] assms(2,4) by fastforce
qed

text \<open>If nobody comes first, each evaluation of the dispatcher goes on to the next index.\<close>

lemma bp_evals_finish:
  assumes "\<forall>k < MAX_CLIENTS. \<not> nb_before (bp_numbers s) k j" "bp_main s = Bp_wait j i" "i + n = MAX_CLIENTS"
  shows "run_actions bp_exec (replicate (Suc n) (Bp_eval True)) s =
    Some (s\<lparr>bp_numbers := (bp_numbers s)[j := 0], bp_main := Bp_idle, bp_served := bp_served s @ [j]\<rparr>)"
  using assms
proof (induction n arbitrary: s i)
  case (Suc n)
  then have "bp_exec (Bp_eval True) s = Some (s\<lparr>bp_main := Bp_wait j (Suc i)\<rparr>)" by (simp add: bp_exec_def bp_eval_def)
  then show ?case using Suc.IH [of "s\<lparr>bp_main := Bp_wait j (Suc i)\<rparr>" "Suc i"] Suc.prems by simp
qed (simp add: bp_exec_def bp_eval_def)

section \<open>Properties\<close>

text \<open>
  (C25) Whom \<open>bakery_2\<close> serves.  Let the dispatcher enter the waiting loop for slot \<open>j\<close> while the pending registration threads belong
  to slots without a number other than \<open>j\<close>.  If no registered slot has a smaller number, then whatever
  the registration threads do, at any time until \<open>j\<close> is served at most 5001 further evaluations
  of the dispatcher serve it and clear its number.  If some registered slot has a smaller number, the
  dispatcher never leaves the loop in any run and nobody is ever served again.
\<close>

theorem bakery_2_serves_or_hangs:
  assumes "reach (\<lambda>s. s = bp_boot) bp_step s0" "bp_main s0 = Bp_wait j 0"
    and "\<forall>a \<in> set (bp_pending s0). nat (bp_slot a) \<noteq> j \<and> bp_numbers s0 ! nat (bp_slot a) = 0"
    and "reach (\<lambda>s. s = s0) bp_step s"
  shows "if \<forall>k < MAX_CLIENTS. bp_numbers s0 ! k \<noteq> 0 \<longrightarrow> bp_numbers s0 ! j \<le> bp_numbers s0 ! k
    then bp_served s = bp_served s0 \<longrightarrow>
      (\<exists>n s'. n \<le> 5001 \<and> run_actions bp_exec (replicate n (Bp_eval True)) s = Some s' \<and>
        bp_main s' = Bp_idle \<and> bp_served s' = bp_served s0 @ [j] \<and> bp_numbers s' = (bp_numbers s)[j := 0])
    else bp_served s = bp_served s0 \<and> (\<exists>i. bp_main s = Bp_wait j i)"
proof -
  have inv: "bp_inv s0" using assms(1) by (rule bp_sys.reach_inv)
  then have j: "j < MAX_CLIENTS" using assms(2) by (simp add: bp_inv_def)
  have "bp_fresh j s0" using assms(3) by (simp add: bp_fresh_def)
  then have w: "bp_waited j s0 s \<or> length (bp_served s0) < length (bp_served s) \<and> (\<forall>k < MAX_CLIENTS. \<not> nb_before (bp_numbers s0) k j)"
    using bp_wait_steps [OF assms(4) inv assms(2)] by simp
  have "\<exists>n s'. n \<le> 5001 \<and> run_actions bp_exec (replicate n (Bp_eval True)) s = Some s' \<and>
      bp_main s' = Bp_idle \<and> bp_served s' = bp_served s0 @ [j] \<and> bp_numbers s' = (bp_numbers s)[j := 0]"
    if least: "\<forall>k < MAX_CLIENTS. \<not> nb_before (bp_numbers s0) k j" and same: "bp_served s = bp_served s0"
  proof -
    have wj: "bp_waited j s0 s" using w same by simp
    then obtain i where i: "bp_main s = Bp_wait j i" "i \<le> MAX_CLIENTS" by (auto simp: bp_waited_def bp_inv_def)
    have "\<forall>k < MAX_CLIENTS. \<not> nb_before (bp_numbers s) k j" using bp_waited_before [OF wj inv _ j] least by simp
    from bp_evals_finish [OF this i(1), of "MAX_CLIENTS - i"] i(2) same show ?thesis
      by (intro exI [of _ "Suc (MAX_CLIENTS - i)"]) (simp add: MAX_CLIENTS_def)
  qed
  then show ?thesis using bp_minimum [OF inv j] w by (auto simp: bp_waited_def)
qed

text \<open>The clients of the processes 7 and 8 register in this order; then slot \<open>j\<close> is called for, 7 or 8.\<close>

definition bp_demo :: "nat \<Rightarrow> bp" where
  "bp_demo j = \<lparr>bp_numbers = (replicate MAX_CLIENTS 0)[7 := 1, 8 := 2], bp_ticket = 2, bp_pending = [], bp_main = Bp_wait j 0, bp_served = []\<rparr>"

lemma bp_demo_reach:
  assumes "j < MAX_CLIENTS"
  shows "reach (\<lambda>s. s = bp_boot) bp_step (bp_demo j)"
proof -
  have slot: "bp_slot 7 = 7" "bp_slot 8 = 8" by (simp_all add: bp_slot_def MAX_CLIENTS_def c_rem_def)
  have "run_actions bp_exec [Bp_request 1 (Some 7) 0 True True, Bp_request 1 (Some 8) 0 True True, Bp_worker 0 True, Bp_worker 0 True,
      Bp_request 2 None (int j) True True] bp_boot = Some (bp_demo j)"
    using assms by (simp add: bp_exec_def bp_prog_1_def bp_worker_def bp_register_def bp_boot_def bp_demo_def slot nb_index_def)
  then show ?thesis by (rule bp_sched.run_reach)
qed

lemma bp_demo_numbers: "k < MAX_CLIENTS \<Longrightarrow> bp_numbers (bp_demo j) ! k = (if k = 7 then 1 else if k = 8 then 2 else 0)"
  by (simp add: bp_demo_def nth_list_update)

theorem bakery_2_serves_or_hangs_witness:
  "(\<exists>n s'. run_actions bp_exec (replicate n (Bp_eval True)) (bp_demo 7) = Some s' \<and> bp_served s' = [7]) \<and>
   {s. reach (\<lambda>s. s = bp_demo 8) bp_step s} \<subseteq> {s. bp_served s = [] \<and> bp_main s \<noteq> Bp_idle}"
proof -
  have m: "7 < MAX_CLIENTS" "8 < MAX_CLIENTS" by (simp_all add: MAX_CLIENTS_def)
  have d: "bp_main (bp_demo j) = Bp_wait j 0" "bp_pending (bp_demo j) = []" "bp_served (bp_demo j) = []" for j by (simp_all add: bp_demo_def)
  have "\<forall>k < MAX_CLIENTS. bp_numbers (bp_demo 7) ! k \<noteq> 0 \<longrightarrow> bp_numbers (bp_demo 7) ! 7 \<le> bp_numbers (bp_demo 7) ! k"
    using m by (simp add: bp_demo_numbers)
  moreover have "reach (\<lambda>s. s = bp_demo 7) bp_step (bp_demo 7)" by (rule reach_init) simp
  ultimately have "\<exists>n s'. run_actions bp_exec (replicate n (Bp_eval True)) (bp_demo 7) = Some s' \<and> bp_served s' = [7]"
    using bakery_2_serves_or_hangs [OF bp_demo_reach [OF m(1)] d(1), of "bp_demo 7"] d by auto
  moreover have "\<not> (\<forall>k < MAX_CLIENTS. bp_numbers (bp_demo 8) ! k \<noteq> 0 \<longrightarrow> bp_numbers (bp_demo 8) ! 8 \<le> bp_numbers (bp_demo 8) ! k)"
    using m by (auto simp: bp_demo_numbers intro!: exI [of _ 7])
  then have "bp_served s = [] \<and> bp_main s \<noteq> Bp_idle" if "reach (\<lambda>s. s = bp_demo 8) bp_step s" for s
    using bakery_2_serves_or_hangs [OF bp_demo_reach [OF m(2)] d(1) _ that] unfolding d(2,3) by (simp only: if_False) fastforce
  ultimately show ?thesis by blast
qed

text \<open>
  Two clients whose process numbers differ by a multiple of 5000 share a slot: the later registration replaces the number of the earlier one.
\<close>

lemma bp_slots_collide:
  assumes "0 \<le> a" "0 \<le> n" "bp_inv s" "bp_ticket s < 2147483646"
  shows "\<exists>s1 s2. bp_register a s = Cont s1 \<and> bp_register (a + 5000 * n) s1 = Cont s2 \<and>
    bp_numbers s1 ! nat (a mod 5000) = bp_ticket s + 1 \<and> bp_numbers s2 ! nat (a mod 5000) = bp_ticket s + 2"
  using assms by (simp add: bp_register_def bp_slot_def MAX_CLIENTS_def Let_def bp_inv_def nat_less_iff)

text \<open>The clients print one line per round until SIGINT; a failed call makes them read a null pointer.\<close>

lemma rpc_loop_rounds:
  assumes "map iter rs = map Cont ls" "iter r = Cont l"
  shows "rpc_loop iter (map (\<lambda>x. (x, False)) rs @ [(r, True)]) True out = Cont (out @ ls @ [l])"
  using assms
proof (induction rs arbitrary: ls out)
  case (Cons x rs)
  then show ?case by (cases ls) simp_all
qed simp

lemma bakery_clients_null:
  "bpc_main 2 True True [((None, r2), sg)] = UB" "bpc_main 2 True True [((Some n, None), sg)] = UB"
  "bpc_main 2 True True [((Some n, Some t), True)] = Cont [(n, t)]"
  "b2_client_main 2 True True [((None, tm), sg)] = UB" "b2_client_main 2 True True [((Some n, Some w), True)] = Cont [(n, w)]"
  by (simp_all add: bpc_main_def bpc_iter_def b2_client_main_def b2_client_iter_def)

section \<open>The client of \<open>for-review/bakery_3\<close>\<close>

datatype b3_line = B3_time int | B3_waiting

text \<open>
  The polling loop against the server, with the clock the server reads at each poll; no further reading
  means that the client has not come further.  \<open>sessions\<close> is the loop of \<open>main\<close>: for each session whether the connection
  is made, the clock readings, and whether SIGINT comes during it.
\<close>

fun b3_client_loop :: "int list \<Rightarrow> int \<Rightarrow> bakery3 \<Rightarrow> b3_line list \<Rightarrow> (b3_line list \<times> bakery3) outcome" where
  "b3_client_loop [] num s out = Blocked"
| "b3_client_loop (ms # clock) num s out = (case bakery_service_1_svc ms num s of (r, s') \<Rightarrow>
     if 0 < r then Cont (out @ [B3_time r], s') else b3_client_loop clock num s' (out @ [B3_waiting]))"

fun b3_client_sessions :: "(bool \<times> int list \<times> bool) list \<Rightarrow> bool \<Rightarrow> bakery3 \<Rightarrow> b3_line list \<Rightarrow> (b3_line list \<times> bakery3) outcome" where
  "b3_client_sessions [] flag s out = (if flag then Blocked else Cont (out, s))"
| "b3_client_sessions ((created, clock, sigint) # ses) flag s out =
     (if \<not> flag then Cont (out, s)
      else if \<not> created then Exit 1
      else case b3_find_max_number s of (num, s1) \<Rightarrow>
        (case b3_client_loop clock num s1 out of
           Cont (out', s2) \<Rightarrow> b3_client_sessions ses (\<not> sigint) s2 out'
         | Blocked \<Rightarrow> Blocked | Exit c \<Rightarrow> Exit c | UB \<Rightarrow> UB))"

definition b3_client_main :: "int \<Rightarrow> bool \<Rightarrow> (bool \<times> int list \<times> bool) list \<Rightarrow> bakery3 \<Rightarrow> (b3_line list \<times> bakery3) outcome" where
  "b3_client_main argc signal_ok ses s =
     (if argc < 2 then Exit 1 else if \<not> signal_ok then Exit 1 else b3_client_sessions ses True s [])"

text \<open>SIGINT only clears a flag that the polling loop does not test: with a fresh server the first session never ends.\<close>

lemma b3_client_loop_stuck: "num \<noteq> current_number s \<Longrightarrow> b3_client_loop clock num s out = Blocked"
  by (induction clock arbitrary: out) (simp_all add: bakery_service_1_svc_def)

lemma bakery3_client_never_ends:
  "b3_client_main 2 True ((True, clock, sigint) # ses) bakery3_boot = Blocked"
  by (simp add: b3_client_main_def b3_find_max_number_def bakery3_boot_def b3_client_loop_stuck)

end
