(* ===== verification/Rpc_Mains.thy ===== *)
theory Rpc_Mains
  imports Rpc_Dispatch Calc_Rpc Bakery_Pid
begin

text \<open>
  The \<open>main\<close> functions of the six RPC servers under \<open>sem_05/rpc\<close>, on the table of the port mapper they share: each first asks for
  the removal of all registrations of its program number, without looking at the result, and then registers a UDP and a TCP transport.  All six use the
  program number 0x20000001 and version 1.
\<close>

section \<open>The port mapper\<close>

type_synonym pmap = "int \<times> int \<times> transport \<Rightarrow> nat option"

text \<open>
  The functions of the RPC library that the servers call are parameters: \<open>pmap_unset\<close> (its effect on the table), \<open>svc_register\<close> (its result and its
  effect) and whether the two transports can be created.
\<close>

record rpc_lib =
  pmap_unset :: "int \<Rightarrow> int \<Rightarrow> pmap \<Rightarrow> pmap"
  svc_register :: "nat \<Rightarrow> int \<Rightarrow> int \<Rightarrow> transport \<Rightarrow> pmap \<Rightarrow> bool \<times> pmap"
  udp_created :: bool
  tcp_created :: bool

text \<open>
  What is documented of them (RFC 1833).  \<open>pmap_unset\<close> destroys mappings of the program and version, and may fail to:
  every such mapping is gone or as it was.  \<open>svc_register\<close> refuses to establish a mapping that exists already and else maps
  the transport to the caller; if it reports success it has done so.  Neither touches any other mapping.
\<close>

definition unset_law :: "rpc_lib \<Rightarrow> bool" where
  "unset_law lib \<longleftrightarrow> (\<forall>prog vers pm k. pmap_unset lib prog vers pm k = pm k \<or>
     pmap_unset lib prog vers pm k = None \<and> fst k = prog \<and> fst (snd k) = vers)"

definition register_law :: "rpc_lib \<Rightarrow> bool" where
  "register_law lib \<longleftrightarrow> (\<forall>me prog vers t pm. case svc_register lib me prog vers t pm of (ok, pm') \<Rightarrow>
     (pm' = pm \<or> pm (prog, vers, t) = None \<and> pm' = pm((prog, vers, t) \<mapsto> me)) \<and>
     (ok \<longrightarrow> pm (prog, vers, t) = None \<and> pm' = pm((prog, vers, t) \<mapsto> me)))"

text \<open>
  The common text of the six functions; \<open>me\<close> is the process.  \<open>Cont\<close> is the server at the call of \<open>svc_run\<close>, after whose return it would exit with 1.  The
  registrations outlive the process.
\<close>

definition rpc_start :: "int \<Rightarrow> int \<Rightarrow> 's \<Rightarrow> rpc_lib \<Rightarrow> nat \<Rightarrow> pmap \<Rightarrow> 's outcome \<times> pmap" where
  "rpc_start prog vers boot lib me pm =
     (let pm0 = pmap_unset lib prog vers pm in
      if \<not> udp_created lib then (Exit 1, pm0)
      else case svc_register lib me prog vers Udp pm0 of (ok1, pm1) \<Rightarrow>
        if \<not> ok1 then (Exit 1, pm1)
        else if \<not> tcp_created lib then (Exit 1, pm1)
        else case svc_register lib me prog vers Tcp pm1 of (ok2, pm2) \<Rightarrow>
          if \<not> ok2 then (Exit 1, pm2) else (Cont boot, pm2))"

section \<open>The six servers\<close>

definition BAKERY_PROG :: int where "BAKERY_PROG = 0x20000001"
definition BAKERY_VER :: int where "BAKERY_VER = 1"
definition CALCULATOR_PROG :: int where "CALCULATOR_PROG = 0x20000001"
definition CALCULATOR_VER :: int where "CALCULATOR_VER = 1"

definition svc0_main :: "rpc_lib \<Rightarrow> nat \<Rightarrow> pmap \<Rightarrow> svc0 outcome \<times> pmap" where
  "svc0_main = rpc_start BAKERY_PROG BAKERY_VER svc0_boot"

definition nb_svc_main :: "rpc_lib \<Rightarrow> nat \<Rightarrow> pmap \<Rightarrow> nb_sys outcome \<times> pmap" where
  "nb_svc_main = rpc_start BAKERY_PROG BAKERY_VER nb_sys_boot"

definition bp_svc_main :: "rpc_lib \<Rightarrow> nat \<Rightarrow> pmap \<Rightarrow> bp outcome \<times> pmap" where
  "bp_svc_main = rpc_start BAKERY_PROG BAKERY_VER bp_boot"

definition b3_svc_main :: "rpc_lib \<Rightarrow> nat \<Rightarrow> pmap \<Rightarrow> bakery3 outcome \<times> pmap" where
  "b3_svc_main = rpc_start BAKERY_PROG BAKERY_VER bakery3_boot"

definition b2_svc_main :: "bakery2 \<Rightarrow> rpc_lib \<Rightarrow> nat \<Rightarrow> pmap \<Rightarrow> bakery2 outcome \<times> pmap" where
  "b2_svc_main boot = rpc_start BAKERY_PROG BAKERY_VER boot"

definition calc_svc_main :: "rpc_lib \<Rightarrow> nat \<Rightarrow> pmap \<Rightarrow> 'f calc outcome \<times> pmap" where
  "calc_svc_main = rpc_start CALCULATOR_PROG CALCULATOR_VER calc_boot"

section \<open>Properties\<close>

lemma unset_cases:
  "unset_law lib \<Longrightarrow> pmap_unset lib p v pm k = pm k \<or> pmap_unset lib p v pm k = None"
  "unset_law lib \<Longrightarrow> (fst k, fst (snd k)) \<noteq> (p, v) \<Longrightarrow> pmap_unset lib p v pm k = pm k"
  by (metis unset_law_def)+

lemma register_cases:
  assumes "register_law lib" "svc_register lib me p v t pm = (ok, pm')"
  shows "pm' = pm \<or> pm (p, v, t) = None \<and> pm' = pm((p, v, t) \<mapsto> me)"
    "ok \<Longrightarrow> pm (p, v, t) = None \<and> pm' = pm((p, v, t) \<mapsto> me)"
proof -
  have "case svc_register lib me p v t pm of (ok, pm') \<Rightarrow>
     (pm' = pm \<or> pm (p, v, t) = None \<and> pm' = pm((p, v, t) \<mapsto> me)) \<and> (ok \<longrightarrow> pm (p, v, t) = None \<and> pm' = pm((p, v, t) \<mapsto> me))"
    using assms(1) by (simp add: register_law_def)
  then show "pm' = pm \<or> pm (p, v, t) = None \<and> pm' = pm((p, v, t) \<mapsto> me)"
    "ok \<Longrightarrow> pm (p, v, t) = None \<and> pm' = pm((p, v, t) \<mapsto> me)" using assms(2) by auto
qed

text \<open>
  What a start does, in terms of what \<open>pmap_unset\<close> has left: if it left a registration, the server exits with 1; if the server
  runs, both transports lead to it; it does run if the registrations are gone and the other calls succeed where nothing stands in their way; in any case a transport
  leads to the new process, to nobody or where it led before, and the last only if \<open>pmap_unset\<close> left it; other programs are not touched.
\<close>

definition takes_over :: "rpc_lib \<Rightarrow> nat \<Rightarrow> pmap \<Rightarrow> 's \<Rightarrow> 's outcome \<times> pmap \<Rightarrow> bool" where
  "takes_over lib me pm boot res = (case res of (r, pm') \<Rightarrow>
     let left = (\<lambda>t. pmap_unset lib 0x20000001 1 pm (0x20000001, 1, t)) in
       (r = Cont boot \<or> r = Exit 1) \<and>
       (r = Cont boot \<longrightarrow> (\<forall>t. left t = None \<and> pm' (0x20000001, 1, t) = Some me)) \<and>
       (udp_created lib \<and> tcp_created lib \<and> (\<forall>t. left t = None) \<and>
          (\<forall>t pm0. pm0 (0x20000001, 1, t) = None \<longrightarrow> fst (svc_register lib me 0x20000001 1 t pm0)) \<longrightarrow> r = Cont boot) \<and>
       (\<forall>t. pm' (0x20000001, 1, t) = left t \<or> left t = None \<and> pm' (0x20000001, 1, t) = Some me) \<and>
       (\<forall>p v t. (p, v) \<noteq> (0x20000001, 1) \<longrightarrow> pm' (p, v, t) = pm (p, v, t)))"

lemma rpc_start_takes_over:
  assumes "unset_law lib" "register_law lib"
  shows "takes_over lib me pm boot (rpc_start 0x20000001 1 boot lib me pm)"
proof -
  let ?p = "0x20000001 :: int" and ?pm0 = "pmap_unset lib 0x20000001 1 pm"
  obtain ok1 pm1 where r1: "svc_register lib me ?p 1 Udp ?pm0 = (ok1, pm1)" by fastforce
  obtain ok2 pm2 where r2: "svc_register lib me ?p 1 Tcp pm1 = (ok2, pm2)" by fastforce
  note c1 = register_cases [OF assms(2) r1] and c2 = register_cases [OF assms(2) r2]
  have other: "?pm0 (q, v, t) = pm (q, v, t)" if "(q, v) \<noteq> (?p, 1)" for q v t
    using unset_cases(2) [OF assms(1), of "(q, v, t)"] that by simp
  have two: "(\<forall>t. P t) \<longleftrightarrow> P Udp \<and> P Tcp" for P by (metis transport.exhaust)
  have ok: "fst (svc_register lib me ?p 1 t pm0)"
    if "\<forall>t pm0. pm0 (?p, 1, t) = None \<longrightarrow> fst (svc_register lib me ?p 1 t pm0)" "pm0 (?p, 1, t) = None" for t pm0
    using that by blast
  show ?thesis
  proof (cases "udp_created lib \<and> ok1 \<and> tcp_created lib \<and> ok2")
    case True
    then have "pm2 = ?pm0((?p, 1, Udp) \<mapsto> me, (?p, 1, Tcp) \<mapsto> me)" "?pm0 (?p, 1, Udp) = None" "?pm0 (?p, 1, Tcp) = None"
      using c1 c2 by auto
    then show ?thesis using True other by (simp add: takes_over_def rpc_start_def r1 r2 two Let_def)
  next
    case False
    define pm' where "pm' = (if \<not> udp_created lib then ?pm0 else if \<not> ok1 \<or> \<not> tcp_created lib then pm1 else pm2)"
    have start: "rpc_start ?p 1 boot lib me pm = (Exit 1, pm')" using False by (simp add: rpc_start_def r1 r2 pm'_def Let_def)
    have pm': "pm' (?p, 1, t) = ?pm0 (?p, 1, t) \<or> ?pm0 (?p, 1, t) = None \<and> pm' (?p, 1, t) = Some me" for t
      using c1(1) c2(1) by (auto simp: pm'_def split: if_splits)
    have keep: "pm' (q, v, t) = pm (q, v, t)" if "(q, v) \<noteq> (?p, 1)" for q v t
      using c1(1) c2(1) other [OF that] that by (auto simp: pm'_def)
    have "\<not> (udp_created lib \<and> tcp_created lib \<and> (\<forall>t. ?pm0 (?p, 1, t) = None) \<and>
          (\<forall>t pm0. pm0 (?p, 1, t) = None \<longrightarrow> fst (svc_register lib me ?p 1 t pm0)))"
    proof (rule notI, elim conjE)
      assume all: "udp_created lib" "tcp_created lib" "\<forall>t. ?pm0 (?p, 1, t) = None"
        "\<forall>t pm0. pm0 (?p, 1, t) = None \<longrightarrow> fst (svc_register lib me ?p 1 t pm0)"
      have "ok1" using all(3) all(4) [rule_format, of ?pm0 Udp] r1 by simp
      moreover from this have "pm1 (?p, 1, Tcp) = None" using c1(2) all(3) by simp
      then have "ok2" using all(4) [rule_format, of pm1 Tcp] r2 by simp
      ultimately show False using False all(1,2) by simp
    qed
    then show ?thesis using pm' keep by (simp add: takes_over_def start Let_def)
  qed
qed

text \<open>
  (C26) The six RPC servers have one program number.  With any RPC library that does what is documented, starting any of them
  ends either inside \<open>svc_run\<close> with both transports leading to it, after \<open>pmap_unset\<close> has removed every registration of the servers before it,
  or with exit status 1; the latter whenever \<open>pmap_unset\<close>, whose result is ignored, has left one.
  Whichever way it ends, a registration that \<open>pmap_unset\<close> removed does not come back, so that a server before it is no
  longer found on that transport, and one that was left stays.  Other programs keep their registrations.
\<close>

theorem rpc_servers_displace_each_other:
  assumes "unset_law lib" "register_law lib"
  shows "takes_over lib me pm svc0_boot (svc0_main lib me pm) \<and> takes_over lib me pm nb_sys_boot (nb_svc_main lib me pm) \<and>
    takes_over lib me pm bp_boot (bp_svc_main lib me pm) \<and> takes_over lib me pm bakery3_boot (b3_svc_main lib me pm) \<and>
    takes_over lib me pm b2_boot (b2_svc_main b2_boot lib me pm) \<and> takes_over lib me pm calc_boot (calc_svc_main lib me pm)"
  by (simp add: rpc_start_takes_over [OF assms] svc0_main_def nb_svc_main_def bp_svc_main_def b3_svc_main_def b2_svc_main_def calc_svc_main_def
      BAKERY_PROG_def BAKERY_VER_def CALCULATOR_PROG_def CALCULATOR_VER_def)

text \<open>
  Two libraries: with \<open>mine\<close> the user owns the registrations and \<open>pmap_unset\<close> removes them, otherwise it is refused.
\<close>

definition pmap_lib :: "bool \<Rightarrow> rpc_lib" where
  "pmap_lib mine = \<lparr>
     pmap_unset = (\<lambda>prog vers pm. if mine then (\<lambda>(p, v, t). if p = prog \<and> v = vers then None else pm (p, v, t)) else pm),
     svc_register = (\<lambda>me prog vers t pm. if pm (prog, vers, t) = None then (True, pm((prog, vers, t) \<mapsto> me)) else (False, pm)),
     udp_created = True, tcp_created = True\<rparr>"

lemma pmap_lib_laws: "unset_law (pmap_lib mine)" "register_law (pmap_lib mine)"
  by (auto simp: unset_law_def register_law_def pmap_lib_def)

text \<open>
  The calculator (process 3) starts while the ticket server (process 2) is running: it takes its place, or, when the registrations of
  process 2 belong to another user, exits and leaves them.
\<close>

definition pmap_tickets :: pmap where
  "pmap_tickets = [(0x20000001, 1, Udp) \<mapsto> 2, (0x20000001, 1, Tcp) \<mapsto> 2]"

theorem rpc_servers_displace_each_other_witness:
  "snd (calc_svc_main (pmap_lib True) 3 pmap_tickets :: unit calc outcome \<times> pmap) (0x20000001, 1, Tcp) = Some 3 \<and>
   fst (calc_svc_main (pmap_lib False) 3 pmap_tickets :: unit calc outcome \<times> pmap) = Exit 1"
proof -
  have "takes_over (pmap_lib m) 3 pmap_tickets calc_boot (calc_svc_main (pmap_lib m) 3 pmap_tickets :: unit calc outcome \<times> pmap)" for m
    using rpc_servers_displace_each_other [OF pmap_lib_laws] by blast
  moreover have "pmap_unset (pmap_lib m) 0x20000001 1 pmap_tickets (0x20000001, 1, t) = (if m then None else Some 2)" for m t
    by (cases t) (simp_all add: pmap_lib_def pmap_tickets_def)
  moreover have "udp_created (pmap_lib m)" "tcp_created (pmap_lib m)"
    "pm0 (p, v, t) = None \<Longrightarrow> fst (svc_register (pmap_lib m) 3 p v t pm0)" for m p v t pm0
    by (simp_all add: pmap_lib_def)
  ultimately show ?thesis by (simp add: takes_over_def Let_def case_prod_beta) (metis option.distinct(1))
qed

text \<open>With such a library, and no server before it, the \<open>main\<close> of \<open>compile/0\<close> is the one of its dispatcher's model.\<close>

lemma svc0_main_agrees:
  fixes u t :: bool
  defines "lib \<equiv> (pmap_lib True)\<lparr>udp_created := u, tcp_created := t\<rparr>"
  shows "fst (svc0_main lib me Map.empty) = fst (svc_main u True t True) \<and>
   (\<forall>x. snd (svc0_main lib me Map.empty) (BAKERY_PROG, BAKERY_VER, x) \<noteq> None \<longleftrightarrow> x \<in> set (snd (svc_main u True t True)))"
  by (auto simp: lib_def svc0_main_def rpc_start_def svc_main_def pmap_lib_def Let_def)

end
