(* ===== verification/Sockpair_Wait.thy ===== *)
theory Sockpair_Wait
  imports Wait_Status
begin

text \<open>
  The last loops of the two programs of \<open>lab_sockets/lab_01\<close>: three calls of \<open>wait\<close> and a line for each.  \<open>main.c\<close> prints the
  process number that \<open>wait\<close> returned, \<open>socketpair.c\<close> the number of the child forked in the same round.
\<close>

text \<open>
  What the successive calls of \<open>wait\<close> return, \<open>None\<close> for a failure, which leaves \<open>status\<close> uninitialised.
\<close>

fun sp_wait_loop :: "nat \<Rightarrow> (int \<times> c_int) option list \<Rightarrow> (int \<times> report) list \<Rightarrow> (int \<times> report) list outcome" where
  "sp_wait_loop 0 ws out = Cont out"
| "sp_wait_loop (Suc n) [] out = Blocked"
| "sp_wait_loop (Suc n) (None # ws) out = UB"
| "sp_wait_loop (Suc n) (Some (pid_child, status) # ws) out = sp_wait_loop n ws (out @ [(pid_child, wait_report status)])"

fun sp2_wait_loop :: "int list \<Rightarrow> (int \<times> c_int) option list \<Rightarrow> (int \<times> report) list \<Rightarrow> (int \<times> report) list outcome" where
  "sp2_wait_loop [] ws out = Cont out"
| "sp2_wait_loop (p # pids) [] out = Blocked"
| "sp2_wait_loop (p # pids) (None # ws) out = UB"
| "sp2_wait_loop (p # pids) (Some (pid_child, status) # ws) out = sp2_wait_loop pids ws (out @ [(p, wait_report status)])"

text \<open>The lines that are true of children that ended as \<open>ends\<close> says.\<close>

definition true_lines :: "(int \<times> child_end) list \<Rightarrow> (int \<times> report) list" where
  "true_lines ends = map (\<lambda>(p, e). (p, wait_report (wait_status e))) ends"

definition wait_results :: "(int \<times> child_end) list \<Rightarrow> (int \<times> c_int) option list" where
  "wait_results ends = map (\<lambda>(p, e). Some (p, wait_status e)) ends"

lemma sp_wait_loop_run:
  "sp_wait_loop (length ends) (wait_results ends) out = Cont (out @ true_lines ends)"
  by (induction ends arbitrary: out) (auto simp: wait_results_def true_lines_def)

lemma sp2_wait_loop_run:
  "length pids = length ends \<Longrightarrow>
   sp2_wait_loop pids (wait_results ends) out = Cont (out @ zip pids (map snd (true_lines ends)))"
  by (induction pids ends arbitrary: out rule: list_induct2) (auto simp: wait_results_def true_lines_def)

text \<open>
  The three children end in the order of \<open>ends\<close>.  \<open>main.c\<close> prints exactly the true lines.  The lines of \<open>socketpair.c\<close> are true
  exactly when the child that ends in round \<open>i\<close> is reported like the one forked in round \<open>i\<close>.
\<close>

lemma socketpair_wait_reports:
  assumes "length ends = 3" "length pids = 3" "distinct (map fst ends)" "set pids = set (map fst ends)"
  shows "sp_wait_loop 3 (wait_results ends) [] = Cont (true_lines ends) \<and>
    (\<exists>out. sp2_wait_loop pids (wait_results ends) [] = Cont out \<and>
      (set out \<subseteq> set (true_lines ends) \<longleftrightarrow>
        (\<forall>i < 3. map_of (true_lines ends) (pids ! i) = Some (snd (true_lines ends ! i)))))"
proof -
  let ?t = "true_lines ends"
  have len: "length ?t = 3" and dist: "distinct (map fst ?t)"
    using assms(1,3) by (auto simp: true_lines_def comp_def case_prod_beta)
  have "set (zip pids (map snd ?t)) \<subseteq> set ?t \<longleftrightarrow> (\<forall>i < 3. (pids ! i, snd (?t ! i)) \<in> set ?t)"
  proof -
    have "zip pids (map snd ?t) = map (\<lambda>i. (pids ! i, snd (?t ! i))) [0..<3]"
      using assms(2) len by (intro nth_equalityI) simp_all
    then show ?thesis by auto
  qed
  also have "\<dots> \<longleftrightarrow> (\<forall>i < 3. map_of ?t (pids ! i) = Some (snd (?t ! i)))"
    using dist by simp
  finally show ?thesis
    using sp_wait_loop_run [of ends "[]"] sp2_wait_loop_run [of pids ends "[]"] assms(1,2) by simp
qed

text \<open>Child 11 is killed by signal 13 and ends first, child 10 exits: \<open>socketpair.c\<close> reports the signal for child 10.\<close>

lemma socketpair_misreports:
  "sp2_wait_loop [10, 11, 12] (wait_results [(11, Killed 13 False), (10, Exited 0), (12, Exited 0)]) [] =
     Cont [(10, ReportKilled 13), (11, ReportExited 0), (12, ReportExited 0)]"
  by (simp add: wait_results_def wait_report_simps)

end
