(* ===== verification/Key_Timing.thy ===== *)
theory Key_Timing
  imports Key_Irq
begin

text \<open>
  The two keyboard modules of \<open>lab_tasklet\<close> with their clocks and with interrupts between the statements of the
  deferred functions: what the proc files show while a key is being handled and when everything has been
  handled.  Time is in nanoseconds; the clock (\<open>ktime_get\<close>) never runs backwards.
\<close>

section \<open>The workqueue module\<close>

datatype work_id = Work1 | Work2

text \<open>
  The worker: idle, at the start of \<open>work1_fn\<close> or \<open>work2_fn\<close>, after \<open>press_code\<close> has been read (\<open>work2_fn\<close> then sleeps), before the
  expression \<open>ktime_sub(ktime_get(), iw->start)\<close>, or inside it, when the clock or \<open>iw->start\<close> has been read and the other has not.  The
  queue runs one item at a time, on the processor that takes the interrupts.
\<close>

datatype wk_pc = Wk_idle | Wk_begin work_id | Wk_read work_id c_int int | Wk_time work_id | Wk_clock work_id int | Wk_start work_id int

record wk_item =
  it_start :: int
  it_code :: c_int

record wk =
  wk_now :: int
  wk_queue :: "work_id list"
  wk_run :: wk_pc
  wk_work :: "work_id \<Rightarrow> wk_item"
  wk_name :: string
  wk_last_code :: int
  fast_ns :: int
  slow_ns :: int
  wk_seen :: "c_char list"

definition BLOCK_MS :: int where "BLOCK_MS = 10"

definition queue_work :: "work_id \<Rightarrow> wk \<Rightarrow> wk" where
  "queue_work w s = (if w \<in> set (wk_queue s) then s else s\<lparr>wk_queue := wk_queue s @ [w]\<rparr>)"

text \<open>
  The handler; \<open>d1\<close> is the time between its two readings of the clock.  \<open>wk_seen\<close> records the accepted scan codes.
\<close>

definition wk_irq_handler :: "int \<Rightarrow> c_char \<Rightarrow> int \<Rightarrow> wk \<Rightarrow> irqreturn_t \<times> wk" where
  "wk_irq_handler irq port d1 s =
     (let code = ucast port; t1 = wk_now s; t2 = t1 + d1 in
      if irq = IRQ_NUM \<and> accepted code
      then (IRQ_HANDLED, queue_work Work2 (queue_work Work1
        (s\<lparr>wk_now := t2, wk_seen := wk_seen s @ [port],
           wk_work := (\<lambda>w. case w of Work1 \<Rightarrow> \<lparr>it_start = t1, it_code = code\<rparr> | Work2 \<Rightarrow> \<lparr>it_start = t2, it_code = code\<rparr>)\<rparr>)))
      else (IRQ_NONE, s))"

text \<open>
  The statements of the work functions: taking the item; reading \<open>press_code\<close>; storing code and name, in
  \<open>work2_fn\<close> not before the sleep is over; the two operands of the subtraction, in the order the compiler
  has chosen (\<open>clock_first\<close>), with room for an interrupt between them; the subtraction.
\<close>

definition set_ns :: "work_id \<Rightarrow> int \<Rightarrow> wk \<Rightarrow> wk" where
  "set_ns w v s = (case w of Work1 \<Rightarrow> s\<lparr>fast_ns := v\<rparr> | Work2 \<Rightarrow> s\<lparr>slow_ns := v\<rparr>)"

definition wk_step :: "bool \<Rightarrow> wk \<Rightarrow> wk outcome" where
  "wk_step clock_first s =
     (case wk_run s of
        Wk_idle \<Rightarrow>
          (case wk_queue s of
             [] \<Rightarrow> Blocked
           | w # ws \<Rightarrow> Cont (s\<lparr>wk_queue := ws, wk_run := Wk_begin w\<rparr>))
      | Wk_begin w \<Rightarrow> Cont (s\<lparr>wk_run := Wk_read w (press_code (it_code (wk_work s w))) (wk_now s)\<rparr>)
      | Wk_read w pc t0 \<Rightarrow>
          (if w = Work2 \<and> wk_now s < t0 + BLOCK_MS * 1000000 then Blocked
           else if length wq_ascii \<le> unat pc then UB
           else Cont (s\<lparr>wk_last_code := sint (it_code (wk_work s w)), wk_name := key_name_copy (wq_ascii ! unat pc), wk_run := Wk_time w\<rparr>))
      | Wk_time w \<Rightarrow> Cont (s\<lparr>wk_run := (if clock_first then Wk_clock w (wk_now s) else Wk_start w (it_start (wk_work s w)))\<rparr>)
      | Wk_clock w t \<Rightarrow> Cont (set_ns w (t - it_start (wk_work s w)) (s\<lparr>wk_run := Wk_idle\<rparr>))
      | Wk_start w t0 \<Rightarrow> Cont (set_ns w (wk_now s - t0) (s\<lparr>wk_run := Wk_idle\<rparr>)))"

datatype wk_line = WkKey string int | WkFast int | WkSlow int | WkBlock int

definition proc_show :: "wk \<Rightarrow> wk_line list" where
  "proc_show s = (if wk_last_code s \<noteq> -1 then [WkKey (c_str (wk_name s)) (wk_last_code s)] else []) @
     [WkFast (fast_ns s), WkSlow (slow_ns s), WkBlock BLOCK_MS]"

text \<open>\<open>garbage\<close> is what \<open>kmalloc\<close> left in the two items.\<close>

definition wk_boot :: "(work_id \<Rightarrow> wk_item) \<Rightarrow> int \<Rightarrow> wk" where
  "wk_boot garbage now = \<lparr>wk_now = now, wk_queue = [], wk_run = Wk_idle, wk_work = garbage, wk_name = replicate 20 (CHR 0x00),
     wk_last_code = -1, fast_ns = 0, slow_ns = 0, wk_seen = []\<rparr>"

datatype wk_event = Wk_irq c_char int | Wk_worker bool | Wk_tick int

fun wk_act :: "wk_event \<Rightarrow> wk \<Rightarrow> wk outcome" where
  "wk_act (Wk_irq p d) s = (if d < 0 then Blocked else Cont (snd (wk_irq_handler IRQ_NUM p d s)))"
| "wk_act (Wk_worker clock_first) s = wk_step clock_first s"
| "wk_act (Wk_tick d) s = (if d < 0 then Blocked else Cont (s\<lparr>wk_now := wk_now s + d\<rparr>))"

inductive wk_next :: "wk \<Rightarrow> wk \<Rightarrow> bool" where
  act: "wk_act e s = Cont s' \<Longrightarrow> wk_next s s'"

inductive_cases wk_nextE: "wk_next s s'"

section \<open>Invariant\<close>

definition wk_shows :: "c_char \<Rightarrow> wk \<Rightarrow> bool" where
  "wk_shows p s \<longleftrightarrow> wk_last_code s = int (unat p) \<and> wk_name s = key_name_copy (wq_ascii ! (unat p - 128))"

text \<open>
  Both items carry the last accepted code; either that key is shown, or an item is still queued, or the
  worker is about to store what it has read, which is out of date only if an item is queued.
\<close>

definition wk_inv :: "wk \<Rightarrow> bool" where
  "wk_inv s \<longleftrightarrow> (\<forall>p \<in> set (wk_seen s). accepted (ucast p)) \<and>
     (wk_seen s = [] \<longrightarrow> wk_queue s = [] \<and> wk_run s = Wk_idle \<and> wk_last_code s = -1 \<and> fast_ns s = 0 \<and> slow_ns s = 0) \<and>
     (wk_seen s \<noteq> [] \<longrightarrow> (\<forall>w. it_code (wk_work s w) = ucast (last (wk_seen s)) \<and> it_start (wk_work s w) \<le> wk_now s) \<and>
        (wk_shows (last (wk_seen s)) s \<or> wk_queue s \<noteq> [] \<or> (\<exists>w. wk_run s = Wk_begin w) \<or> (\<exists>w pc t. wk_run s = Wk_read w pc t))) \<and>
     (\<forall>w pc t. wk_run s = Wk_read w pc t \<longrightarrow> unat pc < 84 \<and> (wk_queue s \<noteq> [] \<or> pc = press_code (ucast (last (wk_seen s)))))"

text \<open>
  Times: an item that has not been queued again since has its start in the past of what it has read of the clock,
  \<open>work2_fn\<close> by the length of its sleep.
\<close>

definition wk_least :: "work_id \<Rightarrow> int" where
  "wk_least w = (case w of Work1 \<Rightarrow> 0 | Work2 \<Rightarrow> BLOCK_MS * 1000000)"

definition wk_ns :: "work_id \<Rightarrow> wk \<Rightarrow> int" where
  "wk_ns w s = (case w of Work1 \<Rightarrow> fast_ns s | Work2 \<Rightarrow> slow_ns s)"

definition wk_timed :: "work_id \<Rightarrow> wk \<Rightarrow> bool" where
  "wk_timed w s \<longleftrightarrow> (case wk_run s of
       Wk_begin v \<Rightarrow> v = w \<or> wk_least w \<le> wk_ns w s
     | Wk_read v pc t0 \<Rightarrow> if v = w then it_start (wk_work s w) \<le> t0 else wk_least w \<le> wk_ns w s
     | Wk_time v \<Rightarrow> if v = w then it_start (wk_work s w) + wk_least w \<le> wk_now s else wk_least w \<le> wk_ns w s
     | Wk_clock v t \<Rightarrow> if v = w then it_start (wk_work s w) + wk_least w \<le> t else wk_least w \<le> wk_ns w s
     | Wk_start v t0 \<Rightarrow> if v = w then t0 + wk_least w \<le> wk_now s else wk_least w \<le> wk_ns w s
     | Wk_idle \<Rightarrow> wk_least w \<le> wk_ns w s)"

definition wk_times :: "wk \<Rightarrow> bool" where
  "wk_times s \<longleftrightarrow> (\<forall>w. wk_seen s = [] \<or> w \<in> set (wk_queue s) \<or> wk_timed w s)"

lemma wk_inv_boot: "wk_inv (wk_boot garbage now) \<and> wk_times (wk_boot garbage now)"
  by (simp add: wk_inv_def wk_times_def wk_boot_def)

lemma queue_work_sel [simp]:
  "wk_now (queue_work w s) = wk_now s" "wk_run (queue_work w s) = wk_run s" "wk_work (queue_work w s) = wk_work s"
  "wk_last_code (queue_work w s) = wk_last_code s" "wk_name (queue_work w s) = wk_name s" "wk_seen (queue_work w s) = wk_seen s"
  "fast_ns (queue_work w s) = fast_ns s" "slow_ns (queue_work w s) = slow_ns s" "wk_queue (queue_work w s) \<noteq> []"
  "set (wk_queue (queue_work w s)) = insert w (set (wk_queue s))"
  by (auto simp: queue_work_def)

lemma set_ns_sel [simp]:
  "wk_now (set_ns w v s) = wk_now s" "wk_run (set_ns w v s) = wk_run s" "wk_work (set_ns w v s) = wk_work s"
  "wk_last_code (set_ns w v s) = wk_last_code s" "wk_name (set_ns w v s) = wk_name s" "wk_seen (set_ns w v s) = wk_seen s"
  "wk_queue (set_ns w v s) = wk_queue s" "wk_ns u (set_ns w v s) = (if u = w then v else wk_ns u s)"
  by (auto simp: set_ns_def wk_ns_def split: work_id.splits)

lemma wk_irq_inv:
  assumes "wk_inv s" "wk_times s" "0 \<le> d"
  shows "wk_inv (snd (wk_irq_handler irq p d s))" "wk_times (snd (wk_irq_handler irq p d s))"
proof -
  have all: "w = Work1 \<or> w = Work2" for w by (cases w) simp_all
  show "wk_inv (snd (wk_irq_handler irq p d s))"
    using assms(1,3) by (cases "irq = IRQ_NUM \<and> accepted (ucast p)") (auto simp: wk_irq_handler_def wk_inv_def Let_def split: work_id.splits)
  show "wk_times (snd (wk_irq_handler irq p d s))"
    using assms(2) all by (cases "irq = IRQ_NUM \<and> accepted (ucast p)") (auto simp: wk_irq_handler_def wk_times_def Let_def)
qed

lemma wk_step_inv:
  assumes "wk_inv s" "wk_step b s = Cont s'"
  shows "wk_inv s'"
proof (cases "wk_run s")
  case Wk_idle
  then obtain w ws where q: "wk_queue s = w # ws"
    "s' = s\<lparr>wk_queue := ws, wk_run := Wk_begin w\<rparr>"
    using assms(2) by (auto simp: wk_step_def split: list.splits)
  then show ?thesis using assms(1) by (auto simp: wk_inv_def wk_shows_def)
next
  case (Wk_begin w)
  have s': "s' = s\<lparr>wk_run := Wk_read w (press_code (it_code (wk_work s w))) (wk_now s)\<rparr>"
    using assms(2) Wk_begin by (simp add: wk_step_def)
  have seen: "wk_seen s \<noteq> []" using assms(1) Wk_begin by (auto simp: wk_inv_def)
  then have "accepted (ucast (last (wk_seen s)))" using assms(1) by (simp add: wk_inv_def)
  from key_name_shown(2) [OF this] show ?thesis
    using assms(1) s' seen by (auto simp: wk_inv_def ascii_length)
next
  case (Wk_read w pc t0)
  have seen: "wk_seen s \<noteq> []" using assms(1) Wk_read by (auto simp: wk_inv_def)
  then have acc: "accepted (ucast (last (wk_seen s)))" using assms(1) by (simp add: wk_inv_def)
  have s': "s' = s\<lparr>wk_last_code := sint (it_code (wk_work s w)), wk_name := key_name_copy (wq_ascii ! unat pc), wk_run := Wk_time w\<rparr>"
    using assms(2) Wk_read by (auto simp: wk_step_def split: if_splits)
  have code: "it_code (wk_work s w) = ucast (last (wk_seen s))" using assms(1) seen by (simp add: wk_inv_def)
  have "wk_shows (last (wk_seen s)) s'" if "pc = press_code (ucast (last (wk_seen s)))"
    using that accepted_index [OF acc] code by (simp add: s' wk_shows_def)
  then show ?thesis
    using assms(1) seen Wk_read s' by (auto simp: wk_inv_def)
next
  case (Wk_time w)
  then show ?thesis using assms by (auto simp: wk_step_def wk_inv_def wk_shows_def split: if_splits)
next
  case (Wk_clock w t)
  then show ?thesis using assms by (auto simp: wk_step_def wk_inv_def wk_shows_def)
next
  case (Wk_start w t)
  then show ?thesis using assms by (auto simp: wk_step_def wk_inv_def wk_shows_def)
qed

lemma wk_least_eval [simp]: "wk_least Work1 = 0" "wk_least Work2 = 10000000" "0 \<le> wk_least w"
  by (simp_all add: wk_least_def BLOCK_MS_def split: work_id.split)

lemma wk_ns_same [simp]:
  "wk_ns u (s\<lparr>wk_run := r\<rparr>) = wk_ns u s" "wk_ns u (s\<lparr>wk_queue := q\<rparr>) = wk_ns u s"
  "wk_ns u (s\<lparr>wk_last_code := c\<rparr>) = wk_ns u s" "wk_ns u (s\<lparr>wk_name := n\<rparr>) = wk_ns u s"
  by (simp_all add: wk_ns_def split: work_id.split)

lemma wk_step_times:
  assumes inv: "wk_inv s" and times: "wk_times s" and step: "wk_step b s = Cont s'"
  shows "wk_times s'"
  unfolding wk_times_def
proof
  fix u
  have old: "wk_seen s = [] \<or> u \<in> set (wk_queue s) \<or> wk_timed u s" using times by (auto simp: wk_times_def)
  have start: "wk_seen s = [] \<or> it_start (wk_work s u) \<le> wk_now s" using inv by (auto simp: wk_inv_def)
  show "wk_seen s' = [] \<or> u \<in> set (wk_queue s') \<or> wk_timed u s'"
  proof (cases "wk_run s")
    case Wk_idle
    then obtain w ws where "wk_queue s = w # ws" "s' = s\<lparr>wk_queue := ws, wk_run := Wk_begin w\<rparr>"
      using step by (auto simp: wk_step_def split: list.splits)
    then show ?thesis using old Wk_idle by (auto simp: wk_timed_def)
  next
    case (Wk_begin w)
    then have "s' = s\<lparr>wk_run := Wk_read w (press_code (it_code (wk_work s w))) (wk_now s)\<rparr>"
      using step by (simp add: wk_step_def)
    then show ?thesis using old start Wk_begin by (cases "w = u") (auto simp: wk_timed_def)
  next
    case (Wk_read w pc t0)
    then have "s' = s\<lparr>wk_last_code := sint (it_code (wk_work s w)), wk_name := key_name_copy (wq_ascii ! unat pc), wk_run := Wk_time w\<rparr>"
      and "w = Work2 \<Longrightarrow> t0 + 10000000 \<le> wk_now s"
      using step by (auto simp: wk_step_def BLOCK_MS_def split: if_splits)
    then show ?thesis using old start Wk_read by (cases "w = u"; cases u) (auto simp: wk_timed_def)
  next
    case (Wk_time w)
    then have "s' = s\<lparr>wk_run := (if b then Wk_clock w (wk_now s) else Wk_start w (it_start (wk_work s w)))\<rparr>"
      using step by (simp add: wk_step_def)
    then show ?thesis using old Wk_time by (cases b; cases "w = u") (auto simp: wk_timed_def)
  next
    case (Wk_clock w t)
    then have "s' = set_ns w (t - it_start (wk_work s w)) (s\<lparr>wk_run := Wk_idle\<rparr>)" using step by (simp add: wk_step_def)
    then show ?thesis using old Wk_clock by (cases "w = u") (auto simp: wk_timed_def)
  next
    case (Wk_start w t)
    then have "s' = set_ns w (wk_now s - t) (s\<lparr>wk_run := Wk_idle\<rparr>)" using step by (simp add: wk_step_def)
    then show ?thesis using old Wk_start by (cases "w = u") (auto simp: wk_timed_def)
  qed
qed

lemma wk_tick_inv:
  assumes "0 \<le> d"
  shows "wk_inv s \<Longrightarrow> wk_inv (s\<lparr>wk_now := wk_now s + d\<rparr>)" "wk_times s \<Longrightarrow> wk_times (s\<lparr>wk_now := wk_now s + d\<rparr>)"
proof -
  show "wk_inv s \<Longrightarrow> wk_inv (s\<lparr>wk_now := wk_now s + d\<rparr>)"
    using assms by (auto simp: wk_inv_def wk_shows_def intro: add_increasing2)
  have "wk_timed w s \<Longrightarrow> wk_timed w (s\<lparr>wk_now := wk_now s + d\<rparr>)" for w
    using assms by (auto simp: wk_timed_def wk_ns_def split: wk_pc.splits if_splits work_id.splits)
  then show "wk_times s \<Longrightarrow> wk_times (s\<lparr>wk_now := wk_now s + d\<rparr>)" by (auto simp: wk_times_def)
qed

lemma wk_next_inv: "wk_next s s' \<Longrightarrow> wk_inv s \<and> wk_times s \<Longrightarrow> wk_inv s' \<and> wk_times s'"
proof (elim wk_nextE)
  fix e
  assume "wk_inv s \<and> wk_times s" "wk_act e s = Cont s'"
  then show "wk_inv s' \<and> wk_times s'"
    by (cases e) (auto simp: wk_irq_inv wk_tick_inv not_less split: if_splits intro: wk_step_inv wk_step_times)
qed

interpretation wk_sys: invariant_system "\<lambda>s. s = wk_boot garbage now" wk_next "\<lambda>s. wk_inv s \<and> wk_times s" for garbage now
  by unfold_locales (simp_all add: wk_inv_boot wk_next_inv)

text \<open>
  (C20) However key releases, the worker and the clock interleave, also between the two operands of a subtraction, the
  workqueue module never indexes its table out of range.  Whenever nothing is queued or running the proc file shows the
  name and the code of the last accepted key release, a time of \<open>work1_fn\<close> that is not negative and one of \<open>work2_fn\<close> of at least the 10 ms of
  its sleep; if there was no release it shows no key and both times are 0.
\<close>

theorem wq_settles_on_last_release:
  assumes "reach (\<lambda>s. s = wk_boot garbage now) wk_next s"
  shows "wk_step clock_first s \<noteq> UB \<and>
    (wk_queue s = [] \<and> wk_run s = Wk_idle \<and> wk_seen s \<noteq> [] \<longrightarrow> 0 \<le> fast_ns s \<and> 10000000 \<le> slow_ns s \<and>
      (let p = last (wk_seen s) in proc_show s =
        [WkKey (wq_ascii ! (unat p - 128)) (int (unat p)), WkFast (fast_ns s), WkSlow (slow_ns s), WkBlock 10])) \<and>
    (wk_seen s = [] \<longrightarrow> proc_show s = [WkFast 0, WkSlow 0, WkBlock 10])"
proof -
  have inv: "wk_inv s" "wk_times s" using wk_sys.reach_inv [OF assms] by simp_all
  then have pc: "\<forall>w pc t. wk_run s = Wk_read w pc t \<longrightarrow> unat pc < length wq_ascii" by (simp add: wk_inv_def ascii_length)
  have "wk_step clock_first s \<noteq> UB"
    using pc by (auto simp: wk_step_def split: wk_pc.splits list.splits)
  moreover have "0 \<le> fast_ns s \<and> 10000000 \<le> slow_ns s"
    if "wk_queue s = []" "wk_run s = Wk_idle" "wk_seen s \<noteq> []"
  proof -
    have "wk_timed Work1 s" "wk_timed Work2 s" using inv(2) that by (simp_all add: wk_times_def)
    then show ?thesis using that(2) by (simp add: wk_timed_def wk_ns_def)
  qed
  moreover have "let p = last (wk_seen s) in proc_show s =
      [WkKey (wq_ascii ! (unat p - 128)) (int (unat p)), WkFast (fast_ns s), WkSlow (slow_ns s), WkBlock 10]"
    if "wk_queue s = []" "wk_run s = Wk_idle" "wk_seen s \<noteq> []"
  proof -
    have sh: "wk_shows (last (wk_seen s)) s" and acc: "accepted (ucast (last (wk_seen s)))"
      using inv(1) that by (auto simp: wk_inv_def)
    have "int (unat (last (wk_seen s))) \<noteq> -1" by linarith
    then show ?thesis
      using key_name_shown(4) [OF acc] sh by (simp add: proc_show_def wk_shows_def BLOCK_MS_def Let_def)
  qed
  moreover have "proc_show s = [WkFast 0, WkSlow 0, WkBlock 10]" if "wk_seen s = []"
    using inv(1) that by (simp add: wk_inv_def proc_show_def BLOCK_MS_def)
  ultimately show ?thesis by blast
qed

text \<open>Running a schedule.\<close>

definition wk_exec :: "wk_event \<Rightarrow> wk \<Rightarrow> wk option" where
  "wk_exec e s = (case wk_act e s of Cont s' \<Rightarrow> Some s' | _ \<Rightarrow> None)"

definition wk_start :: wk where "wk_start = wk_boot (\<lambda>_. \<lparr>it_start = 0, it_code = 0\<rparr>) 0"

interpretation wk_sched: scheduler wk_exec wk_next wk_start
  by unfold_locales (auto simp: wk_exec_def split: outcome.splits intro: wk_next.act)

text \<open>
  Key \<open>a\<close> (scan code 158) is released; while \<open>work2_fn\<close> sleeps, \<open>b\<close> (176) is released.
\<close>

definition wk_item_steps :: "wk_event list" where
  "wk_item_steps = replicate 5 (Wk_worker True)"

definition wk_two_keys :: "wk_event list" where
  "wk_two_keys = [Wk_irq 158 1, Wk_tick 5] @ wk_item_steps @ [Wk_worker True, Wk_worker True, Wk_tick 9000000, Wk_irq 176 1, Wk_tick 1000000] @ replicate 3 (Wk_worker True)"

definition wk_settled :: "wk_event list" where
  "wk_settled = wk_two_keys @ wk_item_steps @ [Wk_worker False, Wk_worker False, Wk_tick 10000000] @ replicate 3 (Wk_worker False)"

lemma wk_two_keys_run:
  "map_option proc_show (run_actions wk_exec wk_two_keys wk_start) = Some [WkKey ''a'' 176, WkFast 6, WkSlow 1000000, WkBlock 10]"
  "map_option (\<lambda>s. (wk_queue s, wk_run s, wk_seen s, proc_show s)) (run_actions wk_exec wk_settled wk_start) =
     Some ([], Wk_idle, [158, 176], [WkKey ''b'' 176, WkFast 1000001, WkSlow 11000000, WkBlock 10])"
  by code_simp+

theorem wq_settles_on_last_release_witness:
  "\<exists>s. run_actions wk_exec wk_settled wk_start = Some s \<and> hd (proc_show s) = WkKey ''b'' 176 \<and> 10000000 \<le> slow_ns s"
proof -
  obtain s where s: "run_actions wk_exec wk_settled wk_start = Some s"
    "wk_queue s = []" "wk_run s = Wk_idle" "wk_seen s = [158, 176]"
    using wk_two_keys_run(2) by (auto simp: map_option_eq_Some)
  have "reach (\<lambda>s. s = wk_boot (\<lambda>_. \<lparr>it_start = 0, it_code = 0\<rparr>) 0) wk_next s"
    using wk_sched.run_reach [OF s(1)] by (simp add: wk_start_def)
  from wq_settles_on_last_release [OF this] s have "hd (proc_show s) = WkKey (wq_ascii ! 48) 176" "10000000 \<le> slow_ns s"
    by (simp_all add: Let_def)
  moreover have "wq_ascii ! 48 = ''b''" by code_simp
  ultimately show ?thesis using s(1) by simp
qed

text \<open>
  While an item runs the two can differ: \<open>work2_fn\<close> computes the index of the name before it sleeps and reads the code
  after it, so a key released in between is reported with the name of the earlier key, and the time
  is counted from the later one - less than the 10 ms of the sleep.
\<close>

lemma wq_name_and_code_differ:
  "\<exists>s. reach (\<lambda>s. s = wk_start) wk_next s \<and> proc_show s = [WkKey ''a'' 176, WkFast 6, WkSlow 1000000, WkBlock 10]"
  using wk_two_keys_run(1) wk_sched.run_reach [of wk_two_keys] by (auto simp: map_option_eq_Some)

text \<open>
  A release between the reading of the clock and the load of \<open>iw->start\<close> makes the time negative, until the item has run again.
\<close>

definition wk_negative :: "wk_event list" where
  "wk_negative = [Wk_irq 158 1, Wk_tick 5] @ replicate 4 (Wk_worker True) @ [Wk_tick 70, Wk_irq 176 1, Wk_worker True]"

lemma wq_time_can_be_negative:
  "\<exists>s. reach (\<lambda>s. s = wk_start) wk_next s \<and> fast_ns s < 0"
proof -
  have "map_option fast_ns (run_actions wk_exec wk_negative wk_start) = Some (-70)" by code_simp
  then show ?thesis using wk_sched.run_reach [of wk_negative] by (force simp: map_option_eq_Some)
qed

section \<open>The tasklet module\<close>

text \<open>
  The tasklet function gets its data as an argument when it starts: interrupts that come while it runs change
  \<open>tasklet->data\<close>, but neither the code nor the name it stores.  The start time is a global variable.
\<close>

datatype tk_pc = Tk_idle | Tk_fun c_int | Tk_time | Tk_clock int | Tk_start int

record tlet =
  tk_now :: int
  tk_data :: c_int
  tk_pending :: bool
  tk_run :: tk_pc
  irq_start_time :: int
  tk_name :: string
  tk_code :: int
  exec_ns :: int
  tk_seen :: "c_char list"

definition tk_irq_handler :: "int \<Rightarrow> c_char \<Rightarrow> tlet \<Rightarrow> irqreturn_t \<times> tlet" where
  "tk_irq_handler irq port s =
     (let scancode = ucast port in
      if irq = IRQ_NUM \<and> accepted scancode
      then (IRQ_HANDLED, s\<lparr>irq_start_time := tk_now s, tk_data := scancode, tk_pending := True, tk_seen := tk_seen s @ [port]\<rparr>)
      else (IRQ_NONE, s))"

definition tk_step :: "bool \<Rightarrow> tlet \<Rightarrow> tlet outcome" where
  "tk_step clock_first s =
     (case tk_run s of
        Tk_idle \<Rightarrow> (if tk_pending s then Cont (s\<lparr>tk_pending := False, tk_run := Tk_fun (tk_data s)\<rparr>) else Blocked)
      | Tk_fun code \<Rightarrow>
          (if length ascii \<le> unat (press_code code) then UB
           else Cont (s\<lparr>tk_code := sint code, tk_name := key_name_copy (ascii ! unat (press_code code)), tk_run := Tk_time\<rparr>))
      | Tk_time \<Rightarrow> Cont (s\<lparr>tk_run := (if clock_first then Tk_clock (tk_now s) else Tk_start (irq_start_time s))\<rparr>)
      | Tk_clock t \<Rightarrow> Cont (s\<lparr>exec_ns := t - irq_start_time s, tk_run := Tk_idle\<rparr>)
      | Tk_start t0 \<Rightarrow> Cont (s\<lparr>exec_ns := tk_now s - t0, tk_run := Tk_idle\<rparr>))"

datatype tk_line = TkKey string int | TkExec int

definition tk_buf_show :: "tlet \<Rightarrow> tk_line list" where
  "tk_buf_show s = (if tk_code s \<noteq> -1 then [TkKey (c_str (tk_name s)) (tk_code s)] else []) @ [TkExec (exec_ns s)]"

definition tk_boot :: "int \<Rightarrow> tlet" where
  "tk_boot now = \<lparr>tk_now = now, tk_data = 0, tk_pending = False, tk_run = Tk_idle, irq_start_time = 0,
     tk_name = replicate 20 (CHR 0x00), tk_code = -1, exec_ns = 0, tk_seen = []\<rparr>"

inductive tk_next :: "tlet \<Rightarrow> tlet \<Rightarrow> bool" where
  irq: "tk_next s (snd (tk_irq_handler IRQ_NUM p s))"
| softirq: "tk_step b s = Cont s' \<Longrightarrow> tk_next s s'"
| tick: "0 \<le> d \<Longrightarrow> tk_next s (s\<lparr>tk_now := tk_now s + d\<rparr>)"

definition tk_shows :: "c_char \<Rightarrow> tlet \<Rightarrow> bool" where
  "tk_shows p s \<longleftrightarrow> tk_code s = int (unat p) \<and> tk_name s = key_name_copy (ascii ! (unat p - 128))"

definition tk_inv :: "tlet \<Rightarrow> bool" where
  "tk_inv s \<longleftrightarrow> (\<forall>p \<in> set (tk_seen s). accepted (ucast p)) \<and>
     (tk_seen s = [] \<longrightarrow> \<not> tk_pending s \<and> tk_run s = Tk_idle) \<and>
     (tk_code s = -1 \<or> (\<exists>p \<in> set (tk_seen s). tk_shows p s)) \<and>
     (tk_seen s \<noteq> [] \<longrightarrow> tk_data s = ucast (last (tk_seen s)) \<and> irq_start_time s \<le> tk_now s \<and>
        (tk_shows (last (tk_seen s)) s \<or> tk_pending s \<or> (\<exists>c. tk_run s = Tk_fun c))) \<and>
     (\<forall>c. tk_run s = Tk_fun c \<longrightarrow> (\<exists>p \<in> set (tk_seen s). c = ucast p) \<and> (tk_pending s \<or> c = ucast (last (tk_seen s)))) \<and>
     (\<forall>t. tk_run s = Tk_clock t \<longrightarrow> tk_pending s \<or> irq_start_time s \<le> t) \<and> (\<forall>t. tk_run s = Tk_start t \<longrightarrow> t \<le> tk_now s) \<and>
     (tk_run s = Tk_idle \<longrightarrow> tk_pending s \<or> 0 \<le> exec_ns s)"

lemma tk_inv_step:
  assumes "tk_inv s" "tk_step b s = Cont s'"
  shows "tk_inv s'"
proof (cases "tk_run s")
  case Tk_idle
  then have "tk_pending s" "s' = s\<lparr>tk_pending := False, tk_run := Tk_fun (tk_data s)\<rparr>"
    using assms(2) by (auto simp: tk_step_def split: if_splits)
  moreover from this have "tk_seen s \<noteq> []" using assms(1) by (auto simp: tk_inv_def)
  ultimately show ?thesis using assms(1) Tk_idle by (auto simp: tk_inv_def tk_shows_def)
next
  case (Tk_fun c)
  then obtain p where p: "p \<in> set (tk_seen s)" "c = ucast p" "accepted (ucast p)" using assms(1) by (auto simp: tk_inv_def)
  have s': "s' = s\<lparr>tk_code := sint c, tk_name := key_name_copy (ascii ! unat (press_code c)), tk_run := Tk_time\<rparr>"
    using assms(2) Tk_fun by (auto simp: tk_step_def split: if_splits)
  then have "tk_shows p s'" using accepted_index [OF p(3)] p(2) by (simp add: tk_shows_def)
  moreover have "tk_shows (last (tk_seen s)) s'" if "c = ucast (last (tk_seen s))"
  proof -
    have "accepted (ucast (last (tk_seen s)))" using p(2,3) that by simp
    from accepted_index [OF this] that show ?thesis by (simp add: s' tk_shows_def)
  qed
  ultimately show ?thesis using assms(1) Tk_fun p(1) s' by (auto simp: tk_inv_def)
next
  case Tk_time
  moreover from this have "tk_seen s \<noteq> []" using assms(1) by (auto simp: tk_inv_def)
  ultimately show ?thesis using assms by (auto simp: tk_step_def tk_inv_def tk_shows_def split: if_splits)
next
  case (Tk_clock t)
  then show ?thesis using assms by (auto simp: tk_step_def tk_inv_def tk_shows_def)
next
  case (Tk_start t)
  then show ?thesis using assms by (auto simp: tk_step_def tk_inv_def tk_shows_def)
qed

lemma tk_next_inv: "tk_next s s' \<Longrightarrow> tk_inv s \<Longrightarrow> tk_inv s'"
proof (induction rule: tk_next.induct)
  case (irq s p)
  then show ?case by (auto simp: tk_irq_handler_def tk_inv_def tk_shows_def Let_def)
next
  case (tick d s)
  then show ?case by (auto simp: tk_inv_def tk_shows_def)
qed (simp add: tk_inv_step)

interpretation tk_sys: invariant_system "\<lambda>s. s = tk_boot now" tk_next tk_inv for now
  by unfold_locales (auto simp: tk_next_inv, simp add: tk_inv_def tk_boot_def)

text \<open>
  To a reader on its own processor, which does not run between its statements, the tasklet module never shows the name of one key with the code of
  another, and it shows the last one when nothing is pending or running.
\<close>

lemma tasklet_reports_consistent:
  assumes "reach (\<lambda>s. s = tk_boot now) tk_next s"
  shows "tk_step b s \<noteq> UB \<and>
    (tk_code s \<noteq> -1 \<longrightarrow> (\<exists>p \<in> set (tk_seen s). tk_buf_show s = [TkKey (ascii ! (unat p - 128)) (int (unat p)), TkExec (exec_ns s)])) \<and>
    (tk_seen s \<noteq> [] \<and> \<not> tk_pending s \<and> tk_run s = Tk_idle \<longrightarrow> tk_shows (last (tk_seen s)) s \<and> 0 \<le> exec_ns s)"
proof -
  have inv: "tk_inv s" using assms by (rule tk_sys.reach_inv)
  have "unat (press_code c) < length ascii" if "tk_run s = Tk_fun c" for c
    using that inv key_name_shown(1) by (auto simp: tk_inv_def)
  then have "tk_step b s \<noteq> UB" by (auto simp: tk_step_def split: tk_pc.splits)
  moreover have "\<exists>p \<in> set (tk_seen s). tk_buf_show s = [TkKey (ascii ! (unat p - 128)) (int (unat p)), TkExec (exec_ns s)]"
    if code: "tk_code s \<noteq> -1"
  proof -
    obtain p where p: "p \<in> set (tk_seen s)" "tk_shows p s" "accepted (ucast p)" using inv code by (auto simp: tk_inv_def)
    then show ?thesis using key_name_shown(3) [OF p(3)] code by (intro bexI [of _ p]) (simp_all add: tk_buf_show_def tk_shows_def)
  qed
  ultimately show ?thesis using inv by (auto simp: tk_inv_def)
qed

end
