(* ===== verification/Rpc_Wire.thy ===== *)
theory Rpc_Wire
  imports Rpc_Dispatch Calc_Rpc
begin

text \<open>
  What the RPC programs put on the wire: the XDR routines and the client stubs of \<open>sem_05/rpc\<close>, and a remote call of the ticket
  server of \<open>compile/0\<close> from the client's stub to the procedure and back.  The primitive XDR routines and \<open>clnt_call\<close> belong
  to the RPC library and are parameters; the locale \<open>xdr_field\<close> and the definition \<open>clnt_call_law\<close> say what the programs rely on.
\<close>

unbundle bit_operations_syntax

section \<open>XDR routines\<close>

type_synonym byte = "8 word"
type_synonym 'a xput = "'a \<Rightarrow> byte list option"
type_synonym 'a xget = "byte list \<Rightarrow> ('a \<times> byte list) option"

text \<open>
  A routine encodes the values in \<open>ok\<close>, and decoding gives them back and leaves the rest of the stream.
\<close>

locale xdr_field =
  fixes put :: "'a xput" and get :: "'a xget" and ok :: "'a \<Rightarrow> bool"
  assumes put_ok: "ok v \<Longrightarrow> put v \<noteq> None"
    and get_put: "ok v \<Longrightarrow> put v = Some bs \<Longrightarrow> get (bs @ rest) = Some (v, rest)"
begin

lemma encodes: "ok v \<Longrightarrow> \<exists>bs. put v = Some bs \<and> (\<forall>rest. get (bs @ rest) = Some (v, rest))"
  using put_ok get_put by blast

lemma injective: "ok v \<Longrightarrow> ok w \<Longrightarrow> put v = put w \<Longrightarrow> v = w"
  using encodes [of v] get_put [of w] by (metis Pair_inject option.inject)

end

text \<open>Encoding and decoding one field after the other, as every structure routine does; the first failure ends it.\<close>

definition then_put :: "byte list option \<Rightarrow> byte list option \<Rightarrow> byte list option" where
  "then_put a b = (case a of None \<Rightarrow> None | Some x \<Rightarrow> map_option (\<lambda>y. x @ y) b)"

record RESULT =
  r_recieved :: int
  r_time :: int

definition put_BAKERY_RESULT :: "int xput \<Rightarrow> int xput \<Rightarrow> RESULT xput" where
  "put_BAKERY_RESULT put_int put_long r = then_put (put_int (r_recieved r)) (put_long (r_time r))"

definition get_BAKERY_RESULT :: "int xget \<Rightarrow> int xget \<Rightarrow> RESULT xget" where
  "get_BAKERY_RESULT get_int get_long bs = (case get_int bs of None \<Rightarrow> None
     | Some (a, bs1) \<Rightarrow> (case get_long bs1 of None \<Rightarrow> None
     | Some (b, bs2) \<Rightarrow> Some (\<lparr>r_recieved = a, r_time = b\<rparr>, bs2)))"

definition put_CALCULATOR :: "int xput \<Rightarrow> 'f xput \<Rightarrow> 'f CALCULATOR xput" where
  "put_CALCULATOR put_int put_float c = then_put (put_int (c_op c)) (then_put (put_float (c_arg1 c)) (put_float (c_arg2 c)))"

definition get_CALCULATOR :: "int xget \<Rightarrow> 'f xget \<Rightarrow> 'f CALCULATOR xget" where
  "get_CALCULATOR get_int get_float bs = (case get_int bs of None \<Rightarrow> None
     | Some (op, bs1) \<Rightarrow> (case get_float bs1 of None \<Rightarrow> None
     | Some (a, bs2) \<Rightarrow> (case get_float bs2 of None \<Rightarrow> None
     | Some (b, bs3) \<Rightarrow> Some (\<lparr>c_op = op, c_arg1 = a, c_arg2 = b\<rparr>, bs3))))"

definition put_REQUEST :: "int xput \<Rightarrow> int xput" where
  "put_REQUEST put_int ticket = put_int ticket"

definition get_REQUEST :: "int xget \<Rightarrow> int xget" where
  "get_REQUEST get_int bs = get_int bs"

section \<open>Client stubs\<close>

text \<open>
  \<open>clnt_call\<close> is a parameter of every stub.  \<open>net\<close> is the other side: procedure number and bytes to the bytes of the reply, if one comes.
\<close>

datatype clnt_stat = RPC_SUCCESS | RPC_CANTENCODEARGS | RPC_FAILED | RPC_CANTDECODERES

type_synonym 's net = "int \<Rightarrow> byte list \<Rightarrow> 's \<Rightarrow> byte list option \<times> 's"

type_synonym ('a, 'b, 's) clnt = "'a xput \<Rightarrow> 'b xget \<Rightarrow> 's net \<Rightarrow> int \<Rightarrow> 'a \<Rightarrow> 'b \<Rightarrow> 's \<Rightarrow> (clnt_stat \<times> 'b) \<times> 's"

text \<open>
  What is documented of it, over a network that loses neither request nor reply: arguments that can be encoded reach the other side once; if the reply can be decoded
  the status is \<open>RPC_SUCCESS\<close> and the place given holds the value; that status comes only with a decoded value, and any other leaves the
  place alone.
\<close>

definition clnt_call_law :: "('a, 'b, 's) clnt \<Rightarrow> bool" where
  "clnt_call_law call \<longleftrightarrow> (\<forall>put get net proc arg res s.
     (\<forall>bs. put arg = Some bs \<longrightarrow> snd (call put get net proc arg res s) = snd (net proc bs s)) \<and>
     (\<forall>bs rs v rest. put arg = Some bs \<and> fst (net proc bs s) = Some rs \<and> get rs = Some (v, rest) \<longrightarrow>
        fst (call put get net proc arg res s) = (RPC_SUCCESS, v)) \<and>
     (\<forall>v. fst (call put get net proc arg res s) = (RPC_SUCCESS, v) \<longrightarrow> (\<exists>rs rest. get rs = Some (v, rest))) \<and>
     (\<forall>stat v. fst (call put get net proc arg res s) = (stat, v) \<and> stat \<noteq> RPC_SUCCESS \<longrightarrow> v = res))"

definition put_void :: "unit xput" where "put_void u = Some []"
definition get_void :: "unit xget" where "get_void bs = Some ((), bs)"

text \<open>\<open>compile/0\<close>, \<open>new_bakery\<close> and the calculator: the status is returned, the result goes to the caller's variable.\<close>

definition get_number_1 :: "(unit, int, 's) clnt \<Rightarrow> int xget \<Rightarrow> 's net \<Rightarrow> int \<Rightarrow> 's \<Rightarrow> (clnt_stat \<times> int) \<times> 's" where
  "get_number_1 call gi net res s = call put_void gi net GET_NUMBER () res s"

definition bakery_proc_1 :: "(int, RESULT, 's) clnt \<Rightarrow> int xput \<Rightarrow> RESULT xget \<Rightarrow> 's net \<Rightarrow> int \<Rightarrow> RESULT \<Rightarrow> 's \<Rightarrow> (clnt_stat \<times> RESULT) \<times> 's" where
  "bakery_proc_1 call pi gr net arg res s = call pi gr net BAKERY_PROC arg res s"

definition nb_register_proc_1 :: "(int, unit, 's) clnt \<Rightarrow> int xput \<Rightarrow> 's net \<Rightarrow> int \<Rightarrow> 's \<Rightarrow> clnt_stat \<times> 's" where
  "nb_register_proc_1 call pi net arg s = (case call pi get_void net 1 arg () s of ((st, u), s') \<Rightarrow> (st, s'))"

definition nb_get_number_proc_1 :: "(int, int, 's) clnt \<Rightarrow> int xput \<Rightarrow> int xget \<Rightarrow> 's net \<Rightarrow> int \<Rightarrow> int \<Rightarrow> 's \<Rightarrow> (clnt_stat \<times> int) \<times> 's" where
  "nb_get_number_proc_1 call pi gi net arg res s = call pi gi net 2 arg res s"

definition nb_result_proc_1 :: "(int, int, 's) clnt \<Rightarrow> int xput \<Rightarrow> int xget \<Rightarrow> 's net \<Rightarrow> int \<Rightarrow> int \<Rightarrow> 's \<Rightarrow> (clnt_stat \<times> int) \<times> 's" where
  "nb_result_proc_1 call pi gl net arg res s = call pi gl net 3 arg res s"

definition calculator_proc_1 :: "('f CALCULATOR, 'f, 's) clnt \<Rightarrow> 'f CALCULATOR xput \<Rightarrow> 'f xget \<Rightarrow> 's net \<Rightarrow> 'f CALCULATOR \<Rightarrow> 'f \<Rightarrow> 's \<Rightarrow> (clnt_stat \<times> 'f) \<times> 's" where
  "calculator_proc_1 call pc gf net arg res s = call pc gf net 1 arg res s"

text \<open>
  \<open>bakery_2\<close> and \<open>bakery (2)\<close>: a pointer is returned, null or to a static variable that is cleared before the call.  The
  first component tells whether the pointer is not null, the second is the static variable.
\<close>

definition static_call :: "('a, int, 's) clnt \<Rightarrow> 'a xput \<Rightarrow> int xget \<Rightarrow> 's net \<Rightarrow> int \<Rightarrow> 'a \<Rightarrow> 's \<Rightarrow> (bool \<times> int) \<times> 's" where
  "static_call call put get net proc arg s = (case call put get net proc arg 0 s of
     ((st, clnt_res), s') \<Rightarrow> ((st = RPC_SUCCESS, clnt_res), s'))"

definition bp_register_proc_1 :: "(int, int, 's) clnt \<Rightarrow> int xput \<Rightarrow> int xget \<Rightarrow> 's net \<Rightarrow> int \<Rightarrow> 's \<Rightarrow> (bool \<times> int) \<times> 's" where
  "bp_register_proc_1 call pi gi net arg s = static_call call pi gi net 1 arg s"

definition bp_result_proc_1 :: "(int, int, 's) clnt \<Rightarrow> int xput \<Rightarrow> int xget \<Rightarrow> 's net \<Rightarrow> int \<Rightarrow> 's \<Rightarrow> (bool \<times> int) \<times> 's" where
  "bp_result_proc_1 call pi gl net arg s = static_call call pi gl net 2 arg s"

definition b2_get_number_1 :: "(int, int, 's) clnt \<Rightarrow> int xput \<Rightarrow> int xget \<Rightarrow> 's net \<Rightarrow> int \<Rightarrow> 's \<Rightarrow> (bool \<times> int) \<times> 's" where
  "b2_get_number_1 call pi gi net arg s = static_call call pi gi net 1 arg s"

definition b2_bakery_proc_1 :: "(int, int, 's) clnt \<Rightarrow> int xput \<Rightarrow> int xget \<Rightarrow> 's net \<Rightarrow> int \<Rightarrow> 's \<Rightarrow> (bool \<times> int) \<times> 's" where
  "b2_bakery_proc_1 call pi gl net arg s = static_call call (put_REQUEST pi) gl net 2 arg s"

section \<open>The other side: \<open>compile/0\<close>\<close>

text \<open>
  The dispatcher for one request, from the bytes of the arguments to those of the reply.  \<open>stale\<close> is what \<open>result.time\<close> holds where the
  procedure leaves it unset.  No reply, or \<open>svcerr_systemerr\<close> when the result cannot be encoded, is \<open>None\<close>.
\<close>

definition b0_net :: "int xput \<Rightarrow> int xget \<Rightarrow> int xput \<Rightarrow> (int \<times> int) option \<Rightarrow> int \<Rightarrow> bakery0 net" where
  "b0_net pi gi pl clk stale proc bs s =
     (if proc = NULLPROC then (Some [], s)
      else if proc = GET_NUMBER then (case get_number_1_svc s of (n, s') \<Rightarrow> (pi n, s'))
      else if proc = BAKERY_PROC then
        (case gi bs of
           None \<Rightarrow> (None, s)
         | Some (a, _) \<Rightarrow> (case bakery_proc_1_svc clk a s of ((retval, r), s') \<Rightarrow>
             (if retval then put_BAKERY_RESULT pi pl \<lparr>r_recieved = is_recieved_time r, r_time = (case br_time r of None \<Rightarrow> stale | Some t \<Rightarrow> t)\<rparr>
              else None, s')))
      else (None, s))"

text \<open>
  The calculator's dispatcher and the worker it starts, on bytes; \<open>g\<close> and \<open>r\<close> are what \<open>retval\<close> and \<open>result\<close> of the worker
  hold at its start.  The server keeps no state.
\<close>

definition calc_net :: "'f float_ops \<Rightarrow> int xget \<Rightarrow> 'f xput \<Rightarrow> 'f xget \<Rightarrow> int \<Rightarrow> 'f \<Rightarrow> unit net" where
  "calc_net fo gi pf gf g r proc bs s =
     (if proc = 0 then (Some [], s)
      else if proc = 1 then
        (case get_CALCULATOR gi gf bs of
           None \<Rightarrow> (None, s)
         | Some (a, _) \<Rightarrow> (case calculator_proc_1_svc fo g a r of
             (retval, result) \<Rightarrow> (if retval > 0 then pf result else None, s)))
      else (None, s))"

section \<open>Round trips\<close>

lemma bakery_result_field:
  assumes "xdr_field pi gi oki" "xdr_field pl gl okl"
  shows "xdr_field (put_BAKERY_RESULT pi pl) (get_BAKERY_RESULT gi gl) (\<lambda>r. oki (r_recieved r) \<and> okl (r_time r))"
proof
  fix r :: RESULT
  assume "oki (r_recieved r) \<and> okl (r_time r)"
  then obtain a b where ab: "pi (r_recieved r) = Some a" "pl (r_time r) = Some b"
    "\<And>rest. gi (a @ rest) = Some (r_recieved r, rest)" "\<And>rest. gl (b @ rest) = Some (r_time r, rest)"
    using xdr_field.encodes [OF assms(1)] xdr_field.encodes [OF assms(2)] by metis
  then show "put_BAKERY_RESULT pi pl r \<noteq> None" by (simp add: put_BAKERY_RESULT_def then_put_def)
  show "get_BAKERY_RESULT gi gl (bs @ rest) = Some (r, rest)" if "put_BAKERY_RESULT pi pl r = Some bs" for bs rest
    using that ab by (auto simp: put_BAKERY_RESULT_def then_put_def get_BAKERY_RESULT_def)
qed

lemma calculator_field:
  assumes "xdr_field pi gi oki" "xdr_field pf gf okf"
  shows "xdr_field (put_CALCULATOR pi pf) (get_CALCULATOR gi gf) (\<lambda>c. oki (c_op c) \<and> okf (c_arg1 c) \<and> okf (c_arg2 c))"
proof
  fix c :: "'a CALCULATOR"
  assume "oki (c_op c) \<and> okf (c_arg1 c) \<and> okf (c_arg2 c)"
  then obtain a b d where ab: "pi (c_op c) = Some a" "pf (c_arg1 c) = Some b" "pf (c_arg2 c) = Some d"
    "\<And>rest. gi (a @ rest) = Some (c_op c, rest)" "\<And>rest. gf (b @ rest) = Some (c_arg1 c, rest)"
    "\<And>rest. gf (d @ rest) = Some (c_arg2 c, rest)"
    using xdr_field.encodes [OF assms(1)] xdr_field.encodes [OF assms(2)] by metis
  then show "put_CALCULATOR pi pf c \<noteq> None" by (simp add: put_CALCULATOR_def then_put_def)
  show "get_CALCULATOR gi gf (bs @ rest) = Some (c, rest)" if "put_CALCULATOR pi pf c = Some bs" for bs rest
    using that ab by (auto simp: put_CALCULATOR_def then_put_def get_CALCULATOR_def)
qed

text \<open>The four bytes of RFC 4506, most significant first; a larger value is cut.\<close>

definition be32_put :: "int xput" where
  "be32_put v = (let w = word_of_int v :: 32 word in
     Some [ucast (drop_bit 24 w), ucast (drop_bit 16 w), ucast (drop_bit 8 w), ucast w])"

fun be32_get :: "int xget" where
  "be32_get (a # b # c # d # rest) =
     Some (sint (push_bit 24 (ucast a) OR push_bit 16 (ucast b) OR push_bit 8 (ucast c) OR ucast d :: 32 word), rest)"
| "be32_get _ = None"

definition fits32 :: "int \<Rightarrow> bool" where
  "fits32 v \<longleftrightarrow> - 2147483648 \<le> v \<and> v \<le> 2147483647"

lemma be32_word:
  "push_bit 24 (ucast (ucast (drop_bit 24 w) :: byte)) OR push_bit 16 (ucast (ucast (drop_bit 16 w) :: byte)) OR
     push_bit 8 (ucast (ucast (drop_bit 8 w) :: byte)) OR ucast (ucast w :: byte) = (w :: 32 word)"
proof (rule bit_word_eqI)
  fix n
  assume n: "n < LENGTH(32)"
  consider "n < 8" | "8 \<le> n" "n < 16" | "16 \<le> n" "n < 24" | "24 \<le> n" by linarith
  then show "bit (push_bit 24 (ucast (ucast (drop_bit 24 w) :: byte)) OR push_bit 16 (ucast (ucast (drop_bit 16 w) :: byte)) OR
     push_bit 8 (ucast (ucast (drop_bit 8 w) :: byte)) OR ucast (ucast w :: byte) :: 32 word) n = bit w n"
    using n by cases (auto simp: bit_simps)
qed

lemma fits32_sint: "fits32 v \<Longrightarrow> sint (word_of_int v :: 32 word) = v"
  by (simp add: fits32_def sint_sbintrunc' signed_take_bit_int_eq_self)

lemma fits32_word: "fits32 (sint (w :: 32 word))"
  using sint_ge [of w] sint_lt [of w] by (simp add: fits32_def)

lemma be32_get_fits: "be32_get bs = Some (v, rest) \<Longrightarrow> fits32 v"
  by (cases bs rule: be32_get.cases) (auto simp: fits32_word)

interpretation be32: xdr_field be32_put be32_get fits32
  by unfold_locales (auto simp: be32_put_def be32_word fits32_sint Let_def)

interpretation be_result: xdr_field "put_BAKERY_RESULT be32_put be32_put" "get_BAKERY_RESULT be32_get be32_get"
    "\<lambda>r. fits32 (r_recieved r) \<and> fits32 (r_time r)"
  by (rule bakery_result_field [OF be32.xdr_field_axioms be32.xdr_field_axioms])

interpretation be_calc: xdr_field "put_CALCULATOR be32_put be32_put" "get_CALCULATOR be32_get be32_get"
    "\<lambda>c. fits32 (c_op c) \<and> fits32 (c_arg1 c) \<and> fits32 (c_arg2 c)"
  by (rule calculator_field [OF be32.xdr_field_axioms be32.xdr_field_axioms])

section \<open>Remote calls\<close>

lemma clnt_call_laws:
  assumes "clnt_call_law call"
  shows "put arg = Some bs \<Longrightarrow> snd (call put get net proc arg res s) = snd (net proc bs s)"
    and "put arg = Some bs \<Longrightarrow> fst (net proc bs s) = Some rs \<Longrightarrow> get rs = Some (v, rest) \<Longrightarrow>
      fst (call put get net proc arg res s) = (RPC_SUCCESS, v)"
    and "fst (call put get net proc arg res s) = (RPC_SUCCESS, v) \<Longrightarrow> \<exists>rs rest. get rs = Some (v, rest)"
    and "fst (call put get net proc arg res s) = (stat, v) \<Longrightarrow> stat \<noteq> RPC_SUCCESS \<Longrightarrow> v = res"
  using assms unfolding clnt_call_law_def by blast+

lemma clnt_call_success:
  assumes "clnt_call_law call" "put arg = Some bs" "net proc bs s = (Some rs, s')" "get rs = Some (v, rest)"
  shows "call put get net proc arg res s = ((RPC_SUCCESS, v), s')"
proof -
  have "snd (call put get net proc arg res s) = s'" using clnt_call_laws(1) [OF assms(1), of put arg bs get net proc res s] assms(2,3) by simp
  moreover have "fst (call put get net proc arg res s) = (RPC_SUCCESS, v)"
    using clnt_call_laws(2) [OF assms(1), of put arg bs net proc s rs get v rest res] assms(2,3,4) by simp
  ultimately show ?thesis by (metis prod.collapse)
qed

text \<open>The call that does just that.\<close>

definition plain_call :: "('a, 'b, 's) clnt" where
  "plain_call put get net proc arg res s = (case put arg of
      None \<Rightarrow> ((RPC_CANTENCODEARGS, res), s)
    | Some bs \<Rightarrow> (case net proc bs s of
        (None, s') \<Rightarrow> ((RPC_FAILED, res), s')
      | (Some rs, s') \<Rightarrow> (case get rs of
          None \<Rightarrow> ((RPC_CANTDECODERES, res), s')
        | Some (v, _) \<Rightarrow> ((RPC_SUCCESS, v), s'))))"

lemma plain_call_law: "clnt_call_law plain_call"
  by (auto simp: clnt_call_law_def plain_call_def split: option.splits prod.splits)

lemma get_number_remote:
  assumes law: "clnt_call_law call" and int: "xdr_field pi gi fits32" and fits: "fits32 (client_num s)"
  shows "get_number_1 call gi (b0_net pi gi pl clk stale) res s =
    ((RPC_SUCCESS, client_num s), s\<lparr>client_num := client_num s + 1\<rparr>)"
proof -
  obtain bs where "pi (client_num s) = Some bs" "gi (bs @ []) = Some (client_num s, [])"
    using xdr_field.encodes [OF int fits] by blast
  then show ?thesis
    unfolding get_number_1_def
    by (intro clnt_call_success [OF law, where bs = "[]" and rs = bs and rest = "[]"])
      (simp_all add: put_void_def b0_net_def get_number_1_svc_def GET_NUMBER_def NULLPROC_def)
qed

text \<open>The stubs that return a pointer: a null pointer comes with a cleared static variable.\<close>

lemma static_call_null:
  assumes "clnt_call_law call" "static_call call put get net proc arg s = ((False, v), s')"
  shows "v = 0"
proof -
  obtain st w u where c: "call put get net proc arg 0 s = ((st, w), u)" by (metis prod.exhaust)
  then have "st \<noteq> RPC_SUCCESS" "v = w" using assms(2) by (simp_all add: static_call_def)
  then show ?thesis using clnt_call_laws(4) [OF assms(1), of put get net proc arg 0 s st w] c by simp
qed

text \<open>A remote calculation gives the client what the procedure computes on the client's operation and arguments.\<close>

lemma calculator_remote:
  assumes law: "clnt_call_law call" and int: "xdr_field pi gi oki" and float: "xdr_field pf gf okf"
    and arg: "oki (c_op a)" "okf (c_arg1 a)" "okf (c_arg2 a)"
    and svc: "calculator_proc_1_svc fo g a r = (retval, result)" "0 < retval" "okf result"
  shows "calculator_proc_1 call (put_CALCULATOR pi pf) gf (calc_net fo gi pf gf g r) a res s = ((RPC_SUCCESS, result), s)"
proof -
  obtain bs where "put_CALCULATOR pi pf a = Some bs" "get_CALCULATOR gi gf (bs @ []) = Some (a, [])"
    using xdr_field.encodes [OF calculator_field [OF int float], of a] arg by blast
  moreover obtain rs where "pf result = Some rs" "gf (rs @ []) = Some (result, [])"
    using xdr_field.encodes [OF float svc(3)] by blast
  ultimately show ?thesis
    using svc unfolding calculator_proc_1_def
    by (intro clnt_call_success [OF law, where bs = bs and rs = rs and rest = "[]"]) (simp_all add: calc_net_def)
qed

text \<open>What the dispatcher encodes for one call of \<open>bakery_proc_1_svc\<close>.\<close>

definition b0_sent :: "int \<Rightarrow> bakery_result \<Rightarrow> RESULT" where
  "b0_sent stale r = \<lparr>r_recieved = is_recieved_time r, r_time = (case br_time r of None \<Rightarrow> stale | Some t \<Rightarrow> t)\<rparr>"

lemma bakery_proc_remote:
  assumes law: "clnt_call_law call" and int: "xdr_field pi gi fits32" and long: "xdr_field pl gl fits32" and arg: "fits32 arg"
    and svc: "bakery_proc_1_svc clk arg s = ((True, r), s')" and fits: "fits32 (r_time (b0_sent stale r))"
  shows "bakery_proc_1 call pi (get_BAKERY_RESULT gi gl) (b0_net pi gi pl clk stale) arg res s = ((RPC_SUCCESS, b0_sent stale r), s')"
proof -
  obtain bs where bs: "pi arg = Some bs" "gi (bs @ []) = Some (arg, [])"
    using xdr_field.encodes [OF int arg] by blast
  have "fits32 (r_recieved (b0_sent stale r))"
    using svc by (auto simp: bakery_proc_1_svc_def b0_sent_def fits32_def split: if_splits option.splits)
  then obtain rs where "put_BAKERY_RESULT pi pl (b0_sent stale r) = Some rs"
    "get_BAKERY_RESULT gi gl (rs @ []) = Some (b0_sent stale r, [])"
    using xdr_field.encodes [OF bakery_result_field [OF int long], of "b0_sent stale r"] fits by blast
  then show ?thesis
    using bs svc unfolding bakery_proc_1_def
    by (intro clnt_call_success [OF law, where bs = bs and rs = rs and rest = "[]"])
      (simp_all add: b0_net_def b0_sent_def GET_NUMBER_def NULLPROC_def BAKERY_PROC_def)
qed

lemma result_time_decoded:
  assumes "get_BAKERY_RESULT gi gl bs = Some (v, rest)"
  obtains bs' rest' where "gl bs' = Some (r_time v, rest')"
  using assms by (fastforce simp: get_BAKERY_RESULT_def split: option.splits)

lemma bakery_proc_remote_state:
  assumes law: "clnt_call_law call" and "xdr_field pi gi fits32" "fits32 arg"
  shows "snd (bakery_proc_1 call pi gr (b0_net pi gi pl clk stale) arg res s) = snd (bakery_proc_1_svc clk arg s)"
proof -
  obtain bs where "pi arg = Some bs" "gi (bs @ []) = Some (arg, [])"
    using xdr_field.encodes [OF assms(2,3)] by blast
  then show ?thesis
    using clnt_call_laws(1) [OF law]
    by (auto simp: bakery_proc_1_def b0_net_def GET_NUMBER_def NULLPROC_def BAKERY_PROC_def split: prod.splits)
qed

text \<open>
  (C37) A remote call of the ticket server, from the stub through the XDR routines and the dispatcher to the procedure and back.
  Given a \<open>clnt_call\<close> as documented and primitive XDR routines that carry 32-bit values, the stub of \<open>GET_NUMBER\<close> gives the client the counter and advances it; the
  stub of \<open>BAKERY_PROC\<close> gives the client exactly the result of the procedure, and leaves the server in its state,
  when the time fits 32 bits.  A time that does not fit, which is every time from the second 2147484 after the epoch on,
  never arrives, although the server has already moved on to the next client.
\<close>

theorem remote_call_roundtrip:
  assumes laws: "clnt_call_law call1" "clnt_call_law call2"
    and int: "xdr_field pi gi fits32" and long: "xdr_field pl gl fits32"
    and wire: "\<forall>bs v rest. gl bs = Some (v, rest) \<longrightarrow> fits32 v"
    and fits: "fits32 (client_num s)" "fits32 arg" "fits32 stale" and nsec: "0 \<le> nsec"
    and svc: "bakery_proc_1_svc (Some (sec, nsec)) arg s = ((True, r), s')"
    and call: "bakery_proc_1 call2 pi (get_BAKERY_RESULT gi gl) (b0_net pi gi pl (Some (sec, nsec)) stale) arg res s = ((stat, res'), s'')"
  shows "get_number_1 call1 gi (b0_net pi gi pl clk stale) n s = ((RPC_SUCCESS, fst (get_number_1_svc s)), snd (get_number_1_svc s)) \<and>
    s'' = s' \<and>
    (fits32 (r_time (b0_sent stale r)) \<longrightarrow> stat = RPC_SUCCESS \<and> res' = b0_sent stale r) \<and>
    (arg = client_number_service s \<and> 2147484 \<le> sec \<longrightarrow>
      client_number_service s'' = client_number_service s + 1 \<and> \<not> (stat = RPC_SUCCESS \<and> Some (r_time res') = br_time r))"
proof -
  have number: "get_number_1 call1 gi (b0_net pi gi pl clk stale) n s = ((RPC_SUCCESS, fst (get_number_1_svc s)), snd (get_number_1_svc s))"
    using get_number_remote [OF laws(1) int fits(1)] by (simp add: get_number_1_svc_def)
  have state: "s'' = s'"
    using bakery_proc_remote_state [OF laws(2) int fits(2), of "get_BAKERY_RESULT gi gl" pl "Some (sec, nsec)" stale res s] call svc by simp
  have exact: "stat = RPC_SUCCESS \<and> res' = b0_sent stale r" if "fits32 (r_time (b0_sent stale r))"
    using bakery_proc_remote [OF laws(2) int long fits(2) svc that] call by simp
  have lost: "client_number_service s'' = client_number_service s + 1 \<and> \<not> (stat = RPC_SUCCESS \<and> Some (r_time res') = br_time r)"
    if late: "arg = client_number_service s" "2147484 \<le> sec"
  proof -
    have r: "br_time r = Some ((sec * 1000000000 + nsec) div 1000000)" "client_number_service s' = client_number_service s + 1"
      using svc late by (auto simp: bakery_proc_1_svc_def)
    have "2147484 * 1000000000 \<le> sec * 1000000000 + nsec" using late nsec by linarith
    then have "\<not> fits32 ((sec * 1000000000 + nsec) div 1000000)"
      unfolding fits32_def by linarith
    moreover have "fits32 (r_time res')" if "stat = RPC_SUCCESS"
      using call that wire clnt_call_laws(3) [OF laws(2)] by (metis bakery_proc_1_def fst_conv result_time_decoded)
    ultimately show ?thesis using r state by auto
  qed
  show ?thesis using number state exact lost by blast
qed

definition demo_call :: "int \<Rightarrow> int \<Rightarrow> (clnt_stat \<times> RESULT) \<times> bakery0" where
  "demo_call sec nsec = bakery_proc_1 plain_call be32_put (get_BAKERY_RESULT be32_get be32_get)
     (b0_net be32_put be32_get be32_put (Some (sec, nsec)) 0) 0 \<lparr>r_recieved = 0, r_time = 0\<rparr> bakery0_boot"

theorem remote_call_roundtrip_witness:
  "demo_call 1000 5000000 = ((RPC_SUCCESS, \<lparr>r_recieved = 1, r_time = 1000005\<rparr>), \<lparr>client_number_service = 1, client_num = 0\<rparr>)"
proof -
  obtain stat v s where run: "demo_call 1000 5000000 = ((stat, v), s)" by (metis prod.exhaust)
  have svc: "bakery_proc_1_svc (Some (1000, 5000000)) 0 bakery0_boot =
      ((True, \<lparr>is_recieved_time = 1, br_time = Some 1000005\<rparr>), \<lparr>client_number_service = 1, client_num = 0\<rparr>)"
    by (simp add: bakery_proc_1_svc_def bakery0_boot_def)
  have "fits32 (client_num bakery0_boot)" "fits32 0" "fits32 1000005" by (simp_all add: fits32_def bakery0_boot_def)
  then show ?thesis
    using remote_call_roundtrip [OF plain_call_law plain_call_law be32.xdr_field_axioms be32.xdr_field_axioms _ _ _ _ _ svc run [unfolded demo_call_def]]
      be32_get_fits run by (simp add: b0_sent_def)
qed

end
