(* ===== verification/Pipe_Procs.thy ===== *)
theory Pipe_Procs
  imports Unix_Labs
begin

text \<open>
  The programs \<open>pipe.c\<close> and \<open>signal.c\<close> as processes: a parent that forks two children, waits for both and reads the pipe,
  and children that write and exit, in any interleaving, with SIGINT at any moment in \<open>signal.c\<close>.  They are shown to print what
  the functions \<open>pipe_main\<close> and \<open>signal_main\<close> compute for some order of the children, and to end.
\<close>

section \<open>Model\<close>

datatype pp_prog = Pipe_c | Signal_c

definition child_bytes :: "pp_prog \<Rightarrow> nat \<Rightarrow> string" where
  "child_bytes prog i = (case prog of Pipe_c \<Rightarrow> pipe_msg i @ [NUL] | Signal_c \<Rightarrow> signal_msg i)"

definition read_sizes :: "pp_prog \<Rightarrow> nat list" where
  "read_sizes prog = (case prog of
     Pipe_c \<Rightarrow> map (\<lambda>i. length (pipe_msg i) + 1) [0..<3]
   | Signal_c \<Rightarrow> map (\<lambda>i. length (signal_msg i)) [0..<2])"

text \<open>A child has its own copy of \<open>flag\<close>, made by \<open>fork\<close>.\<close>

datatype pp_kid = Not_forked | At_write bool | At_exit | Zombie | Reaped

datatype pp_pc = Pp_fork nat | Pp_wait nat | Pp_close | Pp_read nat | Pp_done

text \<open>\<open>pp_wrote\<close> records the children that have written, in their order.\<close>

record pp =
  pp_flag :: bool
  pp_at :: pp_pc
  pp_kids :: "pp_kid list"
  pp_pipe :: string
  pp_buf :: string
  pp_out :: "(nat \<times> string) list"
  pp_reports :: "(nat \<times> report) list"
  pp_wrote :: "nat list"

definition pp_boot :: "string \<Rightarrow> pp" where
  "pp_boot garbage = \<lparr>pp_flag = False, pp_at = Pp_fork 0, pp_kids = [Not_forked, Not_forked], pp_pipe = [], pp_buf = garbage,
     pp_out = [], pp_reports = [], pp_wrote = []\<rparr>"

text \<open>
  The report of a child that ended with \<open>exit(0)\<close>: \<open>pipe.c\<close> prints a line for the child that \<open>wait\<close> returned, \<open>signal.c\<close> prints
  nothing for a normal exit.
\<close>

definition kid_report :: "pp_prog \<Rightarrow> nat \<Rightarrow> (nat \<times> report) list" where
  "kid_report prog i = (let r = wait_report (wait_status (Exited 0)) in
     case prog of Pipe_c \<Rightarrow> [(i, r)] | Signal_c \<Rightarrow> (case r of ReportExited _ \<Rightarrow> [] | _ \<Rightarrow> [(i, r)]))"

text \<open>
  One step of the parent: \<open>ok\<close> is the success of \<open>fork\<close> or \<open>close\<close>, \<open>i\<close> the child that \<open>wait\<close> returns.  A read of an empty
  pipe waits while a child can still write.
\<close>

definition pp_parent :: "pp_prog \<Rightarrow> bool \<Rightarrow> nat \<Rightarrow> pp \<Rightarrow> pp outcome" where
  "pp_parent prog ok i s =
     (case pp_at s of
        Pp_fork k \<Rightarrow> (if \<not> ok then Exit 1
          else Cont (s\<lparr>pp_kids := (pp_kids s)[k := At_write (pp_flag s)], pp_at := (if k + 1 < 2 then Pp_fork (k + 1) else Pp_wait 0)\<rparr>))
      | Pp_wait k \<Rightarrow> (if i < 2 \<and> pp_kids s ! i = Zombie
          then Cont (s\<lparr>pp_kids := (pp_kids s)[i := Reaped], pp_reports := pp_reports s @ kid_report prog i,
            pp_at := (if k + 1 < 2 then Pp_wait (k + 1) else Pp_close)\<rparr>)
          else Blocked)
      | Pp_close \<Rightarrow> (if \<not> ok \<and> prog = Signal_c then Exit 1 else Cont (s\<lparr>pp_at := Pp_read 0\<rparr>))
      | Pp_read k \<Rightarrow>
          (if pp_pipe s = [] \<and> \<not> (\<forall>c \<in> set (pp_kids s). c = Zombie \<or> c = Reaped) then Blocked
           else let got = take (read_sizes prog ! k) (pp_pipe s); buf' = got @ drop (length got) (pp_buf s) in
             case printable buf' of
               None \<Rightarrow> UB
             | Some t \<Rightarrow> Cont (s\<lparr>pp_pipe := drop (read_sizes prog ! k) (pp_pipe s), pp_buf := buf'[0 := NUL],
                 pp_out := pp_out s @ [(length got, t)], pp_at := (if k + 1 < length (read_sizes prog) then Pp_read (k + 1) else Pp_done)\<rparr>))
      | Pp_done \<Rightarrow> Blocked)"

text \<open>One step of a child; a write of a few bytes to a pipe that has a reader succeeds and is atomic.\<close>

definition pp_child :: "pp_prog \<Rightarrow> nat \<Rightarrow> pp \<Rightarrow> pp outcome" where
  "pp_child prog i s =
     (if 2 \<le> i then Blocked else case pp_kids s ! i of
        At_write fl \<Rightarrow> Cont (let s' = s\<lparr>pp_kids := (pp_kids s)[i := At_exit]\<rparr> in
          if prog = Pipe_c \<or> fl then s'\<lparr>pp_pipe := pp_pipe s @ child_bytes prog i, pp_wrote := pp_wrote s @ [i]\<rparr> else s')
      | At_exit \<Rightarrow> Cont (s\<lparr>pp_kids := (pp_kids s)[i := Zombie]\<rparr>)
      | _ \<Rightarrow> Blocked)"

text \<open>\<open>signal_handler\<close>, in the parent and in every child, as the terminal sends SIGINT to all of them.\<close>

fun kid_signalled :: "pp_kid \<Rightarrow> pp_kid" where
  "kid_signalled (At_write fl) = At_write True"
| "kid_signalled c = c"

definition pp_signal_handler :: "pp \<Rightarrow> pp" where
  "pp_signal_handler s = s\<lparr>pp_flag := True, pp_kids := map kid_signalled (pp_kids s)\<rparr>"

datatype pp_event = Pp_parent bool nat | Pp_child nat | Pp_sigint

fun pp_act :: "pp_prog \<Rightarrow> pp_event \<Rightarrow> pp \<Rightarrow> pp outcome" where
  "pp_act prog (Pp_parent ok i) s = pp_parent prog ok i s"
| "pp_act prog (Pp_child i) s = pp_child prog i s"
| "pp_act prog Pp_sigint s = (if prog = Signal_c then Cont (pp_signal_handler s) else Blocked)"

inductive pp_next :: "pp_prog \<Rightarrow> pp \<Rightarrow> pp \<Rightarrow> bool" for prog where
  act: "pp_act prog e s = Cont s' \<Longrightarrow> pp_next prog s s'"

inductive_cases pp_nextE: "pp_next prog s s'"

section \<open>Invariant\<close>

definition pp_ran :: "pp_kid \<Rightarrow> bool" where
  "pp_ran c \<longleftrightarrow> c = At_exit \<or> c = Zombie \<or> c = Reaped"

definition pp_written :: "pp_prog \<Rightarrow> pp \<Rightarrow> string" where
  "pp_written prog s = concat (map (child_bytes prog) (pp_wrote s))"

text \<open>Which children exist, and which have been waited for.\<close>

definition pp_nf :: "pp \<Rightarrow> bool list" where "pp_nf s = map (\<lambda>c. c = Not_forked) (pp_kids s)"
definition pp_rp :: "pp \<Rightarrow> bool list" where "pp_rp s = map (\<lambda>c. c = Reaped) (pp_kids s)"

definition pp_unread :: "pp_prog \<Rightarrow> string \<Rightarrow> pp \<Rightarrow> bool" where
  "pp_unread prog garbage s \<longleftrightarrow> pp_pipe s = pp_written prog s \<and> pp_buf s = garbage \<and> pp_out s = []"

fun pp_at_ok :: "pp_prog \<Rightarrow> string \<Rightarrow> pp_pc \<Rightarrow> pp \<Rightarrow> bool" where
  "pp_at_ok prog garbage (Pp_fork k) s \<longleftrightarrow> k < 2 \<and> pp_nf s = [k = 0, True] \<and> pp_rp s = [False, False] \<and> pp_unread prog garbage s"
| "pp_at_ok prog garbage (Pp_wait k) s \<longleftrightarrow> k < 2 \<and> pp_nf s = [False, False] \<and> cnt id (pp_rp s) = int k \<and> pp_unread prog garbage s"
| "pp_at_ok prog garbage Pp_close s \<longleftrightarrow> pp_rp s = [True, True] \<and> pp_unread prog garbage s"
| "pp_at_ok prog garbage (Pp_read k) s \<longleftrightarrow> pp_rp s = [True, True] \<and> k < length (read_sizes prog) \<and>
     read_loop (read_sizes prog) (pp_written prog s) garbage =
       map_option ((@) (pp_out s)) (read_loop (drop k (read_sizes prog)) (pp_pipe s) (pp_buf s))"
| "pp_at_ok prog garbage Pp_done s \<longleftrightarrow> pp_rp s = [True, True] \<and>
     read_loop (read_sizes prog) (pp_written prog s) garbage = Some (pp_out s)"

definition pp_wrote_ok :: "pp_prog \<Rightarrow> pp \<Rightarrow> bool" where
  "pp_wrote_ok prog s \<longleftrightarrow> distinct (pp_wrote s) \<and> (\<forall>i \<in> set (pp_wrote s). i < 2 \<and> pp_ran (pp_kids s ! i)) \<and>
     (prog = Pipe_c \<longrightarrow> (\<forall>i < 2. pp_ran (pp_kids s ! i) \<longrightarrow> i \<in> set (pp_wrote s)))"

definition pp_inv :: "pp_prog \<Rightarrow> string \<Rightarrow> pp \<Rightarrow> bool" where
  "pp_inv prog garbage s \<longleftrightarrow> length (pp_kids s) = 2 \<and> pp_wrote_ok prog s \<and> pp_at_ok prog garbage (pp_at s) s"

lemma length_2: "length xs = 2 \<longleftrightarrow> (\<exists>a b. xs = [a, b])"
  by (auto simp: numeral_2_eq_2 length_Suc_conv)

lemma less_2: "i < 2 \<longleftrightarrow> i = 0 \<or> i = (1 :: nat)"
  by auto

lemma ex_less_2: "(\<exists>i < 2. P i) \<longleftrightarrow> P 0 \<or> P (1 :: nat)"
  by (auto simp: less_2)

lemma pp_inv_boot: "pp_inv prog garbage (pp_boot garbage)"
  by (simp add: pp_inv_def pp_boot_def pp_wrote_ok_def pp_ran_def pp_written_def pp_nf_def pp_rp_def pp_unread_def less_2)

lemma pp_at_ok_frame:
  assumes "pp_at_ok prog garbage pc s" "pp_nf s' = pp_nf s" "pp_rp s' = pp_rp s" "pp_pipe s' = pp_pipe s" "pp_buf s' = pp_buf s"
    "pp_out s' = pp_out s" "pp_wrote s' = pp_wrote s"
  shows "pp_at_ok prog garbage pc s'"
  using assms by (cases pc) (simp_all add: pp_unread_def pp_written_def)

lemma kid_signalled_sel [simp]:
  "(kid_signalled c = Not_forked) = (c = Not_forked)" "(kid_signalled c = Reaped) = (c = Reaped)" "pp_ran (kid_signalled c) = pp_ran c"
  by (cases c; simp add: pp_ran_def)+

lemma pp_inv_sigint:
  assumes inv: "pp_inv prog garbage s"
  shows "pp_inv prog garbage (pp_signal_handler s)"
proof -
  have "pp_at_ok prog garbage (pp_at s) s" using inv by (simp add: pp_inv_def)
  then have "pp_at_ok prog garbage (pp_at s) (pp_signal_handler s)"
    by (rule pp_at_ok_frame) (simp_all add: pp_signal_handler_def pp_nf_def pp_rp_def)
  then show ?thesis
    using inv by (simp add: pp_inv_def pp_signal_handler_def pp_wrote_ok_def)
qed

lemma pp_kid_update:
  assumes "i < length (pp_kids s)" "pp_kids s ! i \<noteq> Not_forked" "pp_kids s ! i \<noteq> Reaped" "c \<noteq> Not_forked" "c \<noteq> Reaped"
    and "pp_kids s' = (pp_kids s)[i := c]"
  shows "pp_nf s' = pp_nf s" "pp_rp s' = pp_rp s"
  using assms by (simp_all add: pp_nf_def pp_rp_def map_update list_update_same_conv)

text \<open>A child that has not exited is not waited for, so the parent has not read yet.\<close>

lemma pp_unread_early:
  assumes "pp_inv prog garbage s" "i < 2" "pp_kids s ! i \<noteq> Reaped"
  shows "pp_unread prog garbage s"
proof -
  have "pp_rp s \<noteq> [True, True]"
    using assms by (auto simp: pp_inv_def pp_rp_def length_2 less_2)
  then show ?thesis using assms(1) by (cases "pp_at s") (simp_all add: pp_inv_def)
qed

lemma pp_at_ok_write:
  assumes "pp_at_ok prog garbage pc s" "pp_rp s \<noteq> [True, True]" "pp_nf s' = pp_nf s" "pp_rp s' = pp_rp s" "pp_unread prog garbage s'"
  shows "pp_at_ok prog garbage pc s'"
  using assms by (cases pc) simp_all

lemma pp_child_cases:
  assumes "pp_child prog i s = Cont s'"
  obtains (writes) fl where "i < 2" "pp_kids s ! i = At_write fl"
      "s' = s\<lparr>pp_kids := (pp_kids s)[i := At_exit], pp_pipe := pp_pipe s @ child_bytes prog i, pp_wrote := pp_wrote s @ [i]\<rparr>"
    | (skips) fl where "i < 2" "pp_kids s ! i = At_write fl" "prog \<noteq> Pipe_c" "s' = s\<lparr>pp_kids := (pp_kids s)[i := At_exit]\<rparr>"
    | (exits) "i < 2" "pp_kids s ! i = At_exit" "s' = s\<lparr>pp_kids := (pp_kids s)[i := Zombie]\<rparr>"
proof (cases "pp_kids s ! i")
  case (At_write fl)
  then show ?thesis
    using assms writes [of fl] skips [of fl] by (cases "prog = Pipe_c \<or> fl") (simp_all add: pp_child_def Let_def split: if_splits)
next
  case At_exit
  then show ?thesis using assms exits by (simp add: pp_child_def split: if_splits)
qed (use assms in \<open>simp_all add: pp_child_def split: if_splits\<close>)

lemma pp_inv_kid:
  assumes inv: "pp_inv prog garbage s" and i: "i < 2" "pp_kids s ! i \<noteq> Not_forked" "pp_kids s ! i \<noteq> Reaped"
    and s': "pp_kids s' = (pp_kids s)[i := c]" "c = At_exit \<or> c = Zombie" "pp_at s' = pp_at s"
    and un: "pp_unread prog garbage s'" and wr: "pp_wrote_ok prog s'"
  shows "pp_inv prog garbage s'"
proof -
  have len: "length (pp_kids s) = 2" and at: "pp_at_ok prog garbage (pp_at s) s" using inv by (simp_all add: pp_inv_def)
  have same: "pp_nf s' = pp_nf s" "pp_rp s' = pp_rp s"
    using pp_kid_update [OF _ i(2,3) _ _ s'(1)] i(1) len s'(2) by auto
  have "\<not> pp_rp s ! i" using i len by (simp add: pp_rp_def)
  then have "pp_rp s \<noteq> [True, True]" using i(1) by (auto simp: less_2)
  then have "pp_at_ok prog garbage (pp_at s) s'" using pp_at_ok_write [OF at _ same un] by simp
  then show ?thesis using s' wr len by (simp add: pp_inv_def)
qed

lemma pp_inv_child:
  assumes inv: "pp_inv prog garbage s" and step: "pp_child prog i s = Cont s'"
  shows "pp_inv prog garbage s'"
  using step
proof (cases rule: pp_child_cases)
  case (writes fl)
  have len: "length (pp_kids s) = 2" and wr: "pp_wrote_ok prog s" using inv by (simp_all add: pp_inv_def)
  have "i \<notin> set (pp_wrote s)" using wr writes(2) by (auto simp: pp_wrote_ok_def pp_ran_def)
  moreover have "pp_ran (pp_kids s' ! j) \<longleftrightarrow> j = i \<or> pp_ran (pp_kids s ! j)" if "j < 2" for j
    using len that writes(1) by (auto simp: writes(3) nth_list_update pp_ran_def)
  ultimately have "pp_wrote_ok prog s'"
    using wr writes(1) by (simp add: writes(3) pp_wrote_ok_def)
  moreover have "pp_unread prog garbage s'"
    using pp_unread_early [OF inv writes(1)] writes(2) by (simp add: writes(3) pp_unread_def pp_written_def)
  ultimately show ?thesis
    by (intro pp_inv_kid [OF inv writes(1), where c = At_exit]) (simp_all add: writes(2-))
next
  case (skips fl)
  have len: "length (pp_kids s) = 2" and wr: "pp_wrote_ok prog s" using inv by (simp_all add: pp_inv_def)
  have "pp_ran (pp_kids s' ! j) \<longleftrightarrow> j = i \<or> pp_ran (pp_kids s ! j)" if "j < 2" for j
    using len that skips(1) by (auto simp: skips(4) nth_list_update pp_ran_def)
  then have "pp_wrote_ok prog s'"
    using wr skips(3) by (simp add: skips(4) pp_wrote_ok_def)
  moreover have "pp_unread prog garbage s'"
    using pp_unread_early [OF inv skips(1)] skips(2) by (simp add: skips(4) pp_unread_def pp_written_def)
  ultimately show ?thesis
    by (intro pp_inv_kid [OF inv skips(1), where c = At_exit]) (simp_all add: skips(2-))
next
  case exits
  have "pp_ran (pp_kids s' ! j) = pp_ran (pp_kids s ! j)" if "j < 2" for j
    using inv exits(1,2) that by (auto simp: exits(3) pp_inv_def nth_list_update pp_ran_def)
  then have "pp_wrote_ok prog s'"
    using inv by (simp add: exits(3) pp_inv_def pp_wrote_ok_def)
  moreover have "pp_unread prog garbage s'"
    using pp_unread_early [OF inv exits(1)] exits(2) by (simp add: exits(3) pp_unread_def pp_written_def)
  ultimately show ?thesis
    by (intro pp_inv_kid [OF inv exits(1), where c = Zombie]) (simp_all add: exits(2-))
qed

lemma read_loop_step:
  assumes "k < length sizes" "printable (take (sizes ! k) p @ drop (length (take (sizes ! k) p)) buf) = Some t"
  shows "map_option ((@) out) (read_loop (drop k sizes) p buf) =
    map_option ((@) (out @ [(length (take (sizes ! k) p), t)]))
      (read_loop (drop (Suc k) sizes) (drop (sizes ! k) p) ((take (sizes ! k) p @ drop (length (take (sizes ! k) p)) buf)[0 := NUL]))"
  unfolding Cons_nth_drop_Suc [OF assms(1), symmetric] read_loop.simps Let_def assms(2)
  by (simp add: option.map_comp) (rule arg_cong2 [where f = map_option]; simp add: fun_eq_iff)

lemma pp_inv_fork:
  assumes inv: "pp_inv prog garbage s" and n: "pp_at s = Pp_fork n"
  shows "pp_inv prog garbage (s\<lparr>pp_kids := (pp_kids s)[n := At_write (pp_flag s)], pp_at := (if n + 1 < 2 then Pp_fork (n + 1) else Pp_wait 0)\<rparr>)"
    (is "pp_inv _ _ ?s")
proof -
  obtain a b where k: "pp_kids s = [a, b]" using inv by (auto simp: pp_inv_def length_2)
  have at: "n < 2" "pp_nf s = [n = 0, True]" "pp_rp s = [False, False]" "pp_unread prog garbage s" and wr: "pp_wrote_ok prog s"
    using inv n by (simp_all add: pp_inv_def)
  have "\<not> pp_ran (pp_kids s ! n)" using at(1,2) k by (auto simp: pp_nf_def pp_ran_def less_2)
  then have "pp_ran (pp_kids ?s ! j) = pp_ran (pp_kids s ! j)" if "j < 2" for j
    using inv at(1) that by (auto simp: pp_inv_def nth_list_update pp_ran_def)
  then have "pp_wrote_ok prog ?s" using wr by (simp add: pp_wrote_ok_def)
  moreover consider "n = 0" | "n = 1" using at(1) by linarith
  then have "pp_at_ok prog garbage (pp_at ?s) ?s"
    using at(2-4) k by cases (simp_all add: pp_nf_def pp_rp_def pp_unread_def pp_written_def)
  ultimately show ?thesis using inv by (simp add: pp_inv_def)
qed

lemma pp_inv_wait:
  assumes inv: "pp_inv prog garbage s" and n: "pp_at s = Pp_wait n" and z: "i < 2" "pp_kids s ! i = Zombie"
  shows "pp_inv prog garbage (s\<lparr>pp_kids := (pp_kids s)[i := Reaped], pp_reports := r, pp_at := (if n + 1 < 2 then Pp_wait (n + 1) else Pp_close)\<rparr>)"
    (is "pp_inv _ _ ?s")
proof -
  obtain a b where k: "pp_kids s = [a, b]" using inv by (auto simp: pp_inv_def length_2)
  have at: "n < 2" "pp_nf s = [False, False]" "cnt id (pp_rp s) = int n" "pp_unread prog garbage s" and wr: "pp_wrote_ok prog s"
    using inv n by (simp_all add: pp_inv_def)
  have "pp_ran (pp_kids ?s ! j) = pp_ran (pp_kids s ! j)" if "j < 2" for j
    using inv z that by (auto simp: pp_inv_def nth_list_update pp_ran_def)
  then have "pp_wrote_ok prog ?s" using wr by (simp add: pp_wrote_ok_def)
  moreover consider "n = 0" | "n = 1" using at(1) by linarith
  then have "pp_at_ok prog garbage (pp_at ?s) ?s"
  proof cases
    case 1
    then show ?thesis using at(2-4) k z by (auto simp: pp_nf_def pp_rp_def pp_unread_def pp_written_def less_2)
  next
    case 2
    then show ?thesis using at(2-4) k z by (auto simp: pp_nf_def pp_rp_def pp_unread_def pp_written_def less_2 of_bool_def split: if_splits)
  qed
  ultimately show ?thesis using inv by (simp add: pp_inv_def)
qed

lemma pp_inv_close:
  assumes inv: "pp_inv prog garbage s" and at: "pp_at s = Pp_close"
  shows "pp_inv prog garbage (s\<lparr>pp_at := Pp_read 0\<rparr>)"
proof -
  have "0 < length (read_sizes prog)" by (simp add: read_sizes_def split: pp_prog.splits)
  moreover have "map_option ((@) []) r = r" for r :: "(nat \<times> string) list option" by (cases r) simp_all
  ultimately show ?thesis
    using inv at by (simp add: pp_inv_def pp_wrote_ok_def pp_rp_def pp_unread_def pp_written_def)
qed

lemma pp_inv_read:
  assumes inv: "pp_inv prog garbage s" and n: "pp_at s = Pp_read n"
    and got: "got = take (read_sizes prog ! n) (pp_pipe s)" and t: "printable (got @ drop (length got) (pp_buf s)) = Some t"
  shows "pp_inv prog garbage (s\<lparr>pp_pipe := drop (read_sizes prog ! n) (pp_pipe s), pp_buf := (got @ drop (length got) (pp_buf s))[0 := NUL],
    pp_out := pp_out s @ [(length got, t)], pp_at := (if n + 1 < length (read_sizes prog) then Pp_read (n + 1) else Pp_done)\<rparr>)"
    (is "pp_inv _ _ ?s")
proof -
  have ok: "pp_rp s = [True, True]" "n < length (read_sizes prog)"
    "read_loop (read_sizes prog) (pp_written prog s) garbage =
      map_option ((@) (pp_out s)) (read_loop (drop n (read_sizes prog)) (pp_pipe s) (pp_buf s))"
    using inv n by (simp_all add: pp_inv_def)
  have "read_loop (read_sizes prog) (pp_written prog s) garbage =
      map_option ((@) (pp_out ?s)) (read_loop (drop (Suc n) (read_sizes prog)) (pp_pipe ?s) (pp_buf ?s))"
    using ok(3) read_loop_step [OF ok(2) t [unfolded got]] by (simp only: got) simp
  then have "pp_at_ok prog garbage (pp_at ?s) ?s"
    using ok(1,2) by (cases "Suc n < length (read_sizes prog)") (simp_all add: pp_rp_def pp_written_def)
  then show ?thesis using inv by (simp add: pp_inv_def pp_wrote_ok_def)
qed

lemma pp_inv_parent:
  assumes inv: "pp_inv prog garbage s" and step: "pp_parent prog ok i s = Cont s'"
  shows "pp_inv prog garbage s'"
proof (cases "pp_at s")
  case (Pp_fork n)
  then show ?thesis using step pp_inv_fork [OF inv Pp_fork] by (simp add: pp_parent_def split: if_split_asm)
next
  case (Pp_wait n)
  then show ?thesis using step pp_inv_wait [OF inv Pp_wait, of i] by (auto simp: pp_parent_def split: if_split_asm)
next
  case Pp_close
  then show ?thesis using step pp_inv_close [OF inv Pp_close] by (simp add: pp_parent_def split: if_split_asm)
next
  case (Pp_read n)
  then show ?thesis
    using step pp_inv_read [OF inv Pp_read refl] by (simp add: pp_parent_def Let_def split: if_split_asm option.split_asm)
next
  case Pp_done
  then show ?thesis using step by (simp add: pp_parent_def)
qed

lemma pp_next_inv: "pp_next prog s s' \<Longrightarrow> pp_inv prog garbage s \<Longrightarrow> pp_inv prog garbage s'"
proof (elim pp_nextE)
  fix e
  assume "pp_inv prog garbage s" "pp_act prog e s = Cont s'"
  then show "pp_inv prog garbage s'"
    by (cases e) (auto intro: pp_inv_parent pp_inv_child pp_inv_sigint split: if_split_asm)
qed

interpretation pp_sys: invariant_system "\<lambda>s. s = pp_boot garbage" "pp_next prog" "pp_inv prog garbage" for prog garbage
  by unfold_locales (auto simp: pp_inv_boot pp_next_inv)

section \<open>Progress and end\<close>

fun kid_weight :: "pp_kid \<Rightarrow> nat" where
  "kid_weight Not_forked = 3" | "kid_weight (At_write _) = 2" | "kid_weight At_exit = 1" | "kid_weight _ = 0"

fun pc_weight :: "pp_pc \<Rightarrow> nat" where
  "pc_weight (Pp_fork k) = 10 - k" | "pc_weight (Pp_wait k) = 8 - k" | "pc_weight Pp_close = 6"
| "pc_weight (Pp_read k) = 5 - k" | "pc_weight Pp_done = 0"

definition pp_weight :: "pp \<Rightarrow> nat" where
  "pp_weight s = pc_weight (pp_at s) + sum_list (map kid_weight (pp_kids s))"

lemma kid_weight_update:
  "i < length cs \<Longrightarrow> sum_list (map kid_weight (cs[i := c])) + kid_weight (cs ! i) = sum_list (map kid_weight cs) + kid_weight c"
  by (induction cs arbitrary: i) (auto split: nat.split simp: less_Suc_eq_0_disj)

lemma pp_child_weight:
  assumes inv: "pp_inv prog garbage s" and step: "pp_child prog i s = Cont s'"
  shows "pp_weight s' < pp_weight s"
proof -
  have "i < length (pp_kids s)" using inv step by (auto simp: pp_inv_def pp_child_def split: if_splits)
  note w = kid_weight_update [OF this, of At_exit] kid_weight_update [OF this, of Zombie]
  from step show ?thesis
    by (cases rule: pp_child_cases) (use w in \<open>auto simp: pp_weight_def\<close>)
qed

lemma pp_parent_weight:
  assumes inv: "pp_inv prog garbage s" and step: "pp_parent prog ok i s = Cont s'"
  shows "pp_weight s' < pp_weight s"
proof (cases "pp_at s")
  case (Pp_fork n)
  then have n: "n < 2" "pp_kids s ! n = Not_forked" "length (pp_kids s) = 2"
    using inv by (auto simp: pp_inv_def pp_nf_def length_2 less_2)
  then show ?thesis
    using Pp_fork step kid_weight_update [of n "pp_kids s" "At_write (pp_flag s)"]
    by (auto simp: pp_parent_def pp_weight_def split: if_splits)
next
  case (Pp_wait n)
  then have n: "n < 2" "length (pp_kids s) = 2" using inv by (auto simp: pp_inv_def)
  then show ?thesis
    using Pp_wait step kid_weight_update [of i "pp_kids s" Reaped]
    by (auto simp: pp_parent_def pp_weight_def split: if_splits)
next
  case (Pp_read n)
  have "length (read_sizes prog) \<le> 3" by (simp add: read_sizes_def split: pp_prog.splits)
  moreover have "n < length (read_sizes prog)" using inv Pp_read by (simp add: pp_inv_def)
  ultimately show ?thesis
    using Pp_read step by (auto simp: pp_parent_def pp_weight_def Let_def split: if_splits option.splits)
qed (use step in \<open>auto simp: pp_parent_def pp_weight_def split: if_splits\<close>)

text \<open>A process that has not ended can always take a step: a child that runs, or else the parent.\<close>

lemma pp_progress:
  assumes inv: "pp_inv prog garbage s" and at: "pp_at s \<noteq> Pp_done"
  shows "\<exists>e. e \<noteq> Pp_sigint \<and> pp_act prog e s \<noteq> Blocked"
proof (cases "\<exists>i < 2. (\<exists>fl. pp_kids s ! i = At_write fl) \<or> pp_kids s ! i = At_exit")
  case True
  then obtain i where "i < 2" "pp_act prog (Pp_child i) s \<noteq> Blocked" by (auto simp: pp_child_def)
  then show ?thesis by blast
next
  case False
  have "\<exists>i. pp_parent prog True i s \<noteq> Blocked"
  proof (cases "pp_at s")
    case (Pp_wait n)
    then have at: "n < 2" "pp_nf s = [False, False]" "cnt id (pp_rp s) = int n" "length (pp_kids s) = 2"
      using inv by (simp_all add: pp_inv_def)
    have "\<exists>i < 2. pp_kids s ! i \<noteq> Reaped"
      using at(1,3,4) by (auto simp: length_2 pp_rp_def ex_less_2 of_bool_def split: if_splits)
    then obtain i where i: "i < 2" "pp_kids s ! i \<noteq> Reaped" by blast
    then have "pp_kids s ! i = Zombie"
      using False at(2,4) by (cases "pp_kids s ! i") (auto simp: pp_nf_def length_2 less_2)
    then show ?thesis using i Pp_wait by (intro exI [of _ i]) (simp add: pp_parent_def)
  next
    case (Pp_read n)
    then have "pp_rp s = [True, True]" using inv by (simp add: pp_inv_def)
    then have "\<forall>c \<in> set (pp_kids s). c = Reaped" by (auto simp: pp_rp_def map_eq_Cons_conv)
    then show ?thesis using Pp_read by (auto simp: pp_parent_def Let_def split: option.splits)
  qed (use at in \<open>simp_all add: pp_parent_def\<close>)
  then show ?thesis by (metis pp_act.simps(1) pp_event.distinct(3))
qed

lemma pp_sigint_weight: "pp_weight (pp_signal_handler s) = pp_weight s"
proof -
  have "kid_weight (kid_signalled c) = kid_weight c" for c by (cases c) simp_all
  then show ?thesis by (simp add: pp_weight_def pp_signal_handler_def comp_def)
qed

lemma distinct_pair:
  assumes "distinct xs" "set xs = {0, 1 :: nat}"
  shows "xs = [0, 1] \<or> xs = [1, 0]"
proof -
  have "length xs = 2" using distinct_card [OF assms(1)] assms(2) by simp
  then obtain a b where "xs = [a, b]" unfolding length_2 by blast
  then show ?thesis using assms by (auto simp: doubleton_eq_iff)
qed

text \<open>The functions of \<open>Unix_Labs\<close> are the reading of what was written.\<close>

lemma mains_read:
  "pipe_main order garbage = read_loop (read_sizes Pipe_c) (concat (map (child_bytes Pipe_c) order)) garbage"
  "signal_main True order garbage = read_loop (read_sizes Signal_c) (concat (map (child_bytes Signal_c) order)) garbage"
proof -
  have "child_bytes Pipe_c = (\<lambda>i. pipe_msg i @ [NUL])" "child_bytes Signal_c = signal_msg"
    by (simp_all add: fun_eq_iff child_bytes_def)
  then show "pipe_main order garbage = read_loop (read_sizes Pipe_c) (concat (map (child_bytes Pipe_c) order)) garbage"
    "signal_main True order garbage = read_loop (read_sizes Signal_c) (concat (map (child_bytes Signal_c) order)) garbage"
    by (simp_all add: pipe_main_def signal_main_def read_sizes_def)
qed

lemma pp_done_output:
  assumes inv: "pp_inv prog garbage s" and at: "pp_at s = Pp_done"
  shows "case prog of
      Pipe_c \<Rightarrow> pipe_main [0, 1] garbage = Some (pp_out s) \<or> pipe_main [1, 0] garbage = Some (pp_out s)
    | Signal_c \<Rightarrow> \<exists>order. distinct order \<and> set order \<subseteq> {0, 1} \<and> signal_main True order garbage = Some (pp_out s)"
proof -
  have out: "read_loop (read_sizes prog) (concat (map (child_bytes prog) (pp_wrote s))) garbage = Some (pp_out s)"
    and rp: "pp_rp s = [True, True]" and wr: "pp_wrote_ok prog s"
    using inv at by (simp_all add: pp_inv_def pp_written_def)
  have ran: "pp_ran (pp_kids s ! i)" if "i < 2" for i
    using rp that by (auto simp: pp_rp_def map_eq_Cons_conv pp_ran_def less_2)
  have sub: "distinct (pp_wrote s)" "set (pp_wrote s) \<subseteq> {0, 1}" using wr by (auto simp: pp_wrote_ok_def less_2)
  show ?thesis
  proof (cases prog)
    case Pipe_c
    then have "set (pp_wrote s) = {0, 1}" using sub(2) wr ran by (auto simp: pp_wrote_ok_def)
    with sub(1) have "pp_wrote s = [0, 1] \<or> pp_wrote s = [1, 0]" by (rule distinct_pair)
    then show ?thesis using out Pipe_c unfolding mains_read by auto
  next
    case Signal_c
    then show ?thesis using out sub unfolding mains_read by auto
  qed
qed

text \<open>
  (C38) In any interleaving of the parent, the two children and SIGINT, the pipe programs end: while the parent has not
  finished some process can take a step, and every step but the delivery of a signal lowers a weight of at most 16,
  which signals do not raise.  What they print is what the functional description gives for one of the two orders of the
  children, or in \<open>signal.c\<close> for some order of those children that had seen the signal.
\<close>

theorem pipe_programs_end:
  assumes "reach (\<lambda>s. s = pp_boot garbage) (pp_next prog) s"
  shows "(pp_at s \<noteq> Pp_done \<longrightarrow> (\<exists>e. e \<noteq> Pp_sigint \<and> pp_act prog e s \<noteq> Blocked)) \<and>
    (\<forall>e s'. pp_act prog e s = Cont s' \<longrightarrow> (if e = Pp_sigint then pp_weight s' = pp_weight s else pp_weight s' < pp_weight s)) \<and>
    pp_weight (pp_boot garbage) = 16 \<and>
    (pp_at s = Pp_done \<longrightarrow> (case prog of
        Pipe_c \<Rightarrow> pipe_main [0, 1] garbage = Some (pp_out s) \<or> pipe_main [1, 0] garbage = Some (pp_out s)
      | Signal_c \<Rightarrow> \<exists>order. distinct order \<and> set order \<subseteq> {0, 1} \<and> signal_main True order garbage = Some (pp_out s)))"
proof -
  have inv: "pp_inv prog garbage s" using assms by (rule pp_sys.reach_inv)
  have "if e = Pp_sigint then pp_weight s' = pp_weight s else pp_weight s' < pp_weight s" if "pp_act prog e s = Cont s'" for e s'
    using that pp_parent_weight [OF inv] pp_child_weight [OF inv]
    by (cases e) (auto simp: pp_sigint_weight split: if_split_asm)
  moreover have "pp_weight (pp_boot garbage) = 16" by (simp add: pp_weight_def pp_boot_def)
  ultimately show ?thesis using pp_progress [OF inv] pp_done_output [OF inv] by blast
qed

definition pp_exec :: "pp_prog \<Rightarrow> pp_event \<Rightarrow> pp \<Rightarrow> pp option" where
  "pp_exec prog e s = (case pp_act prog e s of Cont s' \<Rightarrow> Some s' | _ \<Rightarrow> None)"

interpretation pp_sched: scheduler "pp_exec prog" "pp_next prog" "pp_boot garbage" for prog garbage
  by unfold_locales (auto simp: pp_exec_def split: outcome.splits intro: pp_next.act)

text \<open>The second child writes before the first, and the buffer is clear.\<close>

definition pp_demo :: "pp_event list" where
  "pp_demo = [Pp_parent True 0, Pp_parent True 0, Pp_child 1, Pp_child 1, Pp_parent True 1, Pp_child 0, Pp_child 0, Pp_parent True 0,
     Pp_parent True 0, Pp_parent True 0, Pp_parent True 0, Pp_parent True 0]"

lemma pp_demo_run:
  "map_option (\<lambda>s. (pp_at s, pp_out s)) (run_actions (pp_exec Pipe_c) pp_demo (pp_boot (replicate 10 NUL))) =
    Some (Pp_done, [(6, ''bbbbbb''), (10, ''bbb''), (0, [])])"
  by code_simp

theorem pipe_programs_end_witness:
  "\<exists>s. run_actions (pp_exec Pipe_c) pp_demo (pp_boot (replicate 10 NUL)) = Some s \<and> pp_at s = Pp_done \<and>
     (pipe_main [0, 1] (replicate 10 NUL) = Some (pp_out s) \<or> pipe_main [1, 0] (replicate 10 NUL) = Some (pp_out s))"
proof -
  obtain s where s: "run_actions (pp_exec Pipe_c) pp_demo (pp_boot (replicate 10 NUL)) = Some s" "pp_at s = Pp_done"
    using pp_demo_run by (auto simp: map_option_eq_Some)
  from pipe_programs_end [OF pp_sched.run_reach [OF s(1)]] s show ?thesis by simp
qed

text \<open>
  In \<open>signal.c\<close> a signal after the first child has tested its flag reaches the second child only: its message fills both lines.
\<close>

definition pp_late_signal :: "pp_event list" where
  "pp_late_signal = [Pp_parent True 0, Pp_child 0, Pp_sigint, Pp_child 0, Pp_parent True 0, Pp_child 1, Pp_child 1, Pp_parent True 0,
     Pp_parent True 1, Pp_parent True 0, Pp_parent True 0, Pp_parent True 0]"

lemma signal_between_forks:
  "map_option (\<lambda>s. (pp_at s, pp_wrote s, pp_out s)) (run_actions (pp_exec Signal_c) pp_late_signal (pp_boot (replicate 12 NUL))) =
    Some (Pp_done, [1], [(5, ''bbbbb''), (6, ''bbbbbb'')])"
  by code_simp

end
