(* ===== verification/Module_Deps.thy ===== *)
theory Module_Deps
  imports OS_Prelude
begin

text \<open>
  The three modules of \<open>lab_module/task_02\<close>: \<open>md1\<close> exports a string and a function, \<open>md2\<close> and \<open>md3\<close> print both when
  they are loaded.  The module loader itself is code of the kernel and is not modelled; a module's references are resolved in the exports of \<open>md1\<close>.
\<close>

section \<open>Modules\<close>

text \<open>
  A module: its exported symbols, each with the string it stands for or returns, the symbols it refers to, what \<open>module_init\<close>
  prints and returns given the value of every symbol, and what \<open>module_exit\<close> prints.
\<close>

record kmodule =
  km_exports :: "(string \<times> string) list"
  km_needs :: "string list"
  km_init :: "(string \<Rightarrow> string) \<Rightarrow> string list \<times> int"
  km_exit :: "string list"

definition md1_data :: string where "md1_data = ''qwertyui''"
definition md1_proc :: string where "md1_proc = md1_data"
definition md1_local :: string where "md1_local = md1_data"
definition md1_noexport :: string where "md1_noexport = md1_data"

definition md1 :: kmodule where
  "md1 = \<lparr>km_exports = [(''md1_data'', md1_data), (''md1_proc'', md1_proc)], km_needs = [],
     km_init = (\<lambda>_. ([''+ module md1 start!''], 0)), km_exit = [''+ module md1 unloaded!'']\<rparr>"

definition md2 :: kmodule where
  "md2 = \<lparr>km_exports = [], km_needs = [''md1_data'', ''md1_proc''],
     km_init = (\<lambda>env. ([''+ module md2 start!'', ''+ data string exported from md1 : '' @ env ''md1_data'',
       ''+ string returned md1_proc() is : '' @ env ''md1_proc''], 0)), km_exit = [''+ module md2 unloaded!'']\<rparr>"

definition md3 :: kmodule where
  "md3 = \<lparr>km_exports = [], km_needs = [''md1_data'', ''md1_proc''],
     km_init = (\<lambda>env. ([''+ module md3 start!'', ''+ data string exported from md1 : '' @ env ''md1_data'',
       ''+ string returned md1_proc() is : '' @ env ''md1_proc''], 0)), km_exit = [''+ module md3 unloaded!'']\<rparr>"

section \<open>References and what is printed\<close>

lemmas module_defs = md1_def md2_def md3_def md1_proc_def md1_data_def

text \<open>
  Every symbol that \<open>md2\<close> or \<open>md3\<close> refers to is exported by \<open>md1\<close>; the function without \<open>EXPORT_SYMBOL\<close> and the static one are not.
\<close>

lemma module_references:
  "m \<in> {md2, md3} \<Longrightarrow> x \<in> set (km_needs m) \<Longrightarrow> map_of (km_exports md1) x = Some ''qwertyui''"
  "map_of (km_exports md1) ''md1_local'' = None" "map_of (km_exports md1) ''md1_noexport'' = None"
  by (auto simp: module_defs)

text \<open>With these values both print the string of \<open>md1\<close> and load successfully.\<close>

lemma modules_print:
  assumes "\<forall>x v. map_of (km_exports md1) x = Some v \<longrightarrow> env x = v"
  shows "km_init md2 env = ([''+ module md2 start!'', ''+ data string exported from md1 : qwertyui'',
      ''+ string returned md1_proc() is : qwertyui''], 0)"
    and "km_init md3 env = ([''+ module md3 start!'', ''+ data string exported from md1 : qwertyui'',
      ''+ string returned md1_proc() is : qwertyui''], 0)"
proof -
  have "env ''md1_data'' = ''qwertyui''" "env ''md1_proc'' = ''qwertyui''" using assms by (simp_all add: module_defs)
  then show "km_init md2 env = ([''+ module md2 start!'', ''+ data string exported from md1 : qwertyui'',
      ''+ string returned md1_proc() is : qwertyui''], 0)"
    "km_init md3 env = ([''+ module md3 start!'', ''+ data string exported from md1 : qwertyui'',
      ''+ string returned md1_proc() is : qwertyui''], 0)" by (simp_all add: md2_def md3_def)
qed

end
