(* ===== verification/Bakery3_Threads.thy ===== *)
theory Bakery3_Threads
  imports Ticket_Rpc
begin

text \<open>
  The server of \<open>for-review/bakery_3\<close> with the threads it starts: \<open>get_number_1_svc\<close> copies the request and starts
  \<open>find_max_number\<close>, whose statements interleave with those of the other threads and with \<open>bakery_service_1_svc\<close>.
\<close>

section \<open>Model\<close>

datatype f_pc = F_lock | F_inc | F_result | F_send | F_unlock | F_free | F_end

text \<open>
  \<open>bt_result\<close> is the static variable that all threads share; \<open>bt_sent\<close> lists the replies with the number of the thread, the number
  sent and whether \<open>svc_sendreply\<close> succeeded.
\<close>

record bt =
  bt_srv :: bakery3
  bt_result :: int
  bt_mutex :: "nat option"
  bt_threads :: "f_pc list"
  bt_sent :: "(nat \<times> int \<times> bool) list"

definition bt_boot :: bt where
  "bt_boot = \<lparr>bt_srv = bakery3_boot, bt_result = 0, bt_mutex = None, bt_threads = [], bt_sent = []\<rparr>"

definition bt_goto :: "nat \<Rightarrow> f_pc \<Rightarrow> bt \<Rightarrow> bt" where
  "bt_goto i pc s = s\<lparr>bt_threads := (bt_threads s)[i := pc]\<rparr>"

definition find_max_number :: "nat \<Rightarrow> bool \<Rightarrow> bt \<Rightarrow> bt outcome" where
  "find_max_number i ok s =
     (case bt_threads s ! i of
        F_lock \<Rightarrow> (if bt_mutex s = None then Cont (bt_goto i F_inc (s\<lparr>bt_mutex := Some i\<rparr>)) else Blocked)
      | F_inc \<Rightarrow> Cont (bt_goto i F_result (s\<lparr>bt_srv := (bt_srv s)\<lparr>next_number := next_number (bt_srv s) + 1\<rparr>\<rparr>))
      | F_result \<Rightarrow> Cont (bt_goto i F_send (s\<lparr>bt_result := next_number (bt_srv s)\<rparr>))
      | F_send \<Rightarrow> Cont (bt_goto i F_unlock (s\<lparr>bt_sent := bt_sent s @ [(i, bt_result s, ok)]\<rparr>))
      | F_unlock \<Rightarrow> Cont (bt_goto i F_free (s\<lparr>bt_mutex := None\<rparr>))
      | F_free \<Rightarrow> Cont (bt_goto i F_end s)
      | F_end \<Rightarrow> Blocked)"

text \<open>The copy of the request and the new thread; \<open>rc\<close> is what \<open>pthread_create\<close> returns, 0 or an error number.\<close>

definition b3_get_number_1_svc :: "bool \<Rightarrow> int \<Rightarrow> bt \<Rightarrow> bool \<times> bt" where
  "b3_get_number_1_svc malloc_ok rc s =
     (if \<not> malloc_ok then (False, s)
      else if rc = - 1 then (False, s)
      else (True, if rc = 0 then s\<lparr>bt_threads := bt_threads s @ [F_lock]\<rparr> else s))"

datatype bt_event = Bt_request bool int | Bt_thread nat bool | Bt_service int int

fun bt_act :: "bt_event \<Rightarrow> bt \<Rightarrow> bt outcome" where
  "bt_act (Bt_request m rc) s = Cont (snd (b3_get_number_1_svc m rc s))"
| "bt_act (Bt_thread i ok) s = (if i < length (bt_threads s) then find_max_number i ok s else Blocked)"
| "bt_act (Bt_service ms num) s = Cont (s\<lparr>bt_srv := snd (bakery_service_1_svc ms num (bt_srv s))\<rparr>)"

inductive bt_next :: "bt \<Rightarrow> bt \<Rightarrow> bool" where
  act: "bt_act e s = Cont s' \<Longrightarrow> bt_next s s'"

inductive_cases bt_nextE: "bt_next s s'"

section \<open>Invariant\<close>

definition f_crit :: "f_pc \<Rightarrow> bool" where "f_crit p \<longleftrightarrow> p \<in> {F_inc, F_result, F_send, F_unlock}"
definition f_drawn :: "f_pc \<Rightarrow> bool" where "f_drawn p \<longleftrightarrow> p \<in> {F_result, F_send}"
definition f_sent :: "f_pc \<Rightarrow> bool" where "f_sent p \<longleftrightarrow> p \<in> {F_unlock, F_free, F_end}"

lemmas f_pcs = f_crit_def f_drawn_def f_sent_def

definition bt_pending :: "bt \<Rightarrow> int" where
  "bt_pending s = (case bt_mutex s of None \<Rightarrow> 0 | Some i \<Rightarrow> of_bool (f_drawn (bt_threads s ! i)))"

text \<open>Who holds the mutex; how far the numbers are; what has been sent, and by whom.\<close>

definition bt_lock :: "bt \<Rightarrow> bool" where
  "bt_lock s \<longleftrightarrow> (\<forall>i < length (bt_threads s). f_crit (bt_threads s ! i) \<longleftrightarrow> bt_mutex s = Some i) \<and>
     (\<forall>i. bt_mutex s = Some i \<longrightarrow> i < length (bt_threads s))"

definition bt_numbers :: "bt \<Rightarrow> bool" where
  "bt_numbers s \<longleftrightarrow> next_number (bt_srv s) = 1 + int (length (bt_sent s)) + bt_pending s \<and>
     (\<forall>i < length (bt_threads s). bt_threads s ! i = F_send \<longrightarrow> bt_result s = next_number (bt_srv s)) \<and>
     map (\<lambda>(_, n, _). n) (bt_sent s) = map (\<lambda>k. int k + 2) [0..<length (bt_sent s)]"

definition bt_replies :: "bt \<Rightarrow> bool" where
  "bt_replies s \<longleftrightarrow> distinct (map fst (bt_sent s)) \<and>
     (\<forall>i. i \<in> fst ` set (bt_sent s) \<longleftrightarrow> i < length (bt_threads s) \<and> f_sent (bt_threads s ! i))"

definition bt_inv :: "bt \<Rightarrow> bool" where
  "bt_inv s \<longleftrightarrow> bt_lock s \<and> bt_numbers s \<and> bt_replies s"

lemma bt_inv_boot: "bt_inv bt_boot"
  by (simp add: bt_inv_def bt_lock_def bt_numbers_def bt_replies_def bt_pending_def bt_boot_def bakery3_boot_def)

text \<open>The thread inside the critical section is the only one there.\<close>

lemma bt_sole:
  assumes "bt_lock s" "i < length (bt_threads s)" "f_crit (bt_threads s ! i)" "j < length (bt_threads s)" "j \<noteq> i"
  shows "\<not> f_crit (bt_threads s ! j)" "bt_threads s ! j \<noteq> F_send"
  using assms by (auto simp: bt_lock_def f_crit_def)

lemma bt_lock_keep:
  assumes "bt_lock s" "i < length (bt_threads s)" "bt_threads s' = (bt_threads s)[i := p]" "bt_mutex s' = bt_mutex s"
    "f_crit p = f_crit (bt_threads s ! i)"
  shows "bt_lock s'"
  using assms by (auto simp: bt_lock_def nth_list_update)

lemma find_max_number_lock:
  assumes lock: "bt_lock s" and i: "i < length (bt_threads s)" and step: "find_max_number i ok s = Cont s'"
  shows "bt_lock s'"
proof (cases "bt_threads s ! i")
  case F_lock
  then have m: "bt_mutex s = None" and s': "bt_threads s' = (bt_threads s)[i := F_inc]" "bt_mutex s' = Some i"
    using step by (auto simp: find_max_number_def bt_goto_def split: if_split_asm)
  have "\<not> f_crit (bt_threads s ! j)" if "j < length (bt_threads s)" for j using lock m that by (simp add: bt_lock_def)
  then show ?thesis using i by (auto simp: bt_lock_def s' nth_list_update) (simp add: f_crit_def)
next
  case F_unlock
  then have s': "bt_threads s' = (bt_threads s)[i := F_free]" "bt_mutex s' = None"
    using step by (auto simp: find_max_number_def bt_goto_def)
  have "\<not> f_crit (bt_threads s ! j)" if "j < length (bt_threads s)" "j \<noteq> i" for j
    using bt_sole(1) [OF lock i _ that] F_unlock by (simp add: f_crit_def)
  then show ?thesis using i by (auto simp: bt_lock_def s' nth_list_update) (simp add: f_crit_def)
next
  case F_inc
  then show ?thesis using step by (intro bt_lock_keep [OF lock i, where p = F_result]) (auto simp: find_max_number_def bt_goto_def f_crit_def)
next
  case F_result
  then show ?thesis using step by (intro bt_lock_keep [OF lock i, where p = F_send]) (auto simp: find_max_number_def bt_goto_def f_crit_def)
next
  case F_send
  then show ?thesis using step by (intro bt_lock_keep [OF lock i, where p = F_unlock]) (auto simp: find_max_number_def bt_goto_def f_crit_def)
next
  case F_free
  then show ?thesis using step by (intro bt_lock_keep [OF lock i, where p = F_end]) (auto simp: find_max_number_def bt_goto_def f_crit_def)
next
  case F_end
  then show ?thesis using step by (simp add: find_max_number_def)
qed

lemma find_max_number_sent:
  assumes "find_max_number i ok s = Cont s'"
  obtains (sends) "bt_threads s ! i = F_send" "bt_threads s' = (bt_threads s)[i := F_unlock]" "bt_sent s' = bt_sent s @ [(i, bt_result s, ok)]"
    | (keeps) p where "bt_threads s' = (bt_threads s)[i := p]" "f_sent p = f_sent (bt_threads s ! i)" "bt_sent s' = bt_sent s"
proof (cases "bt_threads s ! i = F_send")
  case True
  then show ?thesis using assms sends by (auto simp: find_max_number_def bt_goto_def)
next
  case False
  have "\<exists>p. bt_threads s' = (bt_threads s)[i := p] \<and> f_sent p = f_sent (bt_threads s ! i) \<and> bt_sent s' = bt_sent s"
    using assms False by (cases "bt_threads s ! i") (fastforce simp: find_max_number_def bt_goto_def f_sent_def split: if_split_asm)+
  then show ?thesis using keeps by blast
qed

lemma find_max_number_replies:
  assumes rep: "bt_replies s" and i: "i < length (bt_threads s)" and step: "find_max_number i ok s = Cont s'"
  shows "bt_replies s'"
  using step
proof (cases rule: find_max_number_sent)
  case sends
  have "i \<notin> fst ` set (bt_sent s)" using rep sends(1) by (simp add: bt_replies_def f_sent_def)
  moreover have "j < length (bt_threads s') \<and> f_sent (bt_threads s' ! j) \<longleftrightarrow>
      j = i \<or> j < length (bt_threads s) \<and> f_sent (bt_threads s ! j)" for j
    using i sends(2) by (auto simp: nth_list_update f_sent_def)
  ultimately show ?thesis using rep by (simp add: bt_replies_def sends(3))
next
  case (keeps p)
  have "j < length (bt_threads s') \<and> f_sent (bt_threads s' ! j) \<longleftrightarrow> j < length (bt_threads s) \<and> f_sent (bt_threads s ! j)" for j
    using i keeps(1,2) by (auto simp: nth_list_update)
  then show ?thesis using rep by (simp add: bt_replies_def keeps(3))
qed

text \<open>Numbers: a step that leaves counter, static variable and replies alone, and one of the thread that holds the mutex.\<close>

lemma bt_numbers_keep:
  assumes "bt_numbers s" "i < length (bt_threads s)" "bt_threads s' = (bt_threads s)[i := p]" "p \<noteq> F_send" "bt_pending s' = bt_pending s"
    "bt_srv s' = bt_srv s" "bt_result s' = bt_result s" "bt_sent s' = bt_sent s"
  shows "bt_numbers s'"
  using assms by (auto simp: bt_numbers_def nth_list_update)

lemma bt_numbers_holder:
  assumes "\<And>j. j < length (bt_threads s) \<Longrightarrow> j \<noteq> i \<Longrightarrow> bt_threads s ! j \<noteq> F_send"
    and i: "i < length (bt_threads s)" and th: "bt_threads s' = (bt_threads s)[i := p]" and m: "bt_mutex s' = Some i"
    and "next_number (bt_srv s') = 1 + int (length (bt_sent s')) + of_bool (f_drawn p)"
    and "p = F_send \<Longrightarrow> bt_result s' = next_number (bt_srv s')"
    and "map (\<lambda>(_, n, _). n) (bt_sent s') = map (\<lambda>k. int k + 2) [0..<length (bt_sent s')]"
  shows "bt_numbers s'"
  using assms by (auto simp: bt_numbers_def bt_pending_def nth_list_update)

lemma find_max_number_numbers:
  assumes inv: "bt_inv s" and i: "i < length (bt_threads s)" and step: "find_max_number i ok s = Cont s'"
  shows "bt_numbers s'"
proof -
  have lock: "bt_lock s" and num: "bt_numbers s" using inv by (simp_all add: bt_inv_def)
  let ?p = "bt_threads s ! i"
  have mine: "bt_mutex s = Some i \<longleftrightarrow> f_crit ?p" using lock i by (simp add: bt_lock_def)
  have others: "bt_threads s ! j \<noteq> F_send" if "f_crit ?p" "j < length (bt_threads s)" "j \<noteq> i" for j
    using bt_sole(2) [OF lock i that] .
  have cnt: "next_number (bt_srv s) = 1 + int (length (bt_sent s)) + of_bool (f_drawn ?p)" if "f_crit ?p"
    using num mine that by (simp add: bt_numbers_def bt_pending_def)
  have res: "?p = F_send \<Longrightarrow> bt_result s = next_number (bt_srv s)"
    and seq: "map (\<lambda>(_, n, _). n) (bt_sent s) = map (\<lambda>k. int k + 2) [0..<length (bt_sent s)]"
    using num i by (simp_all add: bt_numbers_def)
  note defs = find_max_number_def bt_goto_def f_crit_def f_drawn_def
  show ?thesis
  proof (cases ?p)
    case F_lock
    then show ?thesis using step i
      by (intro bt_numbers_keep [OF num i, where p = F_inc]) (auto simp: defs bt_pending_def split: if_split_asm)
  next
    case F_inc
    then show ?thesis using step mine cnt seq others i
      by (intro bt_numbers_holder [where s = s and i = i and p = F_result]) (auto simp: defs)
  next
    case F_result
    then show ?thesis using step mine cnt seq others i
      by (intro bt_numbers_holder [where s = s and i = i and p = F_send]) (auto simp: defs)
  next
    case F_send
    then show ?thesis using step mine cnt seq res others i
      by (intro bt_numbers_holder [where s = s and i = i and p = F_unlock]) (auto simp: defs)
  next
    case F_unlock
    then show ?thesis using step mine i
      by (intro bt_numbers_keep [OF num i, where p = F_free]) (auto simp: defs bt_pending_def)
  next
    case F_free
    then have "bt_mutex s \<noteq> Some i" using mine by (simp add: f_crit_def)
    then show ?thesis using F_free step
      by (intro bt_numbers_keep [OF num i, where p = F_end]) (auto simp: defs bt_pending_def split: option.split)
  next
    case F_end
    then show ?thesis using step by (simp add: find_max_number_def)
  qed
qed

lemma bt_request_inv: "bt_inv s \<Longrightarrow> bt_inv (snd (b3_get_number_1_svc m rc s))"
  by (auto simp: b3_get_number_1_svc_def bt_inv_def bt_lock_def bt_numbers_def bt_replies_def bt_pending_def nth_append f_pcs
      less_Suc_eq split: option.splits)

lemma bt_service_inv:
  assumes "bt_inv s"
  shows "bt_inv (s\<lparr>bt_srv := snd (bakery_service_1_svc ms num (bt_srv s))\<rparr>)"
proof -
  have "next_number (snd (bakery_service_1_svc ms num x)) = next_number x" for x
    by (simp add: bakery_service_1_svc_def)
  then show ?thesis
    using assms by (simp add: bt_inv_def bt_lock_def bt_numbers_def bt_replies_def bt_pending_def split: option.split)
qed

lemma bt_next_inv: "bt_next s s' \<Longrightarrow> bt_inv s \<Longrightarrow> bt_inv s'"
proof (elim bt_nextE)
  fix e
  assume inv: "bt_inv s" and step: "bt_act e s = Cont s'"
  show "bt_inv s'"
  proof (cases e)
    case (Bt_thread i ok)
    then have i: "i < length (bt_threads s)" "find_max_number i ok s = Cont s'" using step by (simp_all split: if_split_asm)
    have parts: "bt_lock s" "bt_replies s" using inv by (simp_all add: bt_inv_def)
    show ?thesis
      unfolding bt_inv_def
      using find_max_number_lock [OF parts(1) i] find_max_number_numbers [OF inv i] find_max_number_replies [OF parts(2) i] by simp
  qed (use inv step bt_request_inv bt_service_inv in auto)
qed

interpretation bt_sys: invariant_system "\<lambda>s. s = bt_boot" bt_next bt_inv
  by unfold_locales (auto simp: bt_inv_boot bt_next_inv)

section \<open>What the threads promise\<close>

text \<open>
  However the threads interleave, the numbers leave the server in the order 2, 3, 4, \<open>\<dots>\<close>, each thread sends exactly one, as if
  the threads ran one at a time; and while a thread has not ended, one of them can go on.
\<close>

lemma bt_progress:
  assumes lock: "bt_lock s" and i: "i < length (bt_threads s)" "bt_threads s ! i \<noteq> F_end"
  shows "\<exists>j < length (bt_threads s). \<exists>s'. find_max_number j True s = Cont s'"
proof (cases "bt_mutex s")
  case None
  then have "\<exists>s'. find_max_number i True s = Cont s'" using i by (cases "bt_threads s ! i") (simp_all add: find_max_number_def)
  then show ?thesis using i(1) by blast
next
  case (Some j)
  then have "j < length (bt_threads s)" "f_crit (bt_threads s ! j)" using lock by (auto simp: bt_lock_def)
  moreover from this have "\<exists>s'. find_max_number j True s = Cont s'" by (auto simp: f_crit_def find_max_number_def)
  ultimately show ?thesis by blast
qed

lemma bakery3_threads_number:
  assumes "reach (\<lambda>s. s = bt_boot) bt_next s"
  shows "map (\<lambda>(_, n, _). n) (bt_sent s) = map (\<lambda>k. int k + 2) [0..<length (bt_sent s)] \<and>
    distinct (map fst (bt_sent s)) \<and>
    (\<forall>i < length (bt_threads s). bt_threads s ! i = F_end \<longrightarrow> i \<in> fst ` set (bt_sent s)) \<and>
    ((\<exists>i < length (bt_threads s). bt_threads s ! i \<noteq> F_end) \<longrightarrow>
      (\<exists>j < length (bt_threads s). \<exists>s'. find_max_number j True s = Cont s'))"
proof -
  have inv: "bt_lock s" "bt_numbers s" "bt_replies s" using bt_sys.reach_inv [OF assms] by (simp_all add: bt_inv_def)
  then show ?thesis
    using bt_progress [OF inv(1)] by (auto simp: bt_numbers_def bt_replies_def f_sent_def)
qed

text \<open>
  \<open>pthread_create\<close> reports a failure by a positive number, never by -1: a failed start is taken for a success, and the
  request is never answered.
\<close>

lemma failed_start_unnoticed:
  "0 < rc \<Longrightarrow> b3_get_number_1_svc True rc s = (True, s)"
  by (simp add: b3_get_number_1_svc_def)

end
