(* ===== verification/App3_Stat.thy ===== *)
theory App3_Stat
  imports Buf_Io
begin

text \<open>
  The programs \<open>app3_buf.c\<close> and \<open>app3_non_buf.c\<close> of \<open>lab_buf_io\<close> from the file to the text they print: \<open>print_stat\<close>, the case of a
  missing file, and how the size that is shown grows.
\<close>

section \<open>Model\<close>

text \<open>What \<open>stat\<close> knows of \<open>3.txt\<close> besides its contents; neither program changes it.\<close>

record fmeta =
  st_mode :: nat
  st_ino :: nat
  st_blksize :: nat

definition app3_print_stat :: "fmeta \<Rightarrow> nat \<Rightarrow> string" where
  "app3_print_stat m sz = ''umode  : '' @ show_base 8 (st_mode m) @ [NL] @ ''inode  : '' @ show_dec (st_ino m) @ [NL] @
     ''size   : '' @ show_dec sz @ [NL] @ ''blksize: '' @ show_dec (st_blksize m) @ [NL]"

text \<open>
  The whole programs: the return value, the standard output and the file afterwards.  Without the file, \<open>fopen\<close> gives null
  pointers, and the first \<open>fprintf\<close> is undefined (\<open>None\<close>); \<open>open\<close> gives -1, and every \<open>write\<close> and every \<open>print_stat\<close> fails with nothing on the
  standard output.
\<close>

definition app3_buf_prog :: "(fmeta \<times> string) option \<Rightarrow> (int \<times> string \<times> (fmeta \<times> string) option) option" where
  "app3_buf_prog f = (case f of
     None \<Rightarrow> None
   | Some (m, fl) \<Rightarrow> (case app3_buf_main fl of (fl', sizes) \<Rightarrow> Some (0, concat (map (app3_print_stat m) sizes), Some (m, fl'))))"

definition app3_raw_prog :: "(fmeta \<times> string) option \<Rightarrow> (int \<times> string \<times> (fmeta \<times> string) option) option" where
  "app3_raw_prog f = (case f of
     None \<Rightarrow> Some (0, [], None)
   | Some (m, fl) \<Rightarrow> (case app3_raw_main fl of (fl', sizes) \<Rightarrow> Some (0, concat (map (app3_print_stat m) sizes), Some (m, fl'))))"

section \<open>Sizes\<close>

lemma app3_raw_sizes:
  "list_all (\<lambda>(o', e). odd_char o' \<and> \<not> odd_char e) ps \<Longrightarrow> k \<le> length fl \<Longrightarrow>
   snd (app3_raw_loop (concat (map (\<lambda>(o', e). [o', e]) ps)) fl k k sizes) =
     sizes @ concat (map (\<lambda>j. replicate 2 (max (length fl) (k + j + 1))) [0..<length ps])"
proof (induction ps arbitrary: fl k sizes)
  case (Cons p ps)
  obtain o' e where p: "p = (o', e)" by (cases p)
  let ?f1 = "write_at k [o'] fl" and ?f = "write_at k [e] (write_at k [o'] fl)"
  have len: "length ?f1 = max (length fl) (k + 1)" "length ?f = max (length fl) (k + 1)"
    using Cons.prems(2) by (auto simp: length_write_at)
  have "snd (app3_raw_loop (concat (map (\<lambda>(o', e). [o', e]) ps)) ?f (k + 1) (k + 1) sizes') =
      sizes' @ concat (map (\<lambda>j. replicate 2 (max (length ?f) (k + 1 + j + 1))) [0..<length ps])" for sizes'
    using Cons.prems(1) len by (intro Cons.IH) (auto simp: p)
  moreover have "max (max (length fl) (k + 1)) (k + 1 + j + 1) = max (length fl) (k + Suc j + 1)" for j by simp
  ultimately show ?case
    using Cons.prems(1) len
    by (simp add: p Let_def numeral_2_eq_2 upt_conv_Cons map_Suc_upt [symmetric] comp_def del: upt_Suc map_Suc_upt)
qed simp

text \<open>
  Both programs leave the same file, end with 0 and print 29 reports.  Through streams the first 27 show the old
  size: nothing is written before \<open>fclose\<close>; through descriptors the size grows with every second letter.
\<close>

definition raw_sizes :: "nat \<Rightarrow> nat list" where
  "raw_sizes n = n # concat (map (\<lambda>j. replicate 2 (max n (j + 1))) [0..<13]) @ replicate 2 (max n 13)"

lemma app3_raw_main_sizes: "snd (app3_raw_main fl) = raw_sizes (length fl)"
proof -
  have len: "length (zip odd_letters even_letters) = 13" by (simp add: odd_letters_def even_letters_def)
  have even: "length even_letters = 13" by (simp add: even_letters_def)
  have "length (fst (app3_raw_main fl)) = max (length fl) 13"
    using app3_writers_agree [of fl] even by (simp add: max_def)
  moreover have "snd (app3_raw_loop letters fl 0 0 [length fl]) =
      [length fl] @ concat (map (\<lambda>j. replicate 2 (max (length fl) (j + 1))) [0..<13])"
    using app3_raw_sizes [OF letters_parity, of 0 fl "[length fl]"] unfolding letters_pairs [symmetric] len by simp
  ultimately show ?thesis
    by (cases "app3_raw_loop letters fl 0 0 [length fl]") (simp add: app3_raw_main_def raw_sizes_def numeral_2_eq_2)
qed

lemma app3_programs:
  "app3_buf_prog (Some (m, fl)) = Some (0, concat (map (app3_print_stat m) (replicate 27 (length fl) @ replicate 2 (max 13 (length fl)))),
     Some (m, even_letters @ drop 13 fl)) \<and>
   app3_raw_prog (Some (m, fl)) = Some (0, concat (map (app3_print_stat m) (raw_sizes (length fl))), Some (m, even_letters @ drop 13 fl)) \<and>
   app3_buf_prog None = None \<and> app3_raw_prog None = Some (0, [], None)"
proof -
  have "app3_buf_main fl = (even_letters @ drop 13 fl, replicate 27 (length fl) @ replicate 2 (max 13 (length fl)))"
    using app3_writers_agree [of fl] by (metis prod.collapse)
  moreover have "app3_raw_main fl = (even_letters @ drop 13 fl, raw_sizes (length fl))"
    using app3_writers_agree [of fl] app3_raw_main_sizes [of fl] by (metis prod.collapse)
  ultimately show ?thesis by (simp add: app3_buf_prog_def app3_raw_prog_def)
qed

end
