(* ===== verification/Anon_Pages.thy ===== *)
theory Anon_Pages
  imports OS_Prelude
begin

text \<open>
  The beginning of \<open>process_client\<close> in \<open>lab_sockets/lab_03/mt/server.c\<close>: every thread maps 50 anonymous pages and
  touches them, for the experiment with the page map.  What the process keeps of them after its connections have ended.
\<close>

section \<open>Model\<close>

definition EXTRA_ANON_PAGES :: nat where "EXTRA_ANON_PAGES = 50"

text \<open>
  The mapped pages of the process by their number, each with its first byte.  \<open>mmap\<close> without an address returns a page that is not mapped,
  filled with zeros, or fails (\<open>None\<close>).
\<close>

type_synonym page_map = "nat \<Rightarrow> c_char option"

fun anon_loop :: "nat option list \<Rightarrow> page_map \<Rightarrow> nat option list \<Rightarrow> nat option list \<times> page_map" where
  "anon_loop [] mem anon_pages = (anon_pages, mem)"
| "anon_loop (r # rs) mem anon_pages = (case r of
     None \<Rightarrow> anon_loop rs mem (anon_pages @ [None])
   | Some p \<Rightarrow> anon_loop rs ((mem(p \<mapsto> 0))(p \<mapsto> 1)) (anon_pages @ [Some p]))"

fun mmap_fresh :: "nat option list \<Rightarrow> page_map \<Rightarrow> bool" where
  "mmap_fresh [] mem \<longleftrightarrow> True"
| "mmap_fresh (None # rs) mem \<longleftrightarrow> mmap_fresh rs mem"
| "mmap_fresh (Some p # rs) mem \<longleftrightarrow> p \<notin> dom mem \<and> mmap_fresh rs (mem(p \<mapsto> 1))"

text \<open>One thread after the other, each with the results of its 50 calls; the array is gone with the thread, the pages stay.\<close>

fun anon_threads :: "nat option list list \<Rightarrow> page_map \<Rightarrow> page_map" where
  "anon_threads [] mem = mem"
| "anon_threads (rs # rss) mem = anon_threads rss (snd (anon_loop rs mem []))"

fun threads_fresh :: "nat option list list \<Rightarrow> page_map \<Rightarrow> bool" where
  "threads_fresh [] mem \<longleftrightarrow> True"
| "threads_fresh (rs # rss) mem \<longleftrightarrow> length rs = EXTRA_ANON_PAGES \<and> mmap_fresh rs mem \<and> threads_fresh rss (snd (anon_loop rs mem []))"

section \<open>What stays mapped\<close>

fun got_pages :: "nat option list \<Rightarrow> nat list" where
  "got_pages [] = []"
| "got_pages (None # rs) = got_pages rs"
| "got_pages (Some p # rs) = p # got_pages rs"

lemma got_pages_append [simp]: "got_pages (rs @ rs') = got_pages rs @ got_pages rs'"
  by (induction rs rule: got_pages.induct) simp_all

lemma length_got_pages: "None \<notin> set rs \<Longrightarrow> length (got_pages rs) = length rs"
  by (induction rs rule: got_pages.induct) simp_all

lemma anon_loop_array: "fst (anon_loop rs mem a) = a @ rs"
  by (induction rs arbitrary: mem a) (simp_all split: option.split)

lemma anon_loop_at: "snd (anon_loop rs mem a) p = (if p \<in> set (got_pages rs) then Some 1 else mem p)"
proof (induction rs arbitrary: mem a)
  case (Cons r rs)
  then show ?case by (cases r) simp_all
qed simp

lemma anon_loop_card:
  "mmap_fresh rs mem \<Longrightarrow> finite (dom mem) \<Longrightarrow>
    finite (dom (snd (anon_loop rs mem a))) \<and> card (dom (snd (anon_loop rs mem a))) = card (dom mem) + length (got_pages rs)"
proof (induction rs arbitrary: mem a)
  case (Cons r rs)
  show ?case
  proof (cases r)
    case None
    then show ?thesis using Cons.IH [of mem "a @ [None]"] Cons.prems by simp
  next
    case (Some p)
    have fresh: "p \<notin> dom mem" "mmap_fresh rs (mem(p \<mapsto> 1))" "finite (dom (mem(p \<mapsto> 1)))" using Cons.prems Some by simp_all
    have "finite (dom (snd (anon_loop rs (mem(p \<mapsto> 1)) (a @ [Some p])))) \<and>
        card (dom (snd (anon_loop rs (mem(p \<mapsto> 1)) (a @ [Some p])))) = card (dom (mem(p \<mapsto> 1))) + length (got_pages rs)"
      by (rule Cons.IH [OF fresh(2,3)])
    then show ?thesis using Some fresh(1) Cons.prems(2) by simp
  qed
qed simp

text \<open>
  The pages of all connections are still mapped when they have ended, 50 for each where every call succeeds, and each was
  touched; memory that was mapped before is as it was.
\<close>

lemma anon_threads_at: "anon_threads rss mem p = (if p \<in> set (got_pages (concat rss)) then Some 1 else mem p)"
  by (induction rss arbitrary: mem) (simp_all add: anon_loop_at)

lemma anon_threads_card:
  "threads_fresh rss mem \<Longrightarrow> finite (dom mem) \<Longrightarrow>
    card (dom (anon_threads rss mem)) = card (dom mem) + length (got_pages (concat rss))"
proof (induction rss arbitrary: mem)
  case (Cons rs rss)
  then show ?case using anon_loop_card [of rs mem "[]"] by simp
qed simp

lemma anon_pages_leak:
  assumes "threads_fresh rss mem" "finite (dom mem)" "None \<notin> set (concat rss)"
  shows "card (dom (anon_threads rss mem)) = card (dom mem) + 50 * length rss \<and>
    (\<forall>p. anon_threads rss mem p = (if Some p \<in> set (concat rss) then Some 1 else mem p))"
proof -
  have "length (concat rss) = 50 * length rss"
    using assms(1) by (induction rss arbitrary: mem) (auto simp: EXTRA_ANON_PAGES_def)
  moreover have "p \<in> set (got_pages rs) \<longleftrightarrow> Some p \<in> set rs" for p rs
    by (induction rs rule: got_pages.induct) auto
  ultimately show ?thesis
    using anon_threads_card [OF assms(1,2)] length_got_pages [OF assms(3)] anon_threads_at by simp
qed

end
