(* ===== verification/Apue_Errors.thy ===== *)
theory Apue_Errors
  imports Dir_Walk
begin

text \<open>
  The helpers of \<open>lab_fs/apue.h\<close> that the directory walker uses: \<open>path_alloc\<close> with its static variables, and the error functions with
  their line buffer.
\<close>

section \<open>Path buffers\<close>

definition PATH_MAX_GUESS :: int where "PATH_MAX_GUESS = 1024"
definition SUSV3 :: int where "SUSV3 = 200112"

record path_state =
  pathmax :: int
  posix_version :: int

text \<open>\<open>PATH_MAX\<close> is defined where \<open>limits.h\<close> defines it, and the variable is 0 elsewhere.\<close>

definition path_boot :: "int option \<Rightarrow> path_state" where
  "path_boot limit = \<lparr>pathmax = (case limit of None \<Rightarrow> 0 | Some n \<Rightarrow> n), posix_version = 0\<rparr>"

text \<open>
  \<open>version\<close> is what \<open>sysconf(_SC_VERSION)\<close> returns, \<open>conf\<close> and \<open>err\<close> the result and the error number of \<open>pathconf\<close>,
  \<open>mem\<close> the success of \<open>malloc\<close>.  The result is the size of the buffer; \<open>err_sys\<close> ends the process.
\<close>

definition path_alloc :: "int \<Rightarrow> int \<Rightarrow> int \<Rightarrow> bool \<Rightarrow> path_state \<Rightarrow> (int \<times> path_state) outcome" where
  "path_alloc version conf err mem s =
     (let s1 = (if posix_version s = 0 then s\<lparr>posix_version := version\<rparr> else s) in
      if pathmax s1 = 0 \<and> conf < 0 \<and> err \<noteq> 0 then Exit 1
      else let s2 = (if pathmax s1 = 0 then s1\<lparr>pathmax := (if conf < 0 then PATH_MAX_GUESS else conf + 1)\<rparr> else s1);
               sz = (if posix_version s2 < SUSV3 then pathmax s2 + 1 else pathmax s2) in
        if mem then Cont (sz, s2) else Exit 1)"

text \<open>
  The buffer holds every path of the limit, and later calls give the same size; where the limit is known it is the
  size that the walker's model uses.
\<close>

lemma path_alloc_stable:
  assumes first: "path_alloc v c e True s = Cont (sz, s')" and v: "v \<noteq> 0" and s: "0 \<le> pathmax s" "posix_version s = 0 \<or> posix_version s = v"
  shows "0 < sz \<and> pathmax s' \<le> sz \<and> path_alloc v' c' e' True s' = Cont (sz, s')"
  using assms by (auto simp: path_alloc_def Let_def PATH_MAX_GUESS_def SUSV3_def split: if_split_asm)

lemma path_alloc_linux:
  "200112 \<le> v \<Longrightarrow> \<exists>s. path_alloc v c e True (path_boot (Some 4096)) = Cont (int path_size, s)"
  by (simp add: path_alloc_def path_boot_def path_size_def SUSV3_def)

section \<open>Error functions\<close>

definition MAXLINE :: nat where "MAXLINE = 4096"

text \<open>
  \<open>snprintf(buf + off, n, ...)\<close> of a text: at most \<open>n\<close> - 1 characters and a NUL.  \<open>strcat\<close> of one character needs room for it
  and for the NUL.
\<close>

definition snprintf_at :: "nat \<Rightarrow> nat \<Rightarrow> string \<Rightarrow> string \<Rightarrow> string" where
  "snprintf_at off n s buf = (if n = 0 then buf
     else take off buf @ take (n - 1) s @ [NUL] @ drop (off + length (take (n - 1) s) + 1) buf)"

definition strcat_char :: "char \<Rightarrow> string \<Rightarrow> string option" where
  "strcat_char c buf = (let l = length (upto_nul buf) in
     if l + 2 \<le> length buf then Some (take l buf @ [c, NUL] @ drop (l + 2) buf) else None)"

text \<open>
  \<open>err_doit\<close>: \<open>text\<close> is the formatted message, \<open>buf0\<close> what the local array holds at first; the result is what goes to the
  standard error, \<open>None\<close> a write behind the array.
\<close>

definition err_doit :: "bool \<Rightarrow> string \<Rightarrow> string \<Rightarrow> string \<Rightarrow> string option" where
  "err_doit errnoflag strerror text buf0 =
     (let buf1 = snprintf_at 0 MAXLINE text buf0; l = length (upto_nul buf1);
          buf2 = (if errnoflag then snprintf_at l (MAXLINE - l) ('': '' @ strerror) buf1 else buf1) in
      map_option upto_nul (strcat_char NL buf2))"

datatype err_end = Returns | Exits int | Aborts

definition err_ret :: "string \<Rightarrow> string \<Rightarrow> string \<Rightarrow> (string \<times> err_end) option" where
  "err_ret strerror text buf = map_option (\<lambda>out. (out, Returns)) (err_doit True strerror text buf)"

definition err_quit :: "string \<Rightarrow> string \<Rightarrow> (string \<times> err_end) option" where
  "err_quit text buf = map_option (\<lambda>out. (out, Exits 1)) (err_doit False [] text buf)"

definition err_dump :: "string \<Rightarrow> string \<Rightarrow> string \<Rightarrow> (string \<times> err_end) option" where
  "err_dump strerror text buf = map_option (\<lambda>out. (out, Aborts)) (err_doit True strerror text buf)"

definition err_sys :: "string \<Rightarrow> string \<Rightarrow> string \<Rightarrow> (string \<times> err_end) option" where
  "err_sys strerror text buf = map_option (\<lambda>out. (out, Exits 1)) (err_doit True strerror text buf)"

section \<open>What is printed\<close>

text \<open>A buffer that holds the text \<open>s\<close> and its NUL.\<close>

definition holds_text :: "string \<Rightarrow> string \<Rightarrow> bool" where
  "holds_text s buf \<longleftrightarrow> (\<exists>rest. buf = s @ NUL # rest) \<and> NUL \<notin> set s \<and> length buf = MAXLINE"

lemma holds_textD: "holds_text s buf \<Longrightarrow> upto_nul buf = s \<and> length s < MAXLINE"
  by (auto simp: holds_text_def upto_nul_at)

lemma snprintf_first:
  assumes "length buf = MAXLINE" "NUL \<notin> set s"
  shows "holds_text (take (MAXLINE - 1) s) (snprintf_at 0 MAXLINE s buf)"
  using assms by (auto simp: snprintf_at_def holds_text_def MAXLINE_def dest: in_set_takeD)

lemma snprintf_more:
  assumes "holds_text a buf" "NUL \<notin> set s"
  shows "holds_text (take (MAXLINE - 1) (a @ s)) (snprintf_at (length a) (MAXLINE - length a) s buf)"
proof -
  have a: "length a < MAXLINE" "NUL \<notin> set a" "take (length a) buf = a" "length buf = MAXLINE"
    using assms(1) by (auto simp: holds_text_def)
  have "take (MAXLINE - 1) (a @ s) = a @ take (MAXLINE - length a - 1) s" using a(1) by simp
  then show ?thesis
    using a assms(2) by (auto simp: snprintf_at_def holds_text_def dest: in_set_takeD)
qed

lemma strcat_char_holds:
  assumes "holds_text a buf" "c \<noteq> NUL"
  shows "map_option upto_nul (strcat_char c buf) = (if length a < MAXLINE - 1 then Some (a @ [c]) else None)"
proof -
  have a: "upto_nul buf = a" "length buf = MAXLINE" "take (length a) buf = a" "NUL \<notin> set a"
    using assms(1) holds_textD by (auto simp: holds_text_def)
  have "upto_nul (a @ c # NUL # rest) = a @ [c]" for rest
    using upto_nul_at [of "a @ [c]" rest] a(4) assms(2) by simp
  then show ?thesis using a by (auto simp: strcat_char_def Let_def)
qed

lemma strcat_cut:
  assumes "holds_text (take (MAXLINE - 1) m) buf"
  shows "map_option upto_nul (strcat_char NL buf) = (if length m < 4095 then Some (m @ [NL]) else None)"
  using strcat_char_holds [OF assms, of NL] by (auto simp: MAXLINE_def)

lemma err_doit_eval:
  assumes buf: "length buf = MAXLINE" and plain: "NUL \<notin> set text" "NUL \<notin> set strerror"
  shows "err_doit errnoflag strerror text buf =
    (let m = text @ (if errnoflag then '': '' @ strerror else []) in if length m < 4095 then Some (m @ [NL]) else None)"
proof -
  define a where "a = take (MAXLINE - 1) text"
  let ?buf1 = "snprintf_at 0 MAXLINE text buf"
  have one: "holds_text a ?buf1" unfolding a_def by (rule snprintf_first [OF buf plain(1)])
  show ?thesis
  proof (cases errnoflag)
    case True
    let ?t = "'': '' @ strerror"
    have "holds_text (take (MAXLINE - 1) (a @ ?t)) (snprintf_at (length a) (MAXLINE - length a) ?t ?buf1)"
      using plain(2) by (intro snprintf_more [OF one]) auto
    moreover have "take (MAXLINE - 1) (a @ ?t) = take (MAXLINE - 1) (text @ ?t)" by (simp add: a_def min_def)
    ultimately have "holds_text (take (MAXLINE - 1) (text @ ?t)) (snprintf_at (length a) (MAXLINE - length a) ?t ?buf1)" by simp
    from strcat_cut [OF this] show ?thesis
      using True holds_textD [OF one] unfolding err_doit_def Let_def by simp
  next
    case False
    then show ?thesis
      using strcat_cut [OF one [unfolded a_def]] unfolding err_doit_def Let_def by simp
  qed
qed

text \<open>
  (C39) \<open>err_ret\<close>, \<open>err_sys\<close> and \<open>err_dump\<close> print the whole message, the text of the error number and a newline, and \<open>err_quit\<close> the message
  and a newline, and then return, exit with 1, abort and exit with 1, if the line is shorter than the array less the newline and the NUL (4095
  characters before the newline); with any longer line they write behind the array.
\<close>

theorem err_functions_print:
  assumes "length buf = MAXLINE" "NUL \<notin> set text" "NUL \<notin> set strerror"
  shows "let m = text @ '': '' @ strerror; line = (\<lambda>t e. if length t < 4095 then Some (t @ [NL], e) else None) in
    err_ret strerror text buf = line m Returns \<and> err_sys strerror text buf = line m (Exits 1) \<and>
    err_dump strerror text buf = line m Aborts \<and> err_quit text buf = line text (Exits 1)"
  using err_doit_eval [OF assms, of True] err_doit_eval [OF assms(1,2), of "[]" False]
  by (simp add: err_ret_def err_sys_def err_dump_def err_quit_def Let_def)

theorem err_functions_print_witness:
  "err_ret ''Permission denied'' ''ftw'' (replicate 4096 NUL) = Some (''ftw: Permission denied'' @ [NL], Returns)"
proof -
  have "length (replicate 4096 NUL) = MAXLINE" by (simp add: MAXLINE_def)
  then show ?thesis using err_functions_print [of "replicate 4096 NUL" "''ftw''" "''Permission denied''"] by (simp add: Let_def)
qed

text \<open>
  The walker reports an unreadable directory with \<open>err_ret\<close> and a message of 46 bytes before the path: a path that fits its
  own buffer can overflow that of the message.
\<close>

lemma long_path_overflows:
  assumes "length prefix = 46" "NUL \<notin> set prefix" "length buf = MAXLINE"
  shows "err_ret ''Permission denied'' (prefix @ replicate 4030 (CHR ''d'')) buf = None"
proof -
  have "NUL \<notin> set (prefix @ replicate 4030 (CHR ''d''))" using assms(2) by simp
  from err_doit_eval [OF assms(3) this, of "''Permission denied''" True] show ?thesis
    using assms(1) by (simp add: err_ret_def Let_def)
qed

end
