(* ===== verification/Spec2Isabelle.thy ===== *)
theory Spec2Isabelle
  imports Threaded_Server Epoll_Server Mux_Server Letters_Server Reader_Writer Prod_Cons Ipc_Mains
    Wait_Status Fortune Key_Irq Vfs_Module Ticket_Rpc Proc_Report Dir_Walk Daemon Unix_Labs Win_RW Buf_Io
    Letter_Client Rpc_Dispatch Calc_Rpc Bakery_Array Dgram_Labs Socket_Pair
    Mux_Client Letters_Client Server_Mains Buf_Threads Task_List Exec_Lab Vfs_Mount Bakery_Pid Rpc_Mains Sockpair_Wait
    Key_Timing Rpc_Wire Pipe_Procs Module_Deps Bakery3_Threads App3_Stat Anon_Pages Apue_Errors
begin

text \<open>
  A verification library for the programs of an operating-systems course: letter servers over TCP,
  readers and writers and producers and consumers over System V IPC, RPC bakeries, kernel modules,
  readers of \<open>/proc\<close>, directory walkers, a daemon and small process programs.  The repository is
  a collection of programs, not one system; programs interact where a client talks to a server, and
  those pairs are composed here.  Source paths are under \<open>src/\<close>.

  \<^bold>\<open>Conventions.\<close>  A program or a thread is a function on a record of its state; a call of the kernel or of a
  library whose code is not in the repository is a parameter or an explicit input of the step, so every result
  it may have is a branch.  The result type \<open>outcome\<close> (\<open>OS_Prelude\<close>) is \<open>Cont\<close> (the step is done),
  \<open>Blocked\<close> (the call waits, or the input is used up), \<open>Exit c\<close> (the process ends with
  \<open>c\<close>) or \<open>UB\<close> (undefined behaviour of C: an index out of range, a null or dangling pointer, a buffer overrun).
  Threads and processes interleave statement by statement: an inductive predicate (\<open>*_reach\<close>) collects the
  states reached by any sequence of steps, and properties are invariants of it by rule induction.
  A variable that C leaves uninitialised is a parameter that holds any value.
  \<open>char\<close>, \<open>int\<close> flags and page-map entries are words where their width matters; counters
  of requests are mathematical integers (the 32-bit counter would wrap after two thousand million requests).

  \<^bold>\<open>Shared theories.\<close>
  \<open>OS_Prelude\<close> (outcomes, C remainder, receiving into a buffer, counting entries of a table,
  runs of actions), \<open>SysV_Sem\<close> (\<open>semop\<close> with \<open>IPC_NOWAIT\<close>, EAGAIN, ERANGE at SEMVMX = 32767, all-or-nothing),
  \<open>Ring_Buffer\<close> (the ring of 26 letters and the locale \<open>fifo_service\<close>), \<open>PC_Protocol\<close> and \<open>RW_Lock\<close> (the
  abstract protocols of producers and consumers, and of readers and writers, as locales with their safety and
  progress lemmas), \<open>Call_Script\<close> (initialisation with error branches as a script, locale \<open>clean_script\<close>:
  all or nothing), \<open>C_Text\<close> (\<open>printf\<close>, \<open>fgets\<close>, scanning of numbers), \<open>Letter_Common\<close> (the request structure).

  \<^bold>\<open>Letter servers\<close> (\<open>lab_sockets/lab_03\<close>).
  \<open>Threaded_Server\<close>: \<open>lab_03/server_1.c\<close>, a thread per connection over three semaphores: mutual exclusion,
  FIFO delivery, no deadlock, refinement of \<open>PC_Protocol\<close>.  \<open>Epoll_Server\<close>: \<open>lab_03/server_2.c\<close>, the same service in
  one thread with refusals: FIFO, every answer, every connection served to its end, the fatal events of its loop.
  \<open>Mux_Server\<close>: \<open>multiplex/server.c\<close> and its client, with the retry loops as \<open>partial_function\<close> (retrying for
  ever is \<open>None\<close>, every other end is a value): FIFO, when the loops return, and how the event loop can end.
  \<open>Letters_Server\<close>: \<open>mt/server.c\<close>, reservation of letters under a readers-writers lock:
  refinement of \<open>RW_Lock\<close>, each letter reserved at most once, readers see a consistent table; \<open>Anon_Pages\<close>: the pages its threads leave.
  \<open>Letter_Client\<close>: \<open>lab_03/client.c\<close>; the locale \<open>letter_service\<close> states what it needs of a server, is interpreted on
  \<open>serve\<close> of \<open>server_2.c\<close>, and the whole run of 40005 requests gives back the alphabet in order.
  \<open>Mux_Client\<close>: \<open>multiplex/client.c\<close> alone with its server, which never finishes.  \<open>Letters_Client\<close>: \<open>mt/client.c\<close> alone with
  its server, which takes all letters in order and then exits; 60 statements of the server are enough for one request.
  \<open>Server_Mains\<close>: \<open>main\<close> of the four servers on a model of their system calls (locale \<open>server_setup\<close>): with which failures
  they come to serve, and what the exit status tells about the semaphore set, also when threads still run.

  \<^bold>\<open>Other sockets.\<close>
  \<open>Socket_Pair\<close>: \<open>lab_sockets/lab_01\<close>, four processes on one pair of streams, as byte lists: what each
  reads in any interleaving, and how the second program hangs; \<open>Sockpair_Wait\<close>: the reports on their children.  \<open>Dgram_Labs\<close>: \<open>lab_sockets/lab_02\<close>, datagram servers
  and clients with their socket files and the 14 bytes of their addresses: answers in order, restart, the bound on
  the process id.

  \<^bold>\<open>Interprocess communication\<close> (\<open>sem_05/lab_03\<close>).  \<open>Reader_Writer\<close>, \<open>Prod_Cons\<close> and \<open>Ipc_Mains\<close>: the System V programs
  with their processes, signals and set-up: the register read is the last one written, the alphabet is consumed in
  order, no deadlock, when the producer leaves its page of 4096 bytes, and what \<open>main\<close> releases.  \<open>Win_RW\<close>: the
  same problem with Windows events: every history is that of a sequential register.

  \<^bold>\<open>RPC\<close> (\<open>sem_05/rpc\<close>).  \<open>Ticket_Rpc\<close>: the procedures of the bakeries; the locale \<open>ticket_service\<close> gives order and progress of
  any ticket server, interpreted on \<open>compile/0\<close> (served in order, no gaps) and on \<open>for-review/bakery_3\<close> (never
  serves).  \<open>Rpc_Dispatch\<close>: the threaded dispatcher of \<open>compile/0\<close>, statement by statement, refines those atomic calls and
  answers every request once; its client.  \<open>Bakery_Array\<close>: the dispatcher, busy wait and registration threads of
  \<open>new_bakery\<close> (whom it serves, when it hangs), its client, and \<open>bakery (2)\<close>.  \<open>Calc_Rpc\<close>: the calculator with a thread per
  request: requests do not disturb each other; what depends on its uninitialised return value.
  \<open>Bakery_Pid\<close>: \<open>bakery_2\<close>, whose dispatcher starts a thread per registration and waits itself: whom it serves, when it hangs, what happens when clients share a slot;
  the clients of \<open>bakery_2\<close>, \<open>bakery (2)\<close> and \<open>bakery_3\<close>.  \<open>Bakery3_Threads\<close>: the threads of \<open>bakery_3\<close>.  \<open>Rpc_Mains\<close>: \<open>main\<close> of the six servers on the table of the port mapper,
  in which they displace each other or fail to start, for any library that keeps its documented laws.  \<open>Rpc_Wire\<close>: the XDR routines and client stubs over the locale \<open>xdr_field\<close> and a parameter for \<open>clnt_call\<close>; a remote
  call from stub to procedure and back on bytes, and which values survive it.

  \<^bold>\<open>Kernel modules.\<close>  \<open>Fortune\<close> (\<open>lab_module/task_03\<close>): the proc file as a page with a write and a
  read index: round trip, exact overflow condition.  \<open>Key_Irq\<close> (\<open>lab_tasklet\<close>): interrupt handler with tasklet or
  work queue: the last released key is reported, and the windows at unloading;
  \<open>Key_Timing\<close>: both modules with their clocks and with interrupts between any two statements and between the operands of a subtraction of times.  \<open>Vfs_Module\<close> (\<open>lab_vfs\<close>): loading
  and unloading with any pattern of failures, reference count of the root inode.  \<open>Vfs_Mount\<close>: super block and root inode of the
  three modules, mounting and unmounting with the lines printed.  \<open>Task_List\<close> (\<open>lab_module/task_01\<close>): the walk over the
  ring of tasks prints every task once.  \<open>Module_Deps\<close> (\<open>lab_module/task_02\<close>): what three modules export, refer to and print.

  \<^bold>\<open>Files and processes.\<close>  \<open>Pagemap\<close> and \<open>Proc_Report\<close> (\<open>lab_proc/main.c\<close>): decoding of page-map entries, parsing of maps, stat
  and the other files, with buffers at their sizes (page size 4096, BUFSIZ 8192).  \<open>Dir_Walk\<close> (\<open>lab_fs\<close>): the walk
  with \<open>chdir\<close> and the walk with full paths agree on every tree; the height of the tree is enough fuel;
  \<open>Apue_Errors\<close>: its path buffers and error functions, and when a message overflows.  \<open>Daemon\<close>
  (\<open>lab_05_deamon\<close>): descriptors, lock file, a second start.  \<open>Unix_Labs\<close>, \<open>Wait_Status\<close> (\<open>lab_02_unix\<close>): pipes, signals, exit
  statuses, the two small computations; \<open>Exec_Lab\<close>: the program that runs others; \<open>Pipe_Procs\<close>: the
  pipe programs as processes, which end and print what the functions of \<open>Unix_Labs\<close> give.  \<open>Buf_Io\<close> (\<open>lab_buf_io\<close>): two streams over one
  file, writers of one file; \<open>Buf_Threads\<close>: its threaded version, any interleaving; \<open>App3_Stat\<close>: the
  writers with what they print.

  \<^bold>\<open>Not modelled.\<close>  The RPC library, the kernel's module loader and descriptors of the kernel build (generated); the dispatcher of
  \<open>for-review/bakery_3\<close>, which does not fit its own procedures (that of \<open>bakery_2\<close> does not either and is read with the procedure
  names of its directory); formatting of messages and of times;
  callbacks of kernel objects that only forward to kernel helpers; the output of \<open>lab_netstat\<close> and the reports, which
  are data.  Memory models weaker than interleaving, scheduling fairness and real time are
  outside the model: liveness is stated as absence of deadlock or as progress of the next step.
\<close>

end
